(* ===== verification/Go_Prelude.thy ===== *)
theory Go_Prelude
  imports Main "HOL-Library.Multiset" "HOL-Library.Word" "HOL-Library.Monad_Syntax"
begin

text \<open>
  Vocabulary shared by the theories of the development.

  \<^item> A Go operation that can panic (an index out of range, a nil dereference, a division by
    zero) returns an \<open>option\<close>: \<open>None\<close> is the panic.
  \<^item> Go's \<open>int\<close> is modelled by \<^typ>\<open>int\<close>: the counters of this program (terms, indices,
    task numbers) count events of one run. The values the program uses as bit patterns
    (\<open>uint64\<close> chunks of a bit set, the \<open>uint32\<close> of a hash) keep their width as words.
  \<^item> A slice is a list; the slice operations below write out Go's bounds checks.
  \<^item> A Go map is a partial function, and reading a missing key gives the zero value of the
    element type (\<open>map_get0\<close>).
\<close>

named_theorems go_simps \<open>rewrite rules for the Go operations of the prelude\<close>

section \<open>Slices\<close>

definition slice_get :: "'a list \<Rightarrow> int \<Rightarrow> 'a option" where
  "slice_get xs i = (if 0 \<le> i \<and> i < int (length xs) then Some (xs ! nat i) else None)"

definition slice_set :: "'a list \<Rightarrow> int \<Rightarrow> 'a \<Rightarrow> 'a list option" where
  "slice_set xs i v = (if 0 \<le> i \<and> i < int (length xs) then Some (xs[nat i := v]) else None)"

definition slice_from :: "'a list \<Rightarrow> int \<Rightarrow> 'a list option" where
  "slice_from xs i = (if 0 \<le> i \<and> i \<le> int (length xs) then Some (drop (nat i) xs) else None)"

definition slice_to :: "'a list \<Rightarrow> int \<Rightarrow> 'a list option" where
  "slice_to xs i = (if 0 \<le> i \<and> i \<le> int (length xs) then Some (take (nat i) xs) else None)"

lemma slice_get_nat [simp]: "slice_get xs (int n) = (if n < length xs then Some (xs ! n) else None)"
  by (simp add: slice_get_def)

lemma slice_get_SomeD:
  "slice_get xs i = Some x \<Longrightarrow> 0 \<le> i \<and> nat i < length xs \<and> x = xs ! nat i"
  by (auto simp: slice_get_def split: if_splits)

lemma slice_get_Some_mem: "slice_get xs i = Some x \<Longrightarrow> x \<in> set xs"
  by (auto dest!: slice_get_SomeD)

lemma slice_set_nat [simp]: "slice_set xs (int n) v = (if n < length xs then Some (xs[n := v]) else None)"
  by (simp add: slice_set_def)

lemma slice_set_SomeD:
  "slice_set xs i v = Some ys \<Longrightarrow> 0 \<le> i \<and> nat i < length xs \<and> ys = xs[nat i := v]"
  by (auto simp: slice_set_def split: if_splits)

lemma slice_set_length: "slice_set xs i v = Some ys \<Longrightarrow> length ys = length xs"
  by (auto simp: slice_set_def split: if_splits)

lemma slice_to_from:
  assumes "slice_to xs i = Some ys" and "slice_from xs i = Some zs"
  shows "ys @ zs = xs"
  using assms by (auto simp: slice_to_def slice_from_def split: if_splits)

section \<open>Maps with zero values\<close>

definition map_get0 :: "'v \<Rightarrow> ('k \<rightharpoonup> 'v) \<Rightarrow> 'k \<Rightarrow> 'v" where
  "map_get0 z m k = (case m k of None \<Rightarrow> z | Some v \<Rightarrow> v)"

lemma map_get0_upd [simp]: "map_get0 z (m(k \<mapsto> v)) k' = (if k' = k then v else map_get0 z m k')"
  by (simp add: map_get0_def)

lemma map_get0_empty [simp]: "map_get0 z Map.empty k = z"
  by (simp add: map_get0_def)

section \<open>Atomic compare and swap\<close>

text \<open>\<open>atomic.CompareAndSwapInt32(addr, old, new)\<close> as a function of the cell's content.\<close>

definition cas :: "'a \<Rightarrow> 'a \<Rightarrow> 'a \<Rightarrow> 'a" where
  "cas cell old new = (if cell = old then new else cell)"

lemma cas_simps [simp]:
  "cas old old new = new"
  "cell \<noteq> old \<Longrightarrow> cas cell old new = cell"
  by (simp_all add: cas_def)

lemma list_update_None: "xs ! i = None \<Longrightarrow> xs[i := None] = xs"
  by (metis list_update_id)

section \<open>Loops that may fail\<close>

text \<open>A loop over a slice whose body may panic.\<close>

fun foldo :: "('a \<Rightarrow> 's \<Rightarrow> 's option) \<Rightarrow> 'a list \<Rightarrow> 's \<Rightarrow> 's option" where
  "foldo f [] s = Some s"
| "foldo f (x # xs) s = do { s \<leftarrow> f x s; foldo f xs s }"

lemma foldo_append: "foldo f (xs @ ys) s = do { s \<leftarrow> foldo f xs s; foldo f ys s }"
  by (induction xs arbitrary: s) (auto split: Option.bind_splits)

lemma foldo_inv:
  assumes "foldo f xs s = Some t" and "P s" and "\<And>x s t. x \<in> set xs \<Longrightarrow> P s \<Longrightarrow> f x s = Some t \<Longrightarrow> P t"
  shows "P t"
  using assms
proof (induction xs arbitrary: s)
  case (Cons x xs)
  then obtain s1 where s1: "f x s = Some s1" "foldo f xs s1 = Some t" by (auto split: Option.bind_splits)
  have "P s1" by (rule Cons.prems(3) [OF _ Cons.prems(2) s1(1)]) simp
  with Cons.IH [OF s1(2)] Cons.prems(3) show ?case by auto
qed simp

lemma foldo_upt:
  assumes "foldo f [0..<n] s = Some t" and "P 0 s" and "\<And>i s t. i < n \<Longrightarrow> P i s \<Longrightarrow> f i s = Some t \<Longrightarrow> P (Suc i) t"
  shows "P n t"
  using assms
proof (induction n arbitrary: t)
  case (Suc n)
  then obtain u where "foldo f [0..<n] s = Some u" "f n u = Some t" by (auto simp: foldo_append split: Option.bind_splits)
  with Suc show ?case by (metis lessI less_SucI)
qed simp

section \<open>Decimal numbers\<close>

fun itoa_loop :: "nat \<Rightarrow> nat \<Rightarrow> string \<Rightarrow> string" where
  "itoa_loop 0 n acc = acc"
| "itoa_loop (Suc fuel) n acc =
     (let acc = char_of (48 + n mod 10) # acc
      in if n < 10 then acc else itoa_loop fuel (n div 10) acc)"

text \<open>\<open>%d\<close> of a nonnegative number. A number has at most as many digits as its value plus one.\<close>

definition itoa :: "nat \<Rightarrow> string" where
  "itoa n = itoa_loop (Suc n) n []"

definition digits_val :: "string \<Rightarrow> nat" where
  "digits_val s = foldl (\<lambda>a c. a * 10 + (of_char c - 48)) 0 s"

lemma itoa_loop_digits:
  "n < fuel \<Longrightarrow> \<exists>ds. itoa_loop fuel n acc = ds @ acc \<and> ds \<noteq> [] \<and> (\<forall>c\<in>set ds. of_char c \<in> {48..<58::nat}) \<and> digits_val ds = n"
proof (induction fuel arbitrary: n acc)
  case (Suc fuel)
  let ?c = "char_of (48 + n mod 10)"
  have c: "of_char ?c = 48 + n mod 10" by (simp add: of_char_of)
  show ?case
  proof (cases "n < 10")
    case True
    with c show ?thesis by (intro exI [of _ "[?c]"]) (auto simp: digits_val_def)
  next
    case False
    then have "n div 10 < fuel" using Suc.prems by (auto simp: less_Suc_eq_le intro: le_trans [OF div_le_mono2])
    from Suc.IH [OF this, of "?c # acc"] obtain ds where ds: "itoa_loop fuel (n div 10) (?c # acc) = ds @ ?c # acc"
      "\<forall>c\<in>set ds. of_char c \<in> {48..<58::nat}" "digits_val ds = n div 10" by blast
    with False c show ?thesis by (intro exI [of _ "ds @ [?c]"]) (auto simp: digits_val_def Let_def)
  qed
qed simp

lemma itoa_digits: "c \<in> set (itoa n) \<Longrightarrow> of_char c \<in> {48..<58::nat}" "digits_val (itoa n) = n"
  using itoa_loop_digits [of n "Suc n" "[]"] by (auto simp: itoa_def)

lemma itoa_inj: "itoa m = itoa n \<longleftrightarrow> m = n"
  by (metis itoa_digits(2))

lemma itoa_no_dash: "CHR ''-'' \<notin> set (itoa n)"
  using itoa_digits(1) [of "CHR ''-''" n] by auto

lemma append_sep_eq: "x \<notin> set us \<Longrightarrow> x \<notin> set us' \<Longrightarrow> us @ x # vs = us' @ x # vs' \<longleftrightarrow> us = us' \<and> vs = vs'"
  by (auto simp: append_eq_append_conv2 Cons_eq_append_conv append_eq_Cons_conv)

section \<open>Code points\<close>

text \<open>
  \<open>utf8.DecodeRuneInString\<close>: the first code point of a string and the number of bytes it
  takes; a byte that starts no valid encoding is U+FFFD of width 1, the
  empty string U+FFFD of width 0.
\<close>

definition cont :: "nat \<Rightarrow> nat \<Rightarrow> string \<Rightarrow> nat \<Rightarrow> bool" where
  "cont lo hi s i \<longleftrightarrow> i < length s \<and> lo \<le> of_char (s ! i) \<and> of_char (s ! i) \<le> hi"

definition DecodeRune :: "string \<Rightarrow> nat \<times> nat" where
  "DecodeRune s = (if s = [] then (0xFFFD, 0) else let b = (\<lambda>i. of_char (s ! i) :: nat); b0 = b 0 in
     if b0 < 0x80 then (b0, 1)
     else if 0xC2 \<le> b0 \<and> b0 \<le> 0xDF \<and> cont 0x80 0xBF s 1 then (b0 mod 32 * 64 + b 1 mod 64, 2)
     else if 0xE0 \<le> b0 \<and> b0 \<le> 0xEF
       \<and> cont (if b0 = 0xE0 then 0xA0 else 0x80) (if b0 = 0xED then 0x9F else 0xBF) s 1 \<and> cont 0x80 0xBF s 2
     then (b0 mod 16 * 4096 + b 1 mod 64 * 64 + b 2 mod 64, 3)
     else if 0xF0 \<le> b0 \<and> b0 \<le> 0xF4
       \<and> cont (if b0 = 0xF0 then 0x90 else 0x80) (if b0 = 0xF4 then 0x8F else 0xBF) s 1 \<and> cont 0x80 0xBF s 2 \<and> cont 0x80 0xBF s 3
     then (b0 mod 8 * 262144 + b 1 mod 64 * 4096 + b 2 mod 64 * 64 + b 3 mod 64, 4)
     else (0xFFFD, 1))"

section \<open>Sorting\<close>

text \<open>
  \<open>sort.Sort\<close> and \<open>sort.Slice\<close> permute a slice so that no element is less than an earlier one;
  they promise nothing about equal elements. The definitions that sort take the sorting function
  as an argument, and the theorems hold for every function with this contract. The instance is
  the insertion sort that the \<open>sort\<close> package runs on short slices: each element moves left over
  the elements it is less than.
\<close>

locale go_sort =
  fixes lt :: "'a \<Rightarrow> 'a \<Rightarrow> bool" and srt :: "'a list \<Rightarrow> 'a list"
  assumes srt_mset: "mset (srt xs) = mset xs"
    and srt_ordered: "sorted_wrt (\<lambda>x y. \<not> lt y x) (srt xs)"
begin

lemma srt_set [simp]: "set (srt xs) = set xs"
  using srt_mset by (metis set_mset_mset)

lemma srt_length [simp]: "length (srt xs) = length xs"
  using srt_mset by (metis size_mset)

lemma srt_distinct_map: "distinct (map f (srt xs)) = distinct (map f xs)"
  by (rule mset_eq_imp_distinct_iff) (simp add: srt_mset)

end

fun move_left :: "('a \<Rightarrow> 'a \<Rightarrow> bool) \<Rightarrow> 'a \<Rightarrow> 'a list \<Rightarrow> 'a list" where
  "move_left lt x [] = [x]"
| "move_left lt x (y # ys) = (if lt x y then y # move_left lt x ys else x # y # ys)"

definition insertionSort :: "('a \<Rightarrow> 'a \<Rightarrow> bool) \<Rightarrow> 'a list \<Rightarrow> 'a list" where
  "insertionSort lt xs = rev (foldl (\<lambda>done x. move_left lt x done) [] xs)"

definition weak_order :: "('a \<Rightarrow> 'a \<Rightarrow> bool) \<Rightarrow> bool" where
  "weak_order lt \<longleftrightarrow> (\<forall>x y. lt x y \<longrightarrow> \<not> lt y x) \<and> (\<forall>x y z. \<not> lt x y \<longrightarrow> \<not> lt y z \<longrightarrow> \<not> lt x z)"

lemma mset_move_left [simp]: "mset (move_left lt x ys) = add_mset x (mset ys)"
  by (induction ys) auto

lemma set_move_left [simp]: "set (move_left lt x ys) = insert x (set ys)"
  by (induction ys) auto

lemma move_left_ordered:
  assumes "weak_order lt" and "sorted_wrt (\<lambda>x y. \<not> lt x y) ys"
  shows "sorted_wrt (\<lambda>x y. \<not> lt x y) (move_left lt x ys)"
  using assms(2)
proof (induction ys)
  case Nil
  then show ?case by simp
next
  case (Cons y ys)
  have asym: "lt x y \<Longrightarrow> \<not> lt y x" and "\<And>z. \<not> lt x y \<Longrightarrow> \<not> lt y z \<Longrightarrow> \<not> lt x z"
    using assms(1) unfolding weak_order_def by blast+
  with Cons show ?case by auto
qed

lemma insertionSort_loop:
  assumes "weak_order lt" and "sorted_wrt (\<lambda>x y. \<not> lt x y) done"
  shows "sorted_wrt (\<lambda>x y. \<not> lt x y) (foldl (\<lambda>done x. move_left lt x done) done xs)
     \<and> mset (foldl (\<lambda>done x. move_left lt x done) done xs) = mset done + mset xs"
  using assms by (induction xs arbitrary: "done") (auto simp: move_left_ordered)

lemma insertionSort_go_sort: "weak_order lt \<Longrightarrow> go_sort lt (insertionSort lt)"
  using insertionSort_loop [of lt "[]"]
  by unfold_locales (auto simp: insertionSort_def sorted_wrt_rev)

section \<open>Splitting a list by a key\<close>

lemma mset_concat_filter:
  "distinct ks \<Longrightarrow> mset (concat (map (\<lambda>k. filter (\<lambda>x. f x = k) xs) ks)) = mset (filter (\<lambda>x. f x \<in> set ks) xs)"
  by (induction ks) (auto intro!: multiset_eqI)

end
