(* ===== verification/Porcupine_Bitset.thy ===== *)
theory Porcupine_Bitset
  imports Go_Prelude
begin

text \<open>
  The bit set of \<open>porcupine/bitset.go\<close>: a slice of 64-bit words, bit \<open>p\<close> in bit \<open>p mod 64\<close>
  of word \<open>p div 64\<close>. The linearizability checker keeps in such a set the identifiers of the
  operations it has linearized, and hashes it to index its cache. \<open>bits_of\<close> reads a bit set
  as a set of numbers; the locale \<open>id_set\<close> is the interface the checker relies on.
\<close>

unbundle bit_operations_syntax

type_synonym bitset = "64 word list"

definition newBitset :: "nat \<Rightarrow> bitset" where
  "newBitset bits =
     (let extra = (if bits mod 64 \<noteq> 0 then 1 else 0);
          chunks = bits div 64 + extra
      in replicate chunks 0)"

definition bitset_clone :: "bitset \<Rightarrow> bitset" where
  "bitset_clone b = take (length b) b"

definition bitsetIndex :: "nat \<Rightarrow> nat \<times> nat" where
  "bitsetIndex pos = (pos div 64, pos mod 64)"

definition bitset_set :: "bitset \<Rightarrow> nat \<Rightarrow> bitset option" where
  "bitset_set b pos =
     (let (major, minor) = bitsetIndex pos
      in if major < length b then Some (b[major := (b ! major) OR push_bit minor 1]) else None)"

definition bitset_clear :: "bitset \<Rightarrow> nat \<Rightarrow> bitset option" where
  "bitset_clear b pos =
     (let (major, minor) = bitsetIndex pos
      in if major < length b then Some (b[major := (b ! major) AND NOT (push_bit minor 1)]) else None)"

definition bitset_get :: "bitset \<Rightarrow> nat \<Rightarrow> bool option" where
  "bitset_get b pos =
     (let (major, minor) = bitsetIndex pos
      in if major < length b then Some ((b ! major) AND push_bit minor 1 \<noteq> 0) else None)"

text \<open>\<open>math/bits.OnesCount64\<close>.\<close>

definition OnesCount64 :: "64 word \<Rightarrow> nat" where
  "OnesCount64 v = length (filter (bit v) [0..<64])"

definition popcnt :: "bitset \<Rightarrow> nat" where
  "popcnt b = foldl (\<lambda>total v. total + OnesCount64 v) 0 b"

definition bitset_hash :: "bitset \<Rightarrow> 64 word" where
  "bitset_hash b = foldl (\<lambda>hash v. hash XOR v) (word_of_nat (popcnt b)) b"

fun bitset_eq_from :: "bitset \<Rightarrow> bitset \<Rightarrow> nat \<Rightarrow> nat \<Rightarrow> bool" where
  "bitset_eq_from b b2 i 0 = True"
| "bitset_eq_from b b2 i (Suc k) = (if b ! i \<noteq> b2 ! i then False else bitset_eq_from b b2 (Suc i) k)"

definition bitset_equals :: "bitset \<Rightarrow> bitset \<Rightarrow> bool" where
  "bitset_equals b b2 = (if length b \<noteq> length b2 then False else bitset_eq_from b b2 0 (length b))"

section \<open>A bit set as a set of numbers\<close>

definition bits_of :: "bitset \<Rightarrow> nat set" where
  "bits_of b = {p. p div 64 < length b \<and> bit (b ! (p div 64)) (p mod 64)}"

lemma bits_of_iff: "p \<in> bits_of b \<longleftrightarrow> p div 64 < length b \<and> bit (b ! (p div 64)) (p mod 64)"
  by (simp add: bits_of_def)

lemma bits_of_newBitset [simp]: "bits_of (newBitset n) = {}"
  by (auto simp: bits_of_def newBitset_def Let_def)

lemma length_newBitset: "length (newBitset n) * 64 < n + 64 \<and> n \<le> length (newBitset n) * 64"
  by (auto simp: newBitset_def Let_def) presburger+

lemma newBitset_room: "p < n \<Longrightarrow> p div 64 < length (newBitset n)"
  using length_newBitset [of n] by (simp add: less_mult_imp_div_less)

lemma bitset_clone_id [simp]: "bitset_clone b = b"
  by (simp add: bitset_clone_def)

lemma div_mod_64_eq: "(p::nat) div 64 = q div 64 \<Longrightarrow> p mod 64 = q mod 64 \<Longrightarrow> p = q"
  by (metis div_mult_mod_eq)

lemma bitset_set_Some:
  "p div 64 < length b \<Longrightarrow> bitset_set b p = Some (b[p div 64 := (b ! (p div 64)) OR push_bit (p mod 64) 1])"
  by (simp add: bitset_set_def bitsetIndex_def)

lemma bits_of_set:
  assumes "bitset_set b p = Some b'"
  shows "bits_of b' = insert p (bits_of b) \<and> length b' = length b"
proof -
  from assms have room: "p div 64 < length b"
    and b': "b' = b[p div 64 := (b ! (p div 64)) OR push_bit (p mod 64) 1]"
    by (auto simp: bitset_set_def bitsetIndex_def split: if_splits)
  have "q \<in> bits_of b' \<longleftrightarrow> q \<in> insert p (bits_of b)" for q
    using room div_mod_64_eq [of q p]
    by (cases "q div 64 = p div 64")
      (auto simp: bits_of_iff b' bit_simps)
  with b' show ?thesis by auto
qed

lemma bits_of_clear:
  assumes "bitset_clear b p = Some b'"
  shows "bits_of b' = bits_of b - {p} \<and> length b' = length b"
proof -
  from assms have room: "p div 64 < length b"
    and b': "b' = b[p div 64 := (b ! (p div 64)) AND NOT (push_bit (p mod 64) 1)]"
    by (auto simp: bitset_clear_def bitsetIndex_def split: if_splits)
  have "q \<in> bits_of b' \<longleftrightarrow> q \<in> bits_of b - {p}" for q
    using room div_mod_64_eq [of q p]
    by (cases "q div 64 = p div 64")
      (auto simp: bits_of_iff b' bit_simps)
  with b' show ?thesis by auto
qed

lemma bitset_get_bits_of:
  assumes "p div 64 < length b"
  shows "bitset_get b p = Some (p \<in> bits_of b)"
proof -
  have "w AND push_bit k 1 \<noteq> 0 \<longleftrightarrow> bit w k" if "k < 64" for w :: "64 word" and k
    using that by (auto simp: bit_eq_iff [where 'a = "64 word"] bit_simps)
  with assms show ?thesis by (simp add: bitset_get_def bitsetIndex_def bits_of_iff)
qed

lemma bitset_eq_from_iff:
  "bitset_eq_from b b2 i k \<longleftrightarrow> (\<forall>j<k. b ! (i + j) = b2 ! (i + j))"
  by (induction k arbitrary: i) (simp_all add: All_less_Suc2)

lemma bitset_equals_iff: "bitset_equals b b2 \<longleftrightarrow> b = b2"
  by (simp add: bitset_equals_def bitset_eq_from_iff list_eq_iff_nth_eq)

lemma bits_of_inject:
  assumes len: "length b = length b2" and eq: "bits_of b = bits_of b2"
  shows "b = b2"
proof (rule nth_equalityI)
  show "length b = length b2" by (rule len)
  fix i assume i: "i < length b"
  show "b ! i = b2 ! i"
  proof (rule bit_word_eqI)
    fix n assume "n < LENGTH(64)"
    moreover from eq have "64 * i + n \<in> bits_of b \<longleftrightarrow> 64 * i + n \<in> bits_of b2" by simp
    ultimately show "bit (b ! i) n = bit (b2 ! i) n" using i len by (simp add: bits_of_iff)
  qed
qed

section \<open>The interface of a set of operation identifiers\<close>

text \<open>
  What the checker asks of its set of linearized operations: an abstraction \<open>elems\<close> into sets
  of numbers below a capacity, the four operations, and an equality test and a hash that agree
  with it on sets of one capacity.
\<close>

locale id_set =
  fixes empty_set :: "nat \<Rightarrow> 's"
    and add_id :: "'s \<Rightarrow> nat \<Rightarrow> 's option"
    and del_id :: "'s \<Rightarrow> nat \<Rightarrow> 's option"
    and eq_ids :: "'s \<Rightarrow> 's \<Rightarrow> bool"
    and hash_ids :: "'s \<Rightarrow> 'h"
    and elems :: "'s \<Rightarrow> nat set"
    and cap :: "nat \<Rightarrow> 's \<Rightarrow> bool"
  assumes cap_empty: "cap n (empty_set n)"
    and elems_empty: "elems (empty_set n) = {}"
    and add_room: "cap n s \<Longrightarrow> p < n \<Longrightarrow> add_id s p \<noteq> None"
    and add_elems: "add_id s p = Some t \<Longrightarrow> elems t = insert p (elems s)"
    and add_cap: "cap n s \<Longrightarrow> add_id s p = Some t \<Longrightarrow> cap n t"
    and del_room: "cap n s \<Longrightarrow> p < n \<Longrightarrow> del_id s p \<noteq> None"
    and del_elems: "del_id s p = Some t \<Longrightarrow> elems t = elems s - {p}"
    and del_cap: "cap n s \<Longrightarrow> del_id s p = Some t \<Longrightarrow> cap n t"
    and eq_elems: "cap n s \<Longrightarrow> cap n t \<Longrightarrow> eq_ids s t \<longleftrightarrow> elems s = elems t"
    and elems_inj: "cap n s \<Longrightarrow> cap n t \<Longrightarrow> elems s = elems t \<Longrightarrow> s = t"
begin

lemma add_ex: "cap n s \<Longrightarrow> p < n \<Longrightarrow> \<exists>t. add_id s p = Some t \<and> cap n t \<and> elems t = insert p (elems s)"
  using add_room [of n s p] by (cases "add_id s p") (auto simp: add_elems intro: add_cap)

lemma del_ex: "cap n s \<Longrightarrow> p < n \<Longrightarrow> \<exists>t. del_id s p = Some t \<and> cap n t \<and> elems t = elems s - {p}"
  using del_room [of n s p] by (cases "del_id s p") (auto simp: del_elems intro: del_cap)

lemma eq_hash: "cap n s \<Longrightarrow> cap n t \<Longrightarrow> eq_ids s t \<Longrightarrow> hash_ids s = hash_ids t"
  using eq_elems [of n s t] elems_inj [of n s t] by simp

lemma add_del:
  assumes "cap n s" and "p < n" and "p \<notin> elems s" and "add_id s p = Some t"
  shows "del_id t p = Some s"
proof -
  from assms have "cap n t" and "elems t = insert p (elems s)"
    using add_cap add_elems by blast+
  moreover from this assms(2) obtain u where "del_id t p = Some u" and "cap n u" and "elems u = elems t - {p}"
    using del_ex by blast
  ultimately show ?thesis using assms elems_inj [of n u s] by simp
qed

end

definition bitset_cap :: "nat \<Rightarrow> bitset \<Rightarrow> bool" where
  "bitset_cap n b \<longleftrightarrow> length b = length (newBitset n)"

interpretation bs: id_set newBitset bitset_set bitset_clear bitset_equals bitset_hash bits_of bitset_cap
proof (unfold_locales, goal_cases)
  case (5 n s p t)
  then show ?case using bits_of_set [of s p t] by (simp add: bitset_cap_def)
next
  case (8 n s p t)
  then show ?case using bits_of_clear [of s p t] by (simp add: bitset_cap_def)
next
  case (9 n s t)
  then show ?case using bits_of_inject [of s t] by (auto simp: bitset_cap_def bitset_equals_iff)
next
  case (10 n s t)
  then show ?case using bits_of_inject [of s t] by (auto simp: bitset_cap_def)
next
  case (4 s p t)
  then show ?case using bits_of_set [of s p t] by blast
next
  case (7 s p t)
  then show ?case using bits_of_clear [of s p t] by blast
next
  case (3 n s p)
  then show ?case using newBitset_room [of p n] by (simp add: bitset_cap_def bitset_set_Some)
next
  case (6 n s p)
  then show ?case using newBitset_room [of p n]
    by (simp add: bitset_cap_def bitset_clear_def bitsetIndex_def)
qed (simp_all add: bitset_cap_def)

section \<open>Counting\<close>

lemma OnesCount64_card: "OnesCount64 v = card {i. i < 64 \<and> bit v i}"
proof -
  have "OnesCount64 v = card (set (filter (bit v) [0..<64]))"
    unfolding OnesCount64_def by (rule distinct_card [symmetric]) simp
  then show ?thesis by (simp add: conj_commute)
qed

lemma foldl_add_sum_list: "foldl (\<lambda>t v. t + f v) a xs = a + sum_list (map f xs)" for a :: nat
  by (induction xs arbitrary: a) auto

lemma popcnt_sum: "popcnt b = sum_list (map OnesCount64 b)"
  by (simp add: popcnt_def foldl_add_sum_list)

lemma bits_of_snoc:
  "bits_of (b @ [v]) = bits_of b \<union> (\<lambda>i. 64 * length b + i) ` {i. i < 64 \<and> bit v i}"
proof (rule set_eqI)
  fix p :: nat
  have "p = 64 * length b + p mod 64" if "p div 64 = length b"
    using that by (metis mult_div_mod_eq)
  then show "p \<in> bits_of (b @ [v]) \<longleftrightarrow>
      p \<in> bits_of b \<union> (\<lambda>i. 64 * length b + i) ` {i. i < 64 \<and> bit v i}"
    by (auto simp: bits_of_iff nth_append image_iff less_Suc_eq intro!: exI [of _ "p mod 64"])
qed

lemma bits_of_bound: "p \<in> bits_of b \<Longrightarrow> p < 64 * length b"
  by (auto simp: bits_of_iff div_less_iff_less_mult mult.commute)

lemma finite_bits_of [simp]: "finite (bits_of b)"
  by (rule finite_subset [of _ "{..<64 * length b}"]) (auto dest: bits_of_bound)

lemma popcnt_card: "popcnt b = card (bits_of b)"
proof (induction b rule: rev_induct)
  case Nil
  then show ?case by (simp add: popcnt_def bits_of_def)
next
  case (snoc v b)
  let ?A = "(\<lambda>i. 64 * length b + i) ` {i. i < 64 \<and> bit v i}"
  have "card ?A = OnesCount64 v"
    by (simp add: card_image inj_on_def OnesCount64_card)
  moreover have "bits_of b \<inter> ?A = {}"
    by (auto dest: bits_of_bound)
  ultimately show ?case
    using snoc by (simp add: popcnt_sum bits_of_snoc card_Un_disjoint)
qed

section \<open>Properties\<close>

text \<open>
  C35. The bit set implements a finite set of numbers. In a set with room for \<open>p\<close>, setting and
  clearing \<open>p\<close> succeed and change the membership of \<open>p\<close> only, reading \<open>q\<close> gives its membership,
  and the number of set bits is the size of the set.
\<close>

theorem bitset_implements_set:
  assumes "p < n" and "q < n" and "bitset_cap n b"
  shows "\<exists>s c. bitset_set b p = Some s \<and> bitset_clear b p = Some c
      \<and> bitset_get s q = Some (q = p \<or> q \<in> bits_of b)
      \<and> bitset_get c q = Some (q \<noteq> p \<and> q \<in> bits_of b)
      \<and> popcnt s = card (insert p (bits_of b)) \<and> popcnt c = card (bits_of b - {p})"
proof -
  from assms obtain s where s: "bitset_set b p = Some s" "bitset_cap n s" "bits_of s = insert p (bits_of b)"
    using bs.add_ex by blast
  from assms obtain c where c: "bitset_clear b p = Some c" "bitset_cap n c" "bits_of c = bits_of b - {p}"
    using bs.del_ex by blast
  from s(2) c(2) assms(2) have "q div 64 < length s" and "q div 64 < length c"
    using newBitset_room [of q n] by (simp_all add: bitset_cap_def)
  with s c show ?thesis by (auto simp: bitset_get_bits_of popcnt_card)
qed

theorem bitset_implements_set_witness:
  "bitset_cap 70 [5, 0] \<and> (\<exists>s. bitset_set [5, 0] 65 = Some s \<and> bitset_get s 65 = Some True)"
proof -
  have cap: "bitset_cap 70 [5, 0]" by (simp add: bitset_cap_def newBitset_def numeral_2_eq_2)
  moreover obtain s where "bitset_set [5, 0] 65 = Some s" and "bitset_get s 65 = Some True"
    using bitset_implements_set [of 65 70 65 "[5, 0]"] cap by auto
  ultimately show ?thesis by blast
qed

text \<open>
  \<open>equals\<close> decides equality of the represented sets for bit sets of one capacity, and equal
  sets have equal hashes, so a cache lookup by hash misses no equal set.
\<close>

theorem bitset_equals_hash:
  assumes "bitset_cap n b" and "bitset_cap n b2"
  shows "(bitset_equals b b2 \<longleftrightarrow> bits_of b = bits_of b2)
      \<and> (bits_of b = bits_of b2 \<longrightarrow> bitset_hash b = bitset_hash b2)"
  using assms bs.eq_elems [of n b b2] bs.eq_hash [of n b b2] by simp

theorem bitset_equals_hash_witness:
  "bitset_cap 3 [6] \<and> bitset_cap 3 [5] \<and> (bitset_equals [6] [5] \<longleftrightarrow> bits_of [6] = bits_of [5])"
proof -
  have cap: "bitset_cap 3 [6]" "bitset_cap 3 [5]" by (simp_all add: bitset_cap_def newBitset_def)
  with bitset_equals_hash [of 3 "[6]" "[5]"] show ?thesis by simp
qed

end
