(* ===== verification/Porcupine_Model.thy ===== *)
theory Porcupine_Model
  imports Go_Prelude "HOL-Library.Sublist"
begin

text \<open>
  The data of the linearizability checker (\<open>porcupine/model.go\<close> and the first part of
  \<open>porcupine/checker.go\<close>): operations with their invocation and response times, events, the
  sequential model a history is checked against, and the conversion of either kind of history
  into a time-ordered list of call and return entries. \<open>interface{}\<close> is the type variable \<open>'v\<close>,
  and a model's \<open>Step\<close> returns \<open>None\<close> where its type assertions panic.

  The second half is the specification: \<open>linearizable_ops\<close> for a list of operations and
  \<open>linearizes\<close> for a list of entries, with the lemmas that connect them.
\<close>

section \<open>Operations, events, models\<close>

record 'v Operation =
  ClientId :: int
  Input :: 'v
  Call :: int
  Output :: 'v
  Return :: int

datatype EventKind = CallEvent | ReturnEvent

record 'v Event =
  ev_ClientId :: int
  ev_Kind :: EventKind
  ev_Value :: 'v
  ev_Id :: int

record ('s, 'v) Model =
  Partition :: "('v Operation list \<Rightarrow> 'v Operation list list option) option"
  PartitionEvent :: "('v Event list \<Rightarrow> 'v Event list list option) option"
  Init :: 's
  Step :: "'s \<Rightarrow> 'v \<Rightarrow> 'v \<Rightarrow> (bool \<times> 's) option"
  Equal :: "('s \<Rightarrow> 's \<Rightarrow> bool) option"
  DescribeOperation :: "('v \<Rightarrow> 'v \<Rightarrow> string option) option"
  DescribeState :: "('s \<Rightarrow> string) option"

definition NoPartition :: "'v Operation list \<Rightarrow> 'v Operation list list option" where
  "NoPartition history = Some [history]"

definition NoPartitionEvent :: "'v Event list \<Rightarrow> 'v Event list list option" where
  "NoPartitionEvent history = Some [history]"

definition ShallowEqual :: "'s \<Rightarrow> 's \<Rightarrow> bool" where
  "ShallowEqual state1 state2 \<longleftrightarrow> state1 = state2"

text \<open>The two default descriptions print values with \<open>%v\<close>; \<open>fmt\<close> is that formatting.\<close>

definition DefaultDescribeOperation :: "('v \<Rightarrow> string) \<Rightarrow> 'v \<Rightarrow> 'v \<Rightarrow> string option" where
  "DefaultDescribeOperation fmt input output = Some (fmt input @ '' -> '' @ fmt output)"

definition DefaultDescribeState :: "('s \<Rightarrow> string) \<Rightarrow> 's \<Rightarrow> string" where
  "DefaultDescribeState fmt state = fmt state"

definition fillDefault ::
  "('v \<Rightarrow> string) \<Rightarrow> ('s \<Rightarrow> string) \<Rightarrow> ('s, 'v) Model \<Rightarrow> ('s, 'v) Model" where
  "fillDefault fmtv fmts model =
     (let model = (if Partition model = None then model\<lparr>Partition := Some NoPartition\<rparr> else model);
          model = (if PartitionEvent model = None then model\<lparr>PartitionEvent := Some NoPartitionEvent\<rparr> else model);
          model = (if Equal model = None then model\<lparr>Equal := Some ShallowEqual\<rparr> else model);
          model = (if DescribeOperation model = None
                   then model\<lparr>DescribeOperation := Some (DefaultDescribeOperation fmtv)\<rparr> else model);
          model = (if DescribeState model = None
                   then model\<lparr>DescribeState := Some (DefaultDescribeState fmts)\<rparr> else model)
      in model)"

datatype CheckResult = Unknown | Ok | Illegal

section \<open>Entries\<close>

datatype entryKind = callEntry | returnEntry

record 'v entry =
  ent_kind :: entryKind
  ent_value :: 'v
  ent_id :: int
  ent_time :: int
  ent_clientId :: int

definition byTime_Less :: "'v entry \<Rightarrow> 'v entry \<Rightarrow> bool" where
  "byTime_Less a b =
     (if ent_time a \<noteq> ent_time b then ent_time a < ent_time b
      else ent_kind a = callEntry \<and> ent_kind b = returnEntry)"

fun entries_of :: "int \<Rightarrow> 'v Operation list \<Rightarrow> 'v entry list" where
  "entries_of i []  = []"
| "entries_of i (elem # history) =
     \<lparr>ent_kind = callEntry, ent_value = Input elem, ent_id = i, ent_time = Call elem, ent_clientId = ClientId elem\<rparr>
     # \<lparr>ent_kind = returnEntry, ent_value = Output elem, ent_id = i, ent_time = Return elem, ent_clientId = ClientId elem\<rparr>
     # entries_of (i + 1) history"

definition makeEntries :: "('v entry list \<Rightarrow> 'v entry list) \<Rightarrow> 'v Operation list \<Rightarrow> 'v entry list" where
  "makeEntries srt history = srt (entries_of 0 history)"

fun renumber_from :: "(int \<rightharpoonup> int) \<Rightarrow> int \<Rightarrow> 'v Event list \<Rightarrow> 'v Event list" where
  "renumber_from m i []  = []"
| "renumber_from m i (v # events) =
     (case m (ev_Id v) of
        Some r \<Rightarrow> v\<lparr>ev_Id := r\<rparr> # renumber_from m i events
      | None \<Rightarrow> v\<lparr>ev_Id := i\<rparr> # renumber_from (m(ev_Id v \<mapsto> i)) (i + 1) events)"

definition renumber :: "'v Event list \<Rightarrow> 'v Event list" where
  "renumber events = renumber_from Map.empty 0 events"

fun convert_from :: "int \<Rightarrow> 'v Event list \<Rightarrow> 'v entry list" where
  "convert_from i [] = []"
| "convert_from i (elem # events) =
     \<lparr>ent_kind = (if ev_Kind elem = ReturnEvent then returnEntry else callEntry),
      ent_value = ev_Value elem, ent_id = ev_Id elem, ent_time = i, ent_clientId = ev_ClientId elem\<rparr>
     # convert_from (i + 1) events"

definition convertEntries :: "'v Event list \<Rightarrow> 'v entry list" where
  "convertEntries events = convert_from 0 events"

section \<open>Linearizability\<close>

text \<open>
  \<open>run_steps\<close> runs the sequential model over a list of input/output pairs: \<open>None\<close> when a step is
  refused. A list of operations is linearizable when some order of all of them is accepted by the
  model and puts no operation before one that had returned before it was called.
\<close>

fun run_steps :: "('s \<Rightarrow> 'v \<Rightarrow> 'v \<Rightarrow> (bool \<times> 's) option) \<Rightarrow> 's \<Rightarrow> ('v \<times> 'v) list \<Rightarrow> 's option" where
  "run_steps step s [] = Some s"
| "run_steps step s ((i, v) # ios) =
     (case step s i v of Some (True, s') \<Rightarrow> run_steps step s' ios | _ \<Rightarrow> None)"

definition io_of :: "'v Operation \<Rightarrow> 'v \<times> 'v" where
  "io_of a = (Input a, Output a)"

definition linearizable_ops ::
  "('s \<Rightarrow> 'v \<Rightarrow> 'v \<Rightarrow> (bool \<times> 's) option) \<Rightarrow> 's \<Rightarrow> 'v Operation list \<Rightarrow> bool" where
  "linearizable_ops step init ops \<longleftrightarrow>
     (\<exists>\<sigma>. distinct \<sigma> \<and> set \<sigma> = {..<length ops}
        \<and> run_steps step init (map (\<lambda>i. io_of (ops ! i)) \<sigma>) \<noteq> None
        \<and> sorted_wrt (\<lambda>i j. \<not> Return (ops ! j) < Call (ops ! i)) \<sigma>)"

text \<open>The same on entries: an operation is the identifier its two entries share.\<close>

abbreviation key :: "'v entry \<Rightarrow> entryKind \<times> int" where
  "key e \<equiv> (ent_kind e, ent_id e)"

fun calls_first :: "int set \<Rightarrow> 'v entry list \<Rightarrow> bool" where
  "calls_first S [] = True"
| "calls_first S (e # es) =
     (if ent_kind e = callEntry then calls_first (insert (ent_id e) S) es
      else ent_id e \<in> S \<and> calls_first S es)"

definition wf_history :: "'v entry list \<Rightarrow> nat \<Rightarrow> bool" where
  "wf_history es n \<longleftrightarrow> distinct (map key es)
     \<and> set (map key es) = {callEntry, returnEntry} \<times> {0..<int n} \<and> calls_first {} es"

definition value_at :: "'v entry list \<Rightarrow> entryKind \<Rightarrow> int \<Rightarrow> 'v option" where
  "value_at es k i = map_option ent_value (List.find (\<lambda>e. key e = (k, i)) es)"

definition io_at :: "'v entry list \<Rightarrow> int \<Rightarrow> 'v \<times> 'v" where
  "io_at es i = (the (value_at es callEntry i), the (value_at es returnEntry i))"

definition ret_before :: "'v entry list \<Rightarrow> int \<Rightarrow> int \<Rightarrow> bool" where
  "ret_before es a b \<longleftrightarrow> (\<exists>r c. subseq [r, c] es \<and> key r = (returnEntry, a) \<and> key c = (callEntry, b))"

definition linearizes ::
  "('s \<Rightarrow> 'v \<Rightarrow> 'v \<Rightarrow> (bool \<times> 's) option) \<Rightarrow> 's \<Rightarrow> 'v entry list \<Rightarrow> int set \<Rightarrow> int list \<Rightarrow> bool" where
  "linearizes step s es A \<sigma> \<longleftrightarrow> distinct \<sigma> \<and> set \<sigma> = A
     \<and> run_steps step s (map (io_at es) \<sigma>) \<noteq> None
     \<and> sorted_wrt (\<lambda>i j. \<not> ret_before es j i) \<sigma>"

section \<open>Well-formed histories\<close>

lemma subseq_pair: "subseq [a, b] xs \<longleftrightarrow> (\<exists>us vs. xs = us @ a # vs \<and> b \<in> set vs)"
proof (induction xs)
  case Nil
  then show ?case by simp
next
  case (Cons x xs)
  show ?case
  proof (cases "a = x")
    case True
    then have "subseq [a, b] (x # xs) \<longleftrightarrow> b \<in> set xs" by (simp add: subseq_singleton_left)
    moreover have "b \<in> set xs" if "x # xs = us @ a # vs" and "b \<in> set vs" for us vs
      using that by (cases us) auto
    ultimately show ?thesis using True by (metis append_Nil)
  next
    case False
    then have "subseq [a, b] (x # xs) \<longleftrightarrow> subseq [a, b] xs" by simp
    with Cons False show ?thesis by (auto simp: Cons_eq_append_conv)
  qed
qed

lemma subseq_pair_after:
  assumes "distinct (us @ a # vs)"
  shows "subseq [a, b] (us @ a # vs) \<longleftrightarrow> b \<in> set vs"
  using assms append_Cons_eq_iff [of a us vs] by (auto simp: subseq_pair)

lemma subseq_pair_before:
  assumes "distinct (us @ b # vs)"
  shows "subseq [a, b] (us @ b # vs) \<longleftrightarrow> a \<in> set us"
proof
  assume "subseq [a, b] (us @ b # vs)"
  then obtain ps q1 q2 where "us @ b # vs = (ps @ a # q1) @ b # q2"
    by (auto simp: subseq_pair dest!: split_list)
  moreover from assms have "b \<notin> set us" and "b \<notin> set vs" by auto
  ultimately have "us = ps @ a # q1"
    using append_Cons_eq_iff [of b us vs "ps @ a # q1" q2] by blast
  then show "a \<in> set us" by simp
next
  assume "a \<in> set us"
  then obtain ps qs where "us = ps @ a # qs" by (meson split_list)
  then have "us @ b # vs = ps @ a # (qs @ b # vs)" by simp
  moreover have "b \<in> set (qs @ b # vs)" by simp
  ultimately show "subseq [a, b] (us @ b # vs)" unfolding subseq_pair by blast
qed

lemma subseq_pair_filter: "subseq [a, b] xs \<Longrightarrow> P a \<Longrightarrow> P b \<Longrightarrow> subseq [a, b] (filter P xs)"
  using subseq_filter [of "[a, b]" xs P] by simp

lemma subseq_pair_unfilter: "subseq [a, b] (filter P xs) \<Longrightarrow> subseq [a, b] xs"
  using subseq_filter_left [of P xs] subseq_order.order_trans by blast

lemma calls_first_split:
  "calls_first S (us @ r # vs) \<Longrightarrow> ent_kind r = returnEntry \<Longrightarrow>
     ent_id r \<in> S \<or> (\<exists>c\<in>set us. key c = (callEntry, ent_id r))"
proof (induction us arbitrary: S)
  case Nil
  then show ?case by simp
next
  case (Cons a us)
  then show ?case
    by (cases "ent_kind a = callEntry") (use Cons.IH [of "insert (ent_id a) S"] Cons.IH [of S] in auto)
qed

lemma wf_historyD:
  assumes "wf_history es n"
  shows wf_keys_distinct: "distinct (map key es)"
    and wf_distinct: "distinct es"
    and wf_calls_first: "calls_first {} es"
    and wf_keys: "key ` set es = {callEntry, returnEntry} \<times> {0..<int n}"
  using assms by (auto simp: wf_history_def distinct_map)

lemma wf_key_inj: "wf_history es n \<Longrightarrow> e \<in> set es \<Longrightarrow> f \<in> set es \<Longrightarrow> key e = key f \<Longrightarrow> e = f"
  using wf_keys_distinct by (fastforce simp: distinct_map inj_on_def)

lemma wf_id_range: "wf_history es n \<Longrightarrow> e \<in> set es \<Longrightarrow> 0 \<le> ent_id e \<and> ent_id e < int n"
  using wf_keys [of es n] imageI [of e "set es" key] by simp

lemma wf_entry_ex:
  assumes "wf_history es n" and "0 \<le> i" and "i < int n"
  shows "\<exists>e\<in>set es. key e = (k, i)"
proof -
  have "(k, i) \<in> key ` set es" using wf_keys [OF assms(1)] assms(2,3) by (cases k) auto
  then show ?thesis by fastforce
qed

lemma wf_value_at:
  assumes "wf_history es n" and "e \<in> set es"
  shows "value_at es (ent_kind e) (ent_id e) = Some (ent_value e)"
proof -
  obtain f where f: "List.find (\<lambda>f. key f = key e) es = Some f"
    using assms(2) by (cases "List.find (\<lambda>f. key f = key e) es") (auto simp: find_None_iff)
  then have "f \<in> set es" and "key f = key e" by (auto simp: find_Some_iff)
  with assms have "f = e" by (auto intro: wf_key_inj)
  with f show ?thesis by (simp add: value_at_def)
qed

lemma wf_length: "wf_history es n \<Longrightarrow> length es = 2 * n"
proof -
  assume wf: "wf_history es n"
  have "length es = card (set (map key es))"
    using distinct_card [OF wf_keys_distinct [OF wf]] by simp
  also have "\<dots> = 2 * n"
    using wf_keys [OF wf] by (simp add: card_cartesian_product card_insert_if)
  finally show ?thesis .
qed

lemma wf_call_before:
  assumes wf: "wf_history es n" and r: "r \<in> set es" "ent_kind r = returnEntry"
  shows "\<exists>c\<in>set es. key c = (callEntry, ent_id r) \<and> subseq [c, r] es"
proof -
  from r(1) obtain us vs where es: "es = us @ r # vs" by (meson split_list)
  with calls_first_split [of "{}" us r vs] wf_calls_first [OF wf] r(2)
  obtain c where "c \<in> set us" and "key c = (callEntry, ent_id r)" by auto
  with es wf_distinct [OF wf] show ?thesis by (auto simp: subseq_pair_before)
qed

lemma wf_return_after:
  assumes wf: "wf_history es n" and c: "c \<in> set es" "ent_kind c = callEntry"
  shows "\<exists>r\<in>set es. key r = (returnEntry, ent_id c) \<and> subseq [c, r] es"
proof -
  from wf_entry_ex [OF wf, of "ent_id c" returnEntry] wf_id_range [OF wf c(1)]
  obtain r where r: "r \<in> set es" "key r = (returnEntry, ent_id c)" by auto
  from wf_call_before [OF wf r(1)] r(2) obtain c' where c': "c' \<in> set es"
    "key c' = (callEntry, ent_id c)" "subseq [c', r] es" by auto
  with c have "c' = c" by (intro wf_key_inj [OF wf]) auto
  with r c' show ?thesis by blast
qed

end
