(* ===== verification/Porcupine_Links.thy ===== *)
theory Porcupine_Links
  imports Porcupine_Model
begin

text \<open>
  The doubly linked list of \<open>porcupine/checker.go\<close>. Nodes live in a heap, a partial map from
  addresses; a pointer is an optional address, and a dereference of nil (or of an address that
  was never allocated) is \<open>None\<close>. Addresses are given out in the order of allocation.

  \<open>dl h p xs q\<close> says that the nodes \<open>xs\<close> form a doubly linked segment of the heap between \<open>p\<close> and \<open>q\<close>.
  The main facts: \<open>lift\<close> removes a call and its return from the list, and \<open>unlift\<close> restores
  the heap that \<open>lift\<close> was applied to, node for node.
\<close>

section \<open>Nodes and pointers\<close>

record 'v node =
  nd_value :: "'v option"
  nd_match :: "nat option"
  nd_id :: int
  nd_next :: "nat option"
  nd_prev :: "nat option"

type_synonym 'v heap = "nat \<rightharpoonup> 'v node"

definition deref :: "nat option \<Rightarrow> 'v heap \<Rightarrow> 'v node option" where
  "deref p h = (case p of None \<Rightarrow> None | Some a \<Rightarrow> h a)"

definition upd_next :: "nat option \<Rightarrow> nat option \<Rightarrow> 'v heap \<Rightarrow> 'v heap option" where
  "upd_next p v h =
     (case p of None \<Rightarrow> None
      | Some a \<Rightarrow> (case h a of None \<Rightarrow> None | Some n \<Rightarrow> Some (h(a \<mapsto> n\<lparr>nd_next := v\<rparr>))))"

definition upd_prev :: "nat option \<Rightarrow> nat option \<Rightarrow> 'v heap \<Rightarrow> 'v heap option" where
  "upd_prev p v h =
     (case p of None \<Rightarrow> None
      | Some a \<Rightarrow> (case h a of None \<Rightarrow> None | Some n \<Rightarrow> Some (h(a \<mapsto> n\<lparr>nd_prev := v\<rparr>))))"

definition insertBefore :: "nat \<Rightarrow> nat option \<Rightarrow> 'v heap \<Rightarrow> 'v heap option" where
  "insertBefore n mark h =
     (if mark \<noteq> None then do {
        mk \<leftarrow> deref mark h;
        let beforeMark = nd_prev mk;
        h \<leftarrow> upd_prev mark (Some n) h;
        h \<leftarrow> upd_next (Some n) mark h;
        (if beforeMark \<noteq> None then do {
           h \<leftarrow> upd_prev (Some n) beforeMark h;
           upd_next beforeMark (Some n) h
         } else Some h)
      } else Some h)"

partial_function (option) node_length_from :: "nat option \<Rightarrow> 'v heap \<Rightarrow> nat \<Rightarrow> nat option" where
  "node_length_from n h l =
     (case n of None \<Rightarrow> Some l
      | Some a \<Rightarrow> (case h a of None \<Rightarrow> None | Some nd \<Rightarrow> node_length_from (nd_next nd) h (l + 1)))"

definition node_length :: "nat option \<Rightarrow> 'v heap \<Rightarrow> nat option" where
  "node_length n h = node_length_from n h 0"

fun link_loop ::
  "'v entry list \<Rightarrow> (int \<rightharpoonup> nat) \<Rightarrow> nat option \<Rightarrow> nat \<Rightarrow> 'v heap \<Rightarrow> (nat option \<times> 'v heap) option" where
  "link_loop [] match root a h = Some (root, h)"
| "link_loop (elem # es) match root a h =
     (if ent_kind elem = returnEntry then do {
        let h = h(a \<mapsto> \<lparr>nd_value = Some (ent_value elem), nd_match = None, nd_id = ent_id elem, nd_next = None, nd_prev = None\<rparr>);
        let match = match(ent_id elem \<mapsto> a);
        h \<leftarrow> insertBefore a root h;
        link_loop es match (Some a) (Suc a) h
      } else do {
        let h = h(a \<mapsto> \<lparr>nd_value = Some (ent_value elem), nd_match = match (ent_id elem), nd_id = ent_id elem, nd_next = None, nd_prev = None\<rparr>);
        h \<leftarrow> insertBefore a root h;
        link_loop es match (Some a) (Suc a) h
      })"

definition makeLinkedEntries :: "'v entry list \<Rightarrow> (nat option \<times> 'v heap) option" where
  "makeLinkedEntries entries = link_loop (rev entries) Map.empty None 0 Map.empty"

definition lift :: "nat \<Rightarrow> 'v heap \<Rightarrow> 'v heap option" where
  "lift entry h = do {
     e \<leftarrow> h entry;
     h \<leftarrow> upd_next (nd_prev e) (nd_next e) h;
     e \<leftarrow> h entry;
     h \<leftarrow> upd_prev (nd_next e) (nd_prev e) h;
     e \<leftarrow> h entry;
     let match = nd_match e;
     m \<leftarrow> deref match h;
     h \<leftarrow> upd_next (nd_prev m) (nd_next m) h;
     m \<leftarrow> deref match h;
     (if nd_next m \<noteq> None then upd_prev (nd_next m) (nd_prev m) h else Some h)
   }"

definition unlift :: "nat \<Rightarrow> 'v heap \<Rightarrow> 'v heap option" where
  "unlift entry h = do {
     e \<leftarrow> h entry;
     let match = nd_match e;
     m \<leftarrow> deref match h;
     h \<leftarrow> upd_next (nd_prev m) match h;
     m \<leftarrow> deref match h;
     h \<leftarrow> (if nd_next m \<noteq> None then upd_prev (nd_next m) match h else Some h);
     e \<leftarrow> h entry;
     h \<leftarrow> upd_next (nd_prev e) (Some entry) h;
     e \<leftarrow> h entry;
     upd_prev (nd_next e) (Some entry) h
   }"

section \<open>Doubly linked segments\<close>

definition first_ptr :: "nat list \<Rightarrow> nat option \<Rightarrow> nat option" where
  "first_ptr xs q = (case xs of [] \<Rightarrow> q | x # _ \<Rightarrow> Some x)"

definition last_ptr :: "nat option \<Rightarrow> nat list \<Rightarrow> nat option" where
  "last_ptr p xs = (if xs = [] then p else Some (last xs))"

fun dl :: "'v heap \<Rightarrow> nat option \<Rightarrow> nat list \<Rightarrow> nat option \<Rightarrow> bool" where
  "dl h p [] q = True"
| "dl h p (x # xs) q =
     (\<exists>n. h x = Some n \<and> nd_prev n = p \<and> nd_next n = first_ptr xs q \<and> dl h (Some x) xs q)"

lemma first_ptr_simps [simp]:
  "first_ptr [] q = q" "first_ptr (x # xs) q = Some x"
  "first_ptr (xs @ ys) q = first_ptr xs (first_ptr ys q)"
  by (auto simp: first_ptr_def split: list.splits)

lemma last_ptr_simps [simp]:
  "last_ptr p [] = p" "last_ptr p (x # xs) = last_ptr (Some x) xs"
  "last_ptr p (xs @ ys) = last_ptr (last_ptr p xs) ys"
  by (auto simp: last_ptr_def)

lemma dl_append: "dl h p (xs @ ys) q \<longleftrightarrow> dl h p xs (first_ptr ys q) \<and> dl h (last_ptr p xs) ys q"
  by (induction xs arbitrary: p) auto

lemma dl_frame: "(\<And>x. x \<in> set xs \<Longrightarrow> h' x = h x) \<Longrightarrow> dl h' p xs q = dl h p xs q"
  by (induction xs arbitrary: p) auto

lemma dl_upd [simp]: "x \<notin> set xs \<Longrightarrow> dl (h(x \<mapsto> n)) p xs q = dl h p xs q"
  by (rule dl_frame) auto

lemma dl_snoc_next:
  assumes "dl h p (us @ [z]) q" and "z \<notin> set us" and "h z = Some n"
  shows "dl (h(z \<mapsto> n\<lparr>nd_next := q'\<rparr>)) p (us @ [z]) q'"
  using assms by (auto simp: dl_append)

lemma dl_Cons_prev:
  assumes "dl h p (y # ws) q" and "y \<notin> set ws" and "h y = Some n"
  shows "dl (h(y \<mapsto> n\<lparr>nd_prev := p'\<rparr>)) p' (y # ws) q"
  using assms by auto

lemma dl_nodes: "dl h p xs q \<Longrightarrow> x \<in> set xs \<Longrightarrow> \<exists>n. h x = Some n"
  by (induction xs arbitrary: p) auto

lemma dl_middle:
  assumes "dl h p (us @ [z] @ x # vs) q"
  shows "\<exists>n. h x = Some n \<and> nd_prev n = Some z \<and> nd_next n = first_ptr vs q"
  using assms by (auto simp: dl_append)

section \<open>Unlinking and relinking one node\<close>

definition unlink :: "nat \<Rightarrow> 'v heap \<Rightarrow> 'v heap option" where
  "unlink x h = do {
     n \<leftarrow> h x;
     h \<leftarrow> upd_next (nd_prev n) (nd_next n) h;
     n \<leftarrow> h x;
     (if nd_next n \<noteq> None then upd_prev (nd_next n) (nd_prev n) h else Some h)
   }"

definition relink :: "nat \<Rightarrow> 'v heap \<Rightarrow> 'v heap option" where
  "relink x h = do {
     n \<leftarrow> h x;
     h \<leftarrow> upd_next (nd_prev n) (Some x) h;
     n \<leftarrow> h x;
     (if nd_next n \<noteq> None then upd_prev (nd_next n) (Some x) h else Some h)
   }"

text \<open>The content of a node that no list operation changes.\<close>

definition static :: "'v heap \<Rightarrow> nat \<Rightarrow> ('v option \<times> nat option \<times> int) option" where
  "static h a = map_option (\<lambda>n. (nd_value n, nd_match n, nd_id n)) (h a)"

lemma static_upd [simp]:
  "h a = Some n \<Longrightarrow> static (h(a \<mapsto> n\<lparr>nd_next := v\<rparr>)) = static h"
  "h a = Some n \<Longrightarrow> static (h(a \<mapsto> n\<lparr>nd_prev := v\<rparr>)) = static h"
  by (auto simp: static_def fun_eq_iff)

lemma node_upd_same [simp]:
  "nd_next n = v \<Longrightarrow> n\<lparr>nd_next := v\<rparr> = n" "nd_prev n = v \<Longrightarrow> n\<lparr>nd_prev := v\<rparr> = n"
  by auto

lemma unlink_relink:
  assumes "dl h None (us @ [z] @ x # vs) None" and "distinct (us @ [z] @ x # vs)"
  shows "\<exists>h'. unlink x h = Some h' \<and> dl h' None (us @ [z] @ vs) None \<and> h' x = h x
      \<and> static h' = static h \<and> relink x h' = Some h"
proof -
  from dl_middle [OF assms(1)] obtain nx where nx: "h x = Some nx" "nd_prev nx = Some z" "nd_next nx = first_ptr vs None"
    by blast
  from assms(1) obtain nz where nz: "h z = Some nz" "nd_next nz = Some x" by (auto simp: dl_append)
  define h1 where "h1 = h(z \<mapsto> nz\<lparr>nd_next := first_ptr vs None\<rparr>)"
  have zx: "z \<noteq> x" using assms(2) by auto
  have dl1: "dl h1 None (us @ [z]) (first_ptr vs None)" "dl h1 (Some x) vs None"
    unfolding h1_def using assms nz
    by (auto simp: dl_append intro!: dl_snoc_next [of h None us z "Some x" nz, simplified])
  have un: "unlink x h = (if first_ptr vs None \<noteq> None then upd_prev (first_ptr vs None) (Some z) h1 else Some h1)"
    using nx nz zx by (simp add: unlink_def upd_next_def h1_def)
  show ?thesis
  proof (cases vs)
    case Nil
    have "relink x h1 = Some h"
      using Nil nx nz zx by (auto simp: relink_def upd_next_def h1_def fun_eq_iff)
    with Nil un dl1 nx nz zx show ?thesis by (auto simp: h1_def)
  next
    case (Cons y ws)
    then obtain ny where ny: "h1 y = Some ny" "nd_prev ny = Some x" using dl1(2) by auto
    define h2 where "h2 = h1(y \<mapsto> ny\<lparr>nd_prev := Some z\<rparr>)"
    have ne: "y \<noteq> z" "y \<noteq> x" "y \<notin> set us" "y \<notin> set ws" using assms(2) Cons by auto
    have hy: "h y = Some ny" using ny(1) ne by (simp add: h1_def)
    have "unlink x h = Some h2" using un Cons ny by (simp add: upd_prev_def h2_def)
    moreover have "dl h2 None (us @ [z] @ vs) None"
      using dl1 ny(1) ne Cons by (auto simp: h2_def dl_append)
    moreover have "static h2 = static h"
      using ny(1) nz(1) by (simp add: h2_def h1_def)
    moreover have "relink x h2 = Some h"
      using Cons nx nz zx ne hy ny(2) by (auto simp: relink_def upd_next_def upd_prev_def h1_def h2_def fun_eq_iff)
    moreover have "h2 x = h x" using zx ne by (simp add: h2_def h1_def)
    ultimately show ?thesis by blast
  qed
qed

section \<open>Lifting a call and its return\<close>

lemma static_SomeD: "static h a = Some (v, m, i) \<Longrightarrow> \<exists>n. h a = Some n \<and> nd_value n = v \<and> nd_match n = m \<and> nd_id n = i"
  by (auto simp: static_def)

lemma lift_unlink:
  assumes "h a = Some n" and "nd_next n = Some y" and "nd_prev n = Some z" and "z \<noteq> a" and "y \<noteq> a"
    and "nd_match n = Some b"
  shows "lift a h = Option.bind (unlink a h) (unlink b)"
  using assms
  by (cases "h z") (auto simp: lift_def unlink_def upd_next_def upd_prev_def deref_def split: option.splits)

lemma unlift_relink:
  assumes "h2 a = Some n2" and "nd_match n2 = Some b" and "relink b h2 = Some h1"
    and "h1 a = Some n" and "nd_next n = Some y" and "nd_prev n = Some z" and "z \<noteq> a"
  shows "unlift a h2 = relink a h1"
proof -
  have "unlift a h2 = do {
      h1 \<leftarrow> relink b h2;
      e \<leftarrow> h1 a;
      h \<leftarrow> upd_next (nd_prev e) (Some a) h1;
      e \<leftarrow> h a;
      upd_prev (nd_next e) (Some a) h}"
    using assms(1,2) by (simp add: unlift_def relink_def deref_def Let_def cong: if_cong)
  also have "\<dots> = relink a h1"
    using assms(3-7) by (simp add: relink_def upd_next_def split: option.splits)
  finally show ?thesis .
qed

lemma lift_unlift:
  assumes list: "dl h None (us @ [z] @ a # vs @ b # ws) None" and d: "distinct (us @ [z] @ a # vs @ b # ws)"
    and match: "static h a = Some (v, Some b, i)"
  shows "\<exists>h'. lift a h = Some h' \<and> dl h' None (us @ [z] @ vs @ ws) None
      \<and> static h' = static h \<and> unlift a h' = Some h"
proof -
  obtain y where y: "first_ptr (vs @ b # ws) None = Some y" "y \<in> set (vs @ b # ws)"
    by (cases vs) auto
  from dl_middle [OF list] y(1) match obtain n where n: "h a = Some n" "nd_prev n = Some z" "nd_next n = Some y"
    "nd_match n = Some b" by (auto dest: static_SomeD)
  have ne: "z \<noteq> a" "y \<noteq> a" using d y(2) by auto
  from unlink_relink [OF list d] obtain h1 where h1: "unlink a h = Some h1" "h1 a = h a"
    "dl h1 None (us @ [z] @ vs @ b # ws) None" "static h1 = static h" "relink a h1 = Some h" by blast
  obtain us' z' where split: "us @ [z] @ vs = us' @ [z']"
    by (metis append_is_Nil_conv rev_exhaust not_Cons_self2)
  then have rest: "us @ [z] @ vs @ tl = us' @ [z'] @ tl" for tl by (metis append.assoc)
  have d': "distinct (us @ [z] @ vs @ b # ws)" using d by auto
  have "dl h1 None (us' @ [z'] @ b # ws) None" and "distinct (us' @ [z'] @ b # ws)"
    using h1(3) d' by (simp_all only: rest)
  from unlink_relink [OF this] obtain h2 where h2: "unlink b h1 = Some h2"
    "dl h2 None (us' @ [z'] @ ws) None" "static h2 = static h1" "relink b h2 = Some h1" by blast
  have "lift a h = Some h2"
    using lift_unlink [of h a n y z b] n ne h1(1) h2(1) by simp
  moreover have "dl h2 None (us @ [z] @ vs @ ws) None" using h2(2) by (simp only: rest)
  moreover have "unlift a h2 = Some h"
  proof -
    from h2(3) h1(4) match obtain n2 where "h2 a = Some n2" "nd_match n2 = Some b"
      by (metis static_SomeD)
    with unlift_relink [of h2 a n2 b h1 n y z] h2(4) n ne(1) h1 show ?thesis by simp
  qed
  ultimately show ?thesis using h2(3) h1(4) by auto
qed

section \<open>The list built from the entries\<close>

text \<open>
  \<open>makeLinkedEntries\<close> runs from the last entry to the first, so the entry that \<open>k\<close> entries
  follow gets address \<open>k\<close>: \<open>pairs\<close> lists the entries with their addresses.
\<close>

fun pairs :: "'v entry list \<Rightarrow> (nat \<times> 'v entry) list" where
  "pairs [] = []"
| "pairs (e # es) = (length es, e) # pairs es"

fun ret_addr :: "'v entry list \<Rightarrow> int \<Rightarrow> nat option" where
  "ret_addr [] i = None"
| "ret_addr (e # es) i = (if ent_kind e = returnEntry \<and> ent_id e = i then Some (length es) else ret_addr es i)"

fun nodes_ok :: "(nat \<Rightarrow> ('v option \<times> nat option \<times> int) option) \<Rightarrow> 'v entry list \<Rightarrow> bool" where
  "nodes_ok st [] = True"
| "nodes_ok st (e # es) = (st (length es) =
      Some (Some (ent_value e), if ent_kind e = callEntry then ret_addr es (ent_id e) else None, ent_id e)
    \<and> nodes_ok st es)"

lemma pairs_fst [simp]: "map fst (pairs es) = rev [0..<length es]"
  by (induction es) auto

lemma pairs_snd [simp]: "map snd (pairs es) = es"
  by (induction es) auto

lemma pairs_mem: "(a, e) \<in> set (pairs es) \<longleftrightarrow> (\<exists>us ts. es = us @ e # ts \<and> a = length ts)"
  by (induction es) (auto simp: Cons_eq_append_conv)

lemma pairs_memD: "(a, e) \<in> set (pairs es) \<Longrightarrow> e \<in> set es"
  by (auto simp: pairs_mem)

lemma pairs_distinct: "distinct (map fst (pairs es))"
  by simp

lemma nodes_ok_cong: "(\<And>a. a < length es \<Longrightarrow> st a = st' a) \<Longrightarrow> nodes_ok st es = nodes_ok st' es"
  by (induction es) auto

lemma nodes_ok_suffix: "nodes_ok st (us @ es) \<Longrightarrow> nodes_ok st es"
  by (induction us) auto

lemma ret_addr_pairs:
  "distinct (map key es) \<Longrightarrow> (b, r) \<in> set (pairs es) \<Longrightarrow> key r = (returnEntry, i) \<Longrightarrow> ret_addr es i = Some b"
proof (induction es)
  case Nil
  then show ?case by simp
next
  case (Cons e es)
  show ?case
  proof (cases "(b, r) = (length es, e)")
    case True
    with Cons show ?thesis by auto
  next
    case False
    with Cons.prems have mem: "(b, r) \<in> set (pairs es)" by auto
    then have "r \<in> set es" by (auto simp: pairs_mem)
    then have "key r \<in> key ` set es" by (rule imageI)
    with Cons.prems(1,3) have "key e \<noteq> (returnEntry, i)" by auto
    with Cons mem show ?thesis by auto
  qed
qed

lemma static_insert: "static (h(a \<mapsto> n)) = (static h)(a \<mapsto> (nd_value n, nd_match n, nd_id n))"
  by (auto simp: static_def fun_eq_iff)

lemma insertBefore_front:
  assumes "dl h None xs None" and "a \<notin> set xs" and "distinct xs" and "h a = Some n"
    and "nd_next n = None" and "nd_prev n = None"
  shows "\<exists>h'. insertBefore a (first_ptr xs None) h = Some h' \<and> dl h' None (a # xs) None \<and> static h' = static h"
proof (cases xs)
  case Nil
  with assms show ?thesis by (simp add: insertBefore_def)
next
  case (Cons x ys)
  with assms(1) obtain nx where nx: "h x = Some nx" "nd_prev nx = None" by auto
  have ne: "x \<noteq> a" "x \<notin> set ys" "a \<notin> set ys" using assms(2,3) Cons by auto
  let ?h = "(h(x \<mapsto> nx\<lparr>nd_prev := Some a\<rparr>))(a \<mapsto> n\<lparr>nd_next := Some x\<rparr>)"
  have "insertBefore a (first_ptr xs None) h = Some ?h"
    using Cons nx ne assms(4) by (simp add: insertBefore_def deref_def upd_prev_def upd_next_def)
  moreover have "dl ?h None (a # xs) None"
    using assms Cons nx ne by (auto simp: fun_upd_twist)
  moreover have "static ?h = static h"
    using nx(1) assms(4) ne by (auto simp: static_def fun_eq_iff)
  ultimately show ?thesis by blast
qed

lemma link_loop_correct:
  assumes "dl h None (rev [0..<length ts]) None" and "nodes_ok (static h) ts" and "\<And>i. match i = ret_addr ts i"
  shows "\<exists>h'. link_loop us match (first_ptr (rev [0..<length ts]) None) (length ts) h
        = Some (first_ptr (rev [0..<length (rev us @ ts)]) None, h')
      \<and> dl h' None (rev [0..<length (rev us @ ts)]) None \<and> nodes_ok (static h') (rev us @ ts)"
  using assms
proof (induction us arbitrary: ts match h)
  case Nil
  then show ?case by simp
next
  case (Cons e us)
  let ?n = "\<lparr>nd_value = Some (ent_value e), nd_match = (if ent_kind e = callEntry then ret_addr ts (ent_id e) else None),
      nd_id = ent_id e, nd_next = None, nd_prev = None\<rparr>"
  let ?h = "h(length ts \<mapsto> ?n)"
  have "dl ?h None (rev [0..<length ts]) None" using Cons.prems(1) by simp
  then obtain h1 where h1: "insertBefore (length ts) (first_ptr (rev [0..<length ts]) None) ?h = Some h1"
    "dl h1 None (length ts # rev [0..<length ts]) None" "static h1 = static ?h"
    using insertBefore_front [of ?h "rev [0..<length ts]" "length ts" ?n] by auto
  have ok: "nodes_ok (static h1) (e # ts)"
    using h1(3) Cons.prems(2) nodes_ok_cong [of ts "static ?h" "static h"] by (simp add: static_insert)
  let ?m = "if ent_kind e = returnEntry then match(ent_id e \<mapsto> length ts) else match"
  have m: "\<And>i. ?m i = ret_addr (e # ts) i" using Cons.prems(3) by auto
  have dl1: "dl h1 None (rev [0..<length (e # ts)]) None" using h1(2) by simp
  from Cons.IH [OF dl1 ok m] obtain h' where
    h': "link_loop us ?m (first_ptr (rev [0..<length (e # ts)]) None) (length (e # ts)) h1
        = Some (first_ptr (rev [0..<length (rev us @ e # ts)]) None, h')"
    "dl h' None (rev [0..<length (rev us @ e # ts)]) None" "nodes_ok (static h') (rev us @ e # ts)" by blast
  have "link_loop (e # us) match (first_ptr (rev [0..<length ts]) None) (length ts) h
      = link_loop us ?m (Some (length ts)) (Suc (length ts)) h1"
    using h1(1) Cons.prems(3) by (cases "ent_kind e") (simp_all add: Let_def)
  with h' show ?case by simp
qed

lemma makeLinkedEntries_correct:
  "\<exists>h. makeLinkedEntries es = Some (first_ptr (map fst (pairs es)) None, h)
     \<and> dl h None (map fst (pairs es)) None \<and> nodes_ok (static h) es"
  using link_loop_correct [of Map.empty "[]" Map.empty "rev es"] by (simp add: makeLinkedEntries_def)

lemma node_length_dl: "dl h p xs None \<Longrightarrow> node_length_from (first_ptr xs None) h l = Some (l + length xs)"
  by (induction xs arbitrary: p l) (auto simp: node_length_from.simps)

lemma node_length_makeLinked:
  "dl h None (map fst (pairs es)) None \<Longrightarrow> node_length (first_ptr (map fst (pairs es)) None) h = Some (length es)"
  using node_length_dl [of h None "map fst (pairs es)" 0] by (simp add: node_length_def)

end
