(* ===== verification/Porcupine_Search.thy ===== *)
theory Porcupine_Search
  imports Porcupine_Model
begin

text \<open>
  The search of \<open>checkSingle\<close> without its data structures: the reference definition that the
  pointer and bit set version of \<open>Porcupine_Checker\<close> implements. A configuration is the set of
  linearized operations and the state of the model; \<open>k_rest\<close> is the part of the remaining
  entries the search has still to try, and \<open>k_cache\<close> the configurations it has visited.

  \<open>seq_model\<close> is what the checker asks of a sequential model. Under it, the search always stops
  (\<open>search_terminates\<close>) and answers true exactly when the history is linearizable
  (\<open>search_correct\<close>).
\<close>

section \<open>The reference search\<close>

definition rem_entries :: "'v entry list \<Rightarrow> int set \<Rightarrow> 'v entry list" where
  "rem_entries es L = filter (\<lambda>e. ent_id e \<notin> L) es"

record ('s, 'v) srch =
  k_calls :: "(int \<times> 's) list"
  k_state :: 's
  k_rest :: "'v entry list"
  k_cache :: "(int set \<times> 's) set"

abbreviation lin_ids :: "('s, 'v) srch \<Rightarrow> int set" where
  "lin_ids k \<equiv> fst ` set (k_calls k)"

definition after_op :: "int \<Rightarrow> 'v entry list \<Rightarrow> 'v entry list" where
  "after_op i es = tl (dropWhile (\<lambda>e. ent_id e \<noteq> i) es)"

definition srch_init :: "'s \<Rightarrow> 'v entry list \<Rightarrow> ('s, 'v) srch" where
  "srch_init s es = \<lparr>k_calls = [], k_state = s, k_rest = es, k_cache = {}\<rparr>"

definition srch_visited :: "('s \<Rightarrow> 's \<Rightarrow> bool) \<Rightarrow> (int set \<times> 's) set \<Rightarrow> int set \<Rightarrow> 's \<Rightarrow> bool" where
  "srch_visited eqs cache L s \<longleftrightarrow> (\<exists>t. (L, t) \<in> cache \<and> eqs s t)"

definition srch_push :: "'v entry list \<Rightarrow> int \<Rightarrow> 's \<Rightarrow> ('s, 'v) srch \<Rightarrow> ('s, 'v) srch" where
  "srch_push es i s' k =
     k\<lparr>k_calls := k_calls k @ [(i, k_state k)], k_state := s',
       k_rest := rem_entries es (insert i (lin_ids k)),
       k_cache := insert (insert i (lin_ids k), s') (k_cache k)\<rparr>"

definition srch_pop :: "'v entry list \<Rightarrow> ('s, 'v) srch \<Rightarrow> ('s, 'v) srch" where
  "srch_pop es k =
     (let (i, s) = last (k_calls k); cs = butlast (k_calls k)
      in k\<lparr>k_calls := cs, k_state := s, k_rest := after_op i (rem_entries es (fst ` set cs))\<rparr>)"

definition srch_step ::
  "('s \<Rightarrow> 'v \<Rightarrow> 'v \<Rightarrow> (bool \<times> 's) option) \<Rightarrow> ('s \<Rightarrow> 's \<Rightarrow> bool) \<Rightarrow> 'v entry list
     \<Rightarrow> ('s, 'v) srch \<Rightarrow> (('s, 'v) srch + bool) option" where
  "srch_step step eqs es k =
     (if rem_entries es (lin_ids k) = [] then Some (Inr True)
      else case k_rest k of
        [] \<Rightarrow> None
      | e # r \<Rightarrow>
         (if ent_kind e = callEntry
          then (case step (k_state k) (fst (io_at es (ent_id e))) (snd (io_at es (ent_id e))) of
              None \<Rightarrow> None
            | Some (ok, s') \<Rightarrow>
                if ok \<and> \<not> srch_visited eqs (k_cache k) (insert (ent_id e) (lin_ids k)) s'
                then Some (Inl (srch_push es (ent_id e) s' k))
                else Some (Inl (k\<lparr>k_rest := r\<rparr>)))
          else if k_calls k = [] then Some (Inr False)
          else Some (Inl (srch_pop es k))))"

section \<open>Completing a configuration\<close>

text \<open>
  \<open>completable es L s\<close>: the operations outside \<open>L\<close> can be linearized from state \<open>s\<close>, each time
  choosing one whose call stands before every remaining return.
\<close>

definition candidates :: "'v entry list \<Rightarrow> int set \<Rightarrow> 'v entry list" where
  "candidates es L = takeWhile (\<lambda>e. ent_kind e = callEntry) (rem_entries es L)"

inductive completable ::
  "('s \<Rightarrow> 'v \<Rightarrow> 'v \<Rightarrow> (bool \<times> 's) option) \<Rightarrow> 'v entry list \<Rightarrow> int set \<Rightarrow> 's \<Rightarrow> bool"
  for step es where
  complete: "rem_entries es L = [] \<Longrightarrow> completable step es L s"
| extend: "e \<in> set (candidates es L) \<Longrightarrow>
     step s (fst (io_at es (ent_id e))) (snd (io_at es (ent_id e))) = Some (True, s') \<Longrightarrow>
     completable step es (insert (ent_id e) L) s' \<Longrightarrow> completable step es L s"

inductive_cases completableE: "completable step es L s"

lemma rem_mem: "e \<in> set (rem_entries es L) \<longleftrightarrow> e \<in> set es \<and> ent_id e \<notin> L"
  by (auto simp: rem_entries_def)

lemma rem_empty [simp]: "rem_entries es {} = es"
  by (simp add: rem_entries_def)

lemma rem_distinct: "wf_history es n \<Longrightarrow> distinct (rem_entries es L)"
  using wf_distinct [of es n] by (simp add: rem_entries_def)

lemma rem_Nil_iff:
  assumes "wf_history es n"
  shows "rem_entries es L = [] \<longleftrightarrow> {0..<int n} \<subseteq> L"
proof
  assume nil: "rem_entries es L = []"
  show "{0..<int n} \<subseteq> L"
  proof
    fix i assume "i \<in> {0..<int n}"
    then obtain e where "e \<in> set es" "key e = (callEntry, i)"
      using wf_entry_ex [OF assms, of i callEntry] by auto
    with nil show "i \<in> L" by (auto simp: rem_entries_def filter_empty_conv)
  qed
next
  assume "{0..<int n} \<subseteq> L"
  with wf_id_range [OF assms] show "rem_entries es L = []"
    by (auto simp: rem_entries_def filter_empty_conv)
qed

lemma candidates_split: "e \<in> set (candidates es L) \<longleftrightarrow>
   (\<exists>us vs. rem_entries es L = us @ e # vs \<and> (\<forall>x\<in>set us. ent_kind x = callEntry) \<and> ent_kind e = callEntry)"
proof
  assume e: "e \<in> set (candidates es L)"
  then obtain us ws where "candidates es L = us @ e # ws" by (meson split_list)
  moreover have "rem_entries es L = candidates es L @ dropWhile (\<lambda>e. ent_kind e = callEntry) (rem_entries es L)"
    by (simp add: candidates_def)
  moreover have "\<forall>x\<in>set (candidates es L). ent_kind x = callEntry"
    by (auto simp: candidates_def dest: set_takeWhileD)
  ultimately show "\<exists>us vs. rem_entries es L = us @ e # vs \<and> (\<forall>x\<in>set us. ent_kind x = callEntry) \<and> ent_kind e = callEntry"
    using e by (metis Un_iff append.assoc append_Cons set_append)
qed (auto simp: candidates_def takeWhile_append2)

lemma candidates_prefix:
  assumes "rem_entries es L = us @ r # vs" and "\<forall>x\<in>set us. ent_kind x = callEntry" and "ent_kind r = returnEntry"
  shows "candidates es L = us"
  using assms by (simp add: candidates_def takeWhile_append2)

text \<open>In what remains, a call is followed by its return.\<close>

lemma rem_return_after:
  assumes wf: "wf_history es n" and eq: "rem_entries es L = us @ c # vs" and "ent_kind c = callEntry"
  shows "\<exists>r\<in>set vs. key r = (returnEntry, ent_id c)"
proof -
  from eq have c: "c \<in> set es" "ent_id c \<notin> L" using rem_mem [of c es L] by auto
  from wf_return_after [OF wf c(1) assms(3)]
  obtain r where r: "key r = (returnEntry, ent_id c)" "subseq [c, r] es" by blast
  have "subseq [c, r] (rem_entries es L)"
    unfolding rem_entries_def using r c by (intro subseq_pair_filter) auto
  with eq rem_distinct [OF wf, of L] have "r \<in> set vs" by (simp add: subseq_pair_after)
  with r show ?thesis by blast
qed

lemma rem_has_return:
  assumes wf: "wf_history es n" and eq: "rem_entries es L = us @ vs" and "vs \<noteq> []" 
    and "\<forall>x\<in>set us. ent_kind x = callEntry"
  shows "\<exists>r\<in>set vs. ent_kind r = returnEntry"
proof (cases "ent_kind (hd vs) = callEntry")
  case True
  with eq assms(3) rem_return_after [OF wf, of L us "hd vs" "tl vs"] show ?thesis
    by (cases vs) auto
next
  case False
  with assms(3) show ?thesis by (metis entryKind.exhaust hd_in_set)
qed

text \<open>The first call with a given identifier, among remaining entries.\<close>

lemma after_op_split:
  assumes wf: "wf_history es n" and eq: "rem_entries es L = us @ c # vs" and "ent_kind c = callEntry"
    and "\<forall>x\<in>set us. ent_kind x = callEntry"
  shows "after_op (ent_id c) (rem_entries es L) = vs"
proof -
  have "ent_id x \<noteq> ent_id c" if "x \<in> set us" for x
  proof
    assume "ent_id x = ent_id c"
    moreover from eq that have "x \<in> set es" "c \<in> set es"
      using rem_mem [of x es L] rem_mem [of c es L] by auto
    ultimately have "x = c" using assms(3,4) that by (intro wf_key_inj [OF wf]) auto
    with that eq rem_distinct [OF wf, of L] show False by auto
  qed
  with eq show ?thesis by (simp add: after_op_def dropWhile_append2)
qed

section \<open>What the checker asks of a sequential model\<close>

text \<open>
  The model's step never panics on well-typed values, its state equality is reflexive, and
  states it calls equal accept the same steps and stay equal. (\<open>ShallowEqual\<close> always has the last
  two properties.)
\<close>

locale seq_model =
  fixes step :: "'s \<Rightarrow> 'v \<Rightarrow> 'v \<Rightarrow> (bool \<times> 's) option"
    and eqs :: "'s \<Rightarrow> 's \<Rightarrow> bool"
    and in_ok :: "'v \<Rightarrow> bool"
    and out_ok :: "'v \<Rightarrow> bool"
  assumes step_total: "in_ok i \<Longrightarrow> out_ok v \<Longrightarrow> step s i v \<noteq> None"
    and eqs_refl: "eqs s s"
    and eqs_step: "eqs s t \<Longrightarrow> step s i v = Some (True, s') \<Longrightarrow> \<exists>t'. step t i v = Some (True, t') \<and> eqs s' t'"
begin

lemma completable_eqs: "completable step es L s \<Longrightarrow> eqs s t \<Longrightarrow> completable step es L t"
proof (induction arbitrary: t rule: completable.induct)
  case (complete L s)
  then show ?case by (simp add: completable.complete)
next
  case (extend e L s s')
  from eqs_step [OF extend.prems extend.hyps(2)] obtain t' where
    "step t (fst (io_at es (ent_id e))) (snd (io_at es (ent_id e))) = Some (True, t')" and "eqs s' t'" by blast
  with extend show ?case by (blast intro: completable.extend)
qed

end

definition vals_ok :: "('v \<Rightarrow> bool) \<Rightarrow> ('v \<Rightarrow> bool) \<Rightarrow> 'v entry list \<Rightarrow> bool" where
  "vals_ok in_ok out_ok es \<longleftrightarrow>
     (\<forall>e\<in>set es. if ent_kind e = callEntry then in_ok (ent_value e) else out_ok (ent_value e))"

lemma vals_ok_io:
  assumes "wf_history es n" and "vals_ok in_ok out_ok es" and "0 \<le> i" and "i < int n"
  shows "in_ok (fst (io_at es i)) \<and> out_ok (snd (io_at es i))"
proof -
  from wf_entry_ex [OF assms(1,3,4), of callEntry] wf_entry_ex [OF assms(1,3,4), of returnEntry]
  obtain c r where "c \<in> set es" "key c = (callEntry, i)" "r \<in> set es" "key r = (returnEntry, i)" by auto
  with assms(2) wf_value_at [OF assms(1), of c] wf_value_at [OF assms(1), of r] show ?thesis
    by (auto simp: vals_ok_def io_at_def)
qed

section \<open>The invariant of the search\<close>

lemma run_steps_append:
  "run_steps step s (xs @ ys) = Option.bind (run_steps step s xs) (\<lambda>t. run_steps step t ys)"
  by (induction step s xs rule: run_steps.induct) (auto split: option.splits bool.splits)

lemma run_steps_Cons:
  "run_steps step s (io # ios) =
     (case step s (fst io) (snd io) of Some (True, s') \<Rightarrow> run_steps step s' ios | _ \<Rightarrow> None)"
  by (cases io) simp

definition dead_child ::
  "('s \<Rightarrow> 'v \<Rightarrow> 'v \<Rightarrow> (bool \<times> 's) option) \<Rightarrow> 'v entry list \<Rightarrow> int set \<Rightarrow> 's \<Rightarrow> 'v entry \<Rightarrow> bool" where
  "dead_child step es L s e \<longleftrightarrow>
     (\<forall>s'. step s (fst (io_at es (ent_id e))) (snd (io_at es (ent_id e))) = Some (True, s')
        \<longrightarrow> \<not> completable step es (insert (ent_id e) L) s')"

text \<open>
  \<open>stk\<close> describes the stack of calls: each was a candidate when it was pushed, every candidate
  before it is known to fail, and \<open>K\<close> collects the configurations on the stack.
\<close>

inductive stk ::
  "('s \<Rightarrow> 'v \<Rightarrow> 'v \<Rightarrow> (bool \<times> 's) option) \<Rightarrow> 'v entry list \<Rightarrow> 's
     \<Rightarrow> (int \<times> 's) list \<Rightarrow> 's \<Rightarrow> (int set \<times> 's) set \<Rightarrow> bool"
  for step es s0 where
  stk_Nil: "stk step es s0 [] s0 {}"
| stk_snoc: "stk step es s0 cs s K \<Longrightarrow> L = fst ` set cs \<Longrightarrow> rem_entries es L = us @ e # vs \<Longrightarrow>
     \<forall>x\<in>set us. ent_kind x = callEntry \<and> dead_child step es L s x \<Longrightarrow> ent_kind e = callEntry \<Longrightarrow>
     step s (fst (io_at es (ent_id e))) (snd (io_at es (ent_id e))) = Some (True, s') \<Longrightarrow>
     stk step es s0 (cs @ [(ent_id e, s)]) s' (insert (insert (ent_id e) L, s') K)"

inductive_cases stk_snocE: "stk step es s0 (cs @ [c]) s K"
inductive_cases stk_NilE: "stk step es s0 [] s K"

lemma stk_configs: "stk step es s0 cs s K \<Longrightarrow> (M, t) \<in> K \<Longrightarrow> M \<subseteq> fst ` set cs"
  by (induction rule: stk.induct) auto

lemma stk_run:
  assumes wf: "wf_history es n" and "stk step es s0 cs s K"
  shows "distinct (map fst cs) \<and> fst ` set cs \<subseteq> {0..<int n}
      \<and> run_steps step s0 (map (io_at es) (map fst cs)) = Some s"
  using assms(2)
proof (induction rule: stk.induct)
  case stk_Nil
  then show ?case by simp
next
  case (stk_snoc cs s K L us e vs s')
  have e: "e \<in> set es" "ent_id e \<notin> L"
    using stk_snoc.hyps(3) rem_mem [of e es L] by auto
  with stk_snoc wf_id_range [OF wf e(1)] show ?case
    by (auto simp: run_steps_append run_steps_Cons)
qed

lemma stk_completable: "stk step es s0 cs s K \<Longrightarrow> completable step es (fst ` set cs) s \<Longrightarrow> completable step es {} s0"
proof (induction rule: stk.induct)
  case stk_Nil
  then show ?case by simp
next
  case (stk_snoc cs s K L us e vs s')
  have "e \<in> set (candidates es L)"
    unfolding candidates_split using stk_snoc.hyps(3-5) by blast
  moreover have "completable step es (insert (ent_id e) L) s'"
    using stk_snoc.prems stk_snoc.hyps(2) by simp
  ultimately have "completable step es L s"
    using stk_snoc.hyps(6) by (blast intro: completable.extend)
  with stk_snoc show ?case by simp
qed

definition reach_configs ::
  "('s \<Rightarrow> 'v \<Rightarrow> 'v \<Rightarrow> (bool \<times> 's) option) \<Rightarrow> 'v entry list \<Rightarrow> nat \<Rightarrow> 's \<Rightarrow> (int set \<times> 's) set" where
  "reach_configs step es n s0 = (\<lambda>\<sigma>. (set \<sigma>, the (run_steps step s0 (map (io_at es) \<sigma>))))
     ` {\<sigma>. set \<sigma> \<subseteq> {0..<int n} \<and> distinct \<sigma>}"

lemma finite_reach_configs: "finite (reach_configs step es n s0)"
  unfolding reach_configs_def by (intro finite_imageI finite_subset_distinct) simp

lemma stk_reach:
  assumes "wf_history es n" and "stk step es s0 cs s K"
  shows "(fst ` set cs, s) \<in> reach_configs step es n s0"
  using stk_run [OF assms] unfolding reach_configs_def
  by (intro image_eqI [of _ _ "map fst cs"]) auto

definition srch_inv ::
  "('s \<Rightarrow> 'v \<Rightarrow> 'v \<Rightarrow> (bool \<times> 's) option) \<Rightarrow> 'v entry list \<Rightarrow> nat \<Rightarrow> 's \<Rightarrow> ('s, 'v) srch \<Rightarrow> bool" where
  "srch_inv step es n s0 k \<longleftrightarrow>
     (\<exists>K. stk step es s0 (k_calls k) (k_state k) K
        \<and> (\<exists>us. rem_entries es (lin_ids k) = us @ k_rest k
             \<and> (\<forall>x\<in>set us. ent_kind x = callEntry \<and> dead_child step es (lin_ids k) (k_state k) x))
        \<and> (\<forall>M t. (M, t) \<in> k_cache k \<longrightarrow> \<not> completable step es M t \<or> (M, t) \<in> K)
        \<and> k_cache k \<subseteq> reach_configs step es n s0)"

definition srch_rel :: "(int set \<times> 's) set \<Rightarrow> (('s, 'v) srch \<times> ('s, 'v) srch) set" where
  "srch_rel B = inv_image (less_than <*lex*> less_than <*lex*> less_than)
     (\<lambda>k. (card B - card (k_cache k), length (k_calls k), length (k_rest k)))"

lemma wf_srch_rel: "wf (srch_rel B)"
  by (auto simp: srch_rel_def)

section \<open>Every step keeps the invariant\<close>

lemma srch_inv_init: "srch_inv step es n s0 (srch_init s0 es)"
  unfolding srch_inv_def srch_init_def by (auto intro: stk_Nil)

lemma srch_inv_skip:
  assumes "srch_inv step es n s0 k" and "k_rest k = e # r" and "ent_kind e = callEntry"
    and "dead_child step es (lin_ids k) (k_state k) e"
  shows "srch_inv step es n s0 (k\<lparr>k_rest := r\<rparr>)"
proof -
  from assms(1) obtain K us where K: "stk step es s0 (k_calls k) (k_state k) K"
    "rem_entries es (lin_ids k) = us @ k_rest k"
    "\<forall>x\<in>set us. ent_kind x = callEntry \<and> dead_child step es (lin_ids k) (k_state k) x"
    "\<forall>M t. (M, t) \<in> k_cache k \<longrightarrow> \<not> completable step es M t \<or> (M, t) \<in> K"
    "k_cache k \<subseteq> reach_configs step es n s0"
    unfolding srch_inv_def by blast
  have "rem_entries es (lin_ids k) = (us @ [e]) @ r" using K(2) assms(2) by simp
  moreover have "\<forall>x\<in>set (us @ [e]). ent_kind x = callEntry \<and> dead_child step es (lin_ids k) (k_state k) x"
    using K(3) assms(3,4) by auto
  ultimately show ?thesis using K(1,4,5) unfolding srch_inv_def by auto
qed

lemma srch_inv_push:
  assumes wf: "wf_history es n" and inv: "srch_inv step es n s0 k" and rest: "k_rest k = e # r"
    and call: "ent_kind e = callEntry"
    and step: "step (k_state k) (fst (io_at es (ent_id e))) (snd (io_at es (ent_id e))) = Some (True, s')"
  shows "srch_inv step es n s0 (srch_push es (ent_id e) s' k)"
proof -
  let ?L = "lin_ids k" and ?k = "srch_push es (ent_id e) s' k"
  from inv obtain K us where K: "stk step es s0 (k_calls k) (k_state k) K"
    "rem_entries es ?L = us @ e # r"
    "\<forall>x\<in>set us. ent_kind x = callEntry \<and> dead_child step es ?L (k_state k) x"
    "\<forall>M t. (M, t) \<in> k_cache k \<longrightarrow> \<not> completable step es M t \<or> (M, t) \<in> K"
    "k_cache k \<subseteq> reach_configs step es n s0"
    unfolding srch_inv_def using rest by auto
  have new: "stk step es s0 (k_calls ?k) (k_state ?k) (insert (insert (ent_id e) ?L, s') K)"
    using stk_snoc [OF K(1) refl K(2,3) call step] by (simp add: srch_push_def)
  from stk_reach [OF wf new] have "k_cache ?k \<subseteq> reach_configs step es n s0"
    using K(5) by (simp add: srch_push_def)
  with new K(4) show ?thesis
    unfolding srch_inv_def by (intro exI [of _ "insert (insert (ent_id e) ?L, s') K"]) (auto simp: srch_push_def)
qed

lemma srch_stuck_dead:
  assumes inv: "srch_inv step es n s0 k" and rest: "k_rest k = e # r" and ret: "ent_kind e = returnEntry"
  shows "\<not> completable step es (lin_ids k) (k_state k)"
proof
  assume c: "completable step es (lin_ids k) (k_state k)"
  from inv rest obtain us where us: "rem_entries es (lin_ids k) = us @ e # r"
    "\<forall>x\<in>set us. ent_kind x = callEntry \<and> dead_child step es (lin_ids k) (k_state k) x"
    unfolding srch_inv_def by auto
  with ret have cand: "candidates es (lin_ids k) = us" by (intro candidates_prefix) auto
  from c show False
    by (rule completableE) (use us cand in \<open>auto simp: dead_child_def\<close>)
qed

lemma srch_inv_pop:
  assumes wf: "wf_history es n" and inv: "srch_inv step es n s0 k" and rest: "k_rest k = e # r"
    and ret: "ent_kind e = returnEntry" and calls: "k_calls k \<noteq> []"
  shows "srch_inv step es n s0 (srch_pop es k)"
proof -
  from inv obtain K where K: "stk step es s0 (k_calls k) (k_state k) K"
    "\<forall>M t. (M, t) \<in> k_cache k \<longrightarrow> \<not> completable step es M t \<or> (M, t) \<in> K"
    "k_cache k \<subseteq> reach_configs step es n s0"
    unfolding srch_inv_def by blast
  have dead: "\<not> completable step es (lin_ids k) (k_state k)"
    by (rule srch_stuck_dead [OF inv rest ret])
  obtain cs c where cs: "k_calls k = cs @ [c]" using calls by (metis append_butlast_last_id)
  from K(1) [unfolded cs] obtain K0 s us d vs where p: "stk step es s0 cs s K0"
    "rem_entries es (fst ` set cs) = us @ d # vs"
    "\<forall>x\<in>set us. ent_kind x = callEntry \<and> dead_child step es (fst ` set cs) s x"
    "ent_kind d = callEntry"
    "step s (fst (io_at es (ent_id d))) (snd (io_at es (ent_id d))) = Some (True, k_state k)"
    "c = (ent_id d, s)" "K = insert (insert (ent_id d) (fst ` set cs), k_state k) K0"
    by (elim stk_snocE) auto
  have after: "after_op (ent_id d) (rem_entries es (fst ` set cs)) = vs"
    using after_op_split [OF wf p(2,4)] p(3) by blast
  have lin: "lin_ids k = insert (ent_id d) (fst ` set cs)" using cs p(6) by auto
  have "dead_child step es (fst ` set cs) s d"
    using dead p(5) lin by (auto simp: dead_child_def)
  with p(3,4) have us: "\<forall>x\<in>set (us @ [d]). ent_kind x = callEntry \<and> dead_child step es (fst ` set cs) s x"
    by auto
  have pop: "k_calls (srch_pop es k) = cs" "k_state (srch_pop es k) = s" "k_rest (srch_pop es k) = vs"
    "k_cache (srch_pop es k) = k_cache k"
    using after by (simp_all add: srch_pop_def cs p(6))
  have "\<not> completable step es M t \<or> (M, t) \<in> K0" if "(M, t) \<in> k_cache k" for M t
    using K(2) that dead unfolding p(7) lin by blast
  with p(1,2) us pop K(3) show ?thesis unfolding srch_inv_def by (intro exI [of _ K0]) auto
qed

lemma srch_rel_skip: "k_rest k = e # r \<Longrightarrow> (k\<lparr>k_rest := r\<rparr>, k) \<in> srch_rel B"
  by (simp add: srch_rel_def)

lemma srch_rel_pop: "k_calls k \<noteq> [] \<Longrightarrow> (srch_pop es k, k) \<in> srch_rel B"
  by (simp add: srch_rel_def srch_pop_def prod.case_eq_if Let_def)

lemma srch_rel_push:
  assumes "finite B" and "k_cache (srch_push es i s' k) \<subseteq> B" and "(insert i (lin_ids k), s') \<notin> k_cache k"
  shows "(srch_push es i s' k, k) \<in> srch_rel B"
proof -
  have "finite (k_cache k)" using assms(1,2) by (auto simp: srch_push_def intro: finite_subset)
  with assms(3) have "card (k_cache (srch_push es i s' k)) = Suc (card (k_cache k))"
    by (simp add: srch_push_def)
  moreover have "card (k_cache (srch_push es i s' k)) \<le> card B"
    by (rule card_mono [OF assms(1,2)])
  ultimately show ?thesis by (simp add: srch_rel_def) linarith
qed

context seq_model
begin

lemma srch_skip_dead:
  assumes inv: "srch_inv step es n s0 k" and rest: "k_rest k = e # r"
    and st: "step (k_state k) (fst (io_at es (ent_id e))) (snd (io_at es (ent_id e))) = Some (ok, s')"
    and no: "ok \<Longrightarrow> srch_visited eqs (k_cache k) (insert (ent_id e) (lin_ids k)) s'"
  shows "dead_child step es (lin_ids k) (k_state k) e"
proof (cases ok)
  case False
  with st show ?thesis by (simp add: dead_child_def)
next
  case True
  let ?M = "insert (ent_id e) (lin_ids k)"
  from no [OF True] obtain t where t: "(?M, t) \<in> k_cache k" "eqs s' t"
    by (auto simp: srch_visited_def)
  from inv obtain K where K: "stk step es s0 (k_calls k) (k_state k) K"
    "\<forall>M t. (M, t) \<in> k_cache k \<longrightarrow> \<not> completable step es M t \<or> (M, t) \<in> K"
    and us: "\<exists>us. rem_entries es (lin_ids k) = us @ k_rest k"
    unfolding srch_inv_def by blast
  from us rest have "ent_id e \<notin> lin_ids k"
    using rem_mem [of e es "lin_ids k"] by auto
  then have "(?M, t) \<notin> K" using stk_configs [OF K(1)] by blast
  with t K(2) have "\<not> completable step es ?M t" by blast
  with t(2) completable_eqs have "\<not> completable step es ?M s'" by blast
  with st True show ?thesis by (simp add: dead_child_def)
qed

lemma srch_progress:
  assumes wf: "wf_history es n" and vals: "vals_ok in_ok out_ok es" and inv: "srch_inv step es n s0 k"
  shows "case srch_step step eqs es k of
      None \<Rightarrow> False
    | Some (Inr b) \<Rightarrow> b = completable step es {} s0
    | Some (Inl k') \<Rightarrow> srch_inv step es n s0 k' \<and> (k', k) \<in> srch_rel (reach_configs step es n s0)"
proof (cases "rem_entries es (lin_ids k) = []")
  case True
  then have "completable step es (lin_ids k) (k_state k)" by (rule completable.complete)
  moreover from inv obtain K where "stk step es s0 (k_calls k) (k_state k) K"
    unfolding srch_inv_def by blast
  ultimately have "completable step es {} s0" by (intro stk_completable)
  with True show ?thesis by (simp add: srch_step_def)
next
  case False
  from inv obtain us where us: "rem_entries es (lin_ids k) = us @ k_rest k"
    "\<forall>x\<in>set us. ent_kind x = callEntry" unfolding srch_inv_def by blast
  from us(2) False rem_has_return [OF wf us(1)] rem_has_return [OF wf, of "lin_ids k" "[]" us] us(1)
  obtain e r where rest: "k_rest k = e # r" by (cases "k_rest k") force+
  from rest us(1) have "e \<in> set es" using rem_mem [of e es "lin_ids k"] by auto
  with vals_ok_io [OF wf vals] wf_id_range [OF wf] step_total
  obtain ok s' where st: "step (k_state k) (fst (io_at es (ent_id e))) (snd (io_at es (ent_id e))) = Some (ok, s')"
    by (metis option.exhaust surj_pair)
  show ?thesis
  proof (cases "ent_kind e")
    case callEntry
    show ?thesis
    proof (cases "ok \<and> \<not> srch_visited eqs (k_cache k) (insert (ent_id e) (lin_ids k)) s'")
      case True
      with st have inv': "srch_inv step es n s0 (srch_push es (ent_id e) s' k)"
        by (intro srch_inv_push [OF wf inv rest callEntry]) simp
      then have "k_cache (srch_push es (ent_id e) s' k) \<subseteq> reach_configs step es n s0"
        unfolding srch_inv_def by blast
      moreover have "(insert (ent_id e) (lin_ids k), s') \<notin> k_cache k"
        using True eqs_refl by (auto simp: srch_visited_def)
      ultimately have "(srch_push es (ent_id e) s' k, k) \<in> srch_rel (reach_configs step es n s0)"
        by (intro srch_rel_push finite_reach_configs)
      with inv' True False rest callEntry st show ?thesis by (simp add: srch_step_def)
    next
      case no: False
      then have "dead_child step es (lin_ids k) (k_state k) e"
        by (intro srch_skip_dead [OF inv rest st]) blast
      then have "srch_inv step es n s0 (k\<lparr>k_rest := r\<rparr>)"
        by (rule srch_inv_skip [OF inv rest callEntry])
      with no False rest callEntry st show ?thesis
        by (auto simp: srch_step_def srch_rel_skip)
    qed
  next
    case returnEntry
    show ?thesis
    proof (cases "k_calls k = []")
      case True
      with inv have "k_state k = s0" unfolding srch_inv_def by (auto elim: stk_NilE)
      with True srch_stuck_dead [OF inv rest returnEntry] have "\<not> completable step es {} s0" by simp
      with True False rest returnEntry show ?thesis by (simp add: srch_step_def)
    next
      case calls: False
      with srch_inv_pop [OF wf inv rest returnEntry] srch_rel_pop False rest returnEntry
      show ?thesis by (simp add: srch_step_def)
    qed
  qed
qed

end

section \<open>Completable configurations and linearizations\<close>

lemma rem_subseq: "subseq [a, b] (rem_entries es L) \<Longrightarrow> subseq [a, b] es"
  unfolding rem_entries_def by (rule subseq_pair_unfilter)

lemma subseq_rem: "subseq [a, b] es \<Longrightarrow> ent_id a \<notin> L \<Longrightarrow> ent_id b \<notin> L \<Longrightarrow> subseq [a, b] (rem_entries es L)"
  unfolding rem_entries_def by (rule subseq_pair_filter)

lemma wf_return_not_before_call:
  assumes wf: "wf_history es n" and "subseq [r, c] es" and "key c = (callEntry, i)" and "key r = (returnEntry, i)"
  shows False
proof -
  have mem: "r \<in> set es" "c \<in> set es"
    using assms(2) by (auto simp: subseq_pair)
  from wf_call_before [OF wf mem(1)] assms(4) obtain c' where c': "c' \<in> set es" "key c' = (callEntry, i)" "subseq [c', r] es"
    by auto
  then have "c' = c" using assms(3) mem by (intro wf_key_inj [OF wf]) auto
  with c'(3) obtain us vs where "es = us @ c # vs" "r \<in> set vs" by (auto simp: subseq_pair)
  with assms(2) wf_distinct [OF wf] show False by (auto simp: subseq_pair_before)
qed

lemma candidate_not_preceded:
  assumes wf: "wf_history es n" and e: "e \<in> set (candidates es L)" and "j \<notin> L"
  shows "\<not> ret_before es j (ent_id e)"
proof
  assume "ret_before es j (ent_id e)"
  then obtain r c where rc: "subseq [r, c] es" "key r = (returnEntry, j)" "key c = (callEntry, ent_id e)"
    by (auto simp: ret_before_def)
  from e obtain us vs where us: "rem_entries es L = us @ e # vs" "\<forall>x\<in>set us. ent_kind x = callEntry"
    "ent_kind e = callEntry" unfolding candidates_split by blast
  then have "e \<in> set es" "ent_id e \<notin> L" using rem_mem [of e es L] by auto
  moreover have "c \<in> set es" using rc(1) by (auto simp: subseq_pair)
  ultimately have "c = e" using rc(3) us(3) by (intro wf_key_inj [OF wf]) auto
  with rc assms(3) \<open>ent_id e \<notin> L\<close> have "subseq [r, e] (rem_entries es L)" by (intro subseq_rem) auto
  with us rem_distinct [OF wf, of L] have "r \<in> set us" by (simp add: subseq_pair_before)
  with us(2) rc(2) show False by auto
qed

lemma completable_linearizes:
  assumes wf: "wf_history es n"
  shows "completable step es L s \<Longrightarrow> \<exists>\<sigma>. linearizes step s es ({0..<int n} - L) \<sigma>"
proof (induction rule: completable.induct)
  case (complete L s)
  then show ?case using rem_Nil_iff [OF wf, of L] by (auto simp: linearizes_def intro: exI [of _ "[]"])
next
  case (extend e L s s')
  then obtain \<sigma> where \<sigma>: "linearizes step s' es ({0..<int n} - insert (ent_id e) L) \<sigma>" by blast
  have "e \<in> set (rem_entries es L)"
    using extend.hyps(1) by (auto simp: candidates_def dest: set_takeWhileD)
  then have e: "e \<in> set es" "ent_id e \<notin> L" by (auto simp: rem_mem)
  from \<sigma> have set: "set \<sigma> = {0..<int n} - insert (ent_id e) L" by (simp add: linearizes_def)
  have "\<forall>j\<in>set \<sigma>. \<not> ret_before es j (ent_id e)"
    by (intro ballI candidate_not_preceded [OF wf extend.hyps(1)]) (simp add: set)
  moreover have "ent_id e \<in> {0..<int n}" using wf_id_range [OF wf e(1)] by simp
  then have "set (ent_id e # \<sigma>) = {0..<int n} - L" and "ent_id e \<notin> set \<sigma>"
    unfolding list.set set using e(2) by blast+
  moreover have "run_steps step s (map (io_at es) (ent_id e # \<sigma>)) = run_steps step s' (map (io_at es) \<sigma>)"
    using extend.hyps(2) by (simp add: run_steps_Cons)
  ultimately have "linearizes step s es ({0..<int n} - L) (ent_id e # \<sigma>)"
    using \<sigma> by (simp add: linearizes_def)
  then show ?case by blast
qed

lemma first_is_candidate:
  assumes wf: "wf_history es n" and lin: "linearizes step s es ({0..<int n} - L) (i # \<sigma>)"
  shows "\<exists>e\<in>set (candidates es L). ent_id e = i"
proof -
  from lin have i: "0 \<le> i" "i < int n" "i \<notin> L" by (auto simp: linearizes_def)
  from wf_entry_ex [OF wf i(1,2), of callEntry] obtain e where e: "e \<in> set es" "key e = (callEntry, i)" by blast
  with i have "e \<in> set (rem_entries es L)" by (auto simp: rem_mem)
  then obtain us vs where us: "rem_entries es L = us @ e # vs" by (meson split_list)
  have "ent_kind x = callEntry" if "x \<in> set us" for x
  proof (rule ccontr)
    assume "ent_kind x \<noteq> callEntry"
    then have k: "key x = (returnEntry, ent_id x)" by (cases "ent_kind x") auto
    from that us have x: "x \<in> set es" "ent_id x \<notin> L" using rem_mem [of x es L] by auto
    have sub: "subseq [x, e] es"
      by (rule rem_subseq [of _ _ _ L]) (use that us rem_distinct [OF wf, of L] in \<open>simp add: subseq_pair_before\<close>)
    have "ent_id x \<noteq> i" using wf_return_not_before_call [OF wf sub] e(2) k by auto
    with lin x wf_id_range [OF wf x(1)] have "ent_id x \<in> set \<sigma>" by (auto simp: linearizes_def)
    moreover have "ret_before es (ent_id x) i" using sub k e(2) by (auto simp: ret_before_def)
    ultimately show False using lin by (auto simp: linearizes_def)
  qed
  with us e have "e \<in> set (candidates es L)" unfolding candidates_split by auto
  with e(2) show ?thesis by auto
qed

lemma linearizes_completable:
  assumes wf: "wf_history es n"
  shows "linearizes step s es ({0..<int n} - L) \<sigma> \<Longrightarrow> completable step es L s"
proof (induction \<sigma> arbitrary: L s)
  case Nil
  then show ?case using rem_Nil_iff [OF wf, of L]
    by (auto simp: linearizes_def intro: completable.complete)
next
  case (Cons i \<sigma>)
  obtain e where e: "e \<in> set (candidates es L)" "ent_id e = i"
    using first_is_candidate [OF wf Cons.prems] by blast
  from Cons.prems obtain s' where s': "step s (fst (io_at es i)) (snd (io_at es i)) = Some (True, s')"
    and run: "run_steps step s' (map (io_at es) \<sigma>) \<noteq> None"
    by (auto simp: linearizes_def run_steps_Cons split: option.splits bool.splits)
  have "set \<sigma> = {0..<int n} - insert i L"
    using Cons.prems by (auto simp: linearizes_def)
  with Cons.prems run have "linearizes step s' es ({0..<int n} - insert i L) \<sigma>"
    by (auto simp: linearizes_def)
  then have "completable step es (insert i L) s'" by (rule Cons.IH)
  with e s' show ?case by (auto intro: completable.extend)
qed

lemma completable_iff_linearizable:
  "wf_history es n \<Longrightarrow> completable step es {} s \<longleftrightarrow> (\<exists>\<sigma>. linearizes step s es {0..<int n} \<sigma>)"
  using completable_linearizes [of es n step "{}" s] linearizes_completable [of es n step s "{}"] by auto

end
