(* ===== verification/Porcupine_Checker.thy ===== *)
theory Porcupine_Checker
  imports Porcupine_Bitset Porcupine_Links Porcupine_Search
begin

text \<open>
  \<open>checkSingle\<close> of \<open>porcupine/checker.go\<close>: the search for a linearization over the linked list of
  entries, the bit set of linearized operations, the hashed cache of visited configurations and
  the stack of calls. Every nil dereference and index out of range of the code is \<open>None\<close> in the
  model, so the theorem that the function returns a result also says that none of them happens.

  The loop is shown to simulate the reference search of \<open>Porcupine_Search\<close>, which gives its
  termination and its correctness.
\<close>

section \<open>The checker\<close>

record 's cacheEntry =
  ce_linearized :: bitset
  ce_state :: 's

record 's callsEntry =
  cl_entry :: nat
  cl_state :: 's

type_synonym 's cache = "64 word \<rightharpoonup> 's cacheEntry list"

text \<open>A \<open>*[]int\<close> of \<open>longest\<close>: the number of the allocation (the pointer) and the slice.\<close>

type_synonym seq_ptr = "nat \<times> int list"

definition cacheContains :: "('s \<Rightarrow> 's \<Rightarrow> bool) \<Rightarrow> 's cache \<Rightarrow> 's cacheEntry \<Rightarrow> bool" where
  "cacheContains eqf cache entry =
     list_ex (\<lambda>elem. bitset_equals (ce_linearized entry) (ce_linearized elem)
         \<and> eqf (ce_state entry) (ce_state elem))
       (map_get0 [] cache (bitset_hash (ce_linearized entry)))"

text \<open>The conversion \<open>uint(i)\<close> of a 64-bit \<open>int\<close>.\<close>

definition to_uint :: "int \<Rightarrow> nat" where
  "to_uint i = (if 0 \<le> i then nat i else nat (i + 2 ^ 64))"

record ('s, 'v) cs =
  cs_heap :: "'v heap"
  cs_entry :: "nat option"
  cs_linearized :: bitset
  cs_cache :: "'s cache"
  cs_calls :: "'s callsEntry list"
  cs_longest :: "seq_ptr option list"
  cs_state :: 's
  cs_allocs :: nat

fun call_ids :: "'v heap \<Rightarrow> 's callsEntry list \<Rightarrow> int list option" where
  "call_ids h [] = Some []"
| "call_ids h (v # calls) = do { n \<leftarrow> h (cl_entry v); ids \<leftarrow> call_ids h calls; Some (nd_id n # ids) }"

fun update_longest :: "'v heap \<Rightarrow> seq_ptr \<Rightarrow> nat \<Rightarrow> 's callsEntry list \<Rightarrow> seq_ptr option list \<Rightarrow> seq_ptr option list option" where
  "update_longest h seq callsLen [] longest = Some longest"
| "update_longest h seq callsLen (v # calls) longest = do {
     n \<leftarrow> h (cl_entry v);
     old \<leftarrow> slice_get longest (nd_id n);
     longest \<leftarrow> (if (case old of None \<Rightarrow> True | Some (_, l) \<Rightarrow> callsLen > length l)
                then slice_set longest (nd_id n) (Some seq) else Some longest);
     update_longest h seq callsLen calls longest
   }"

definition cs_push ::
  "nat \<Rightarrow> nat \<Rightarrow> 'v node \<Rightarrow> 's \<Rightarrow> bitset \<Rightarrow> ('s, 'v) cs \<Rightarrow> ('s, 'v) cs option" where
  "cs_push headEntry entry en newState newLinearized st = do {
     let hash = bitset_hash newLinearized;
     let newCacheEntry = \<lparr>ce_linearized = newLinearized, ce_state = newState\<rparr>;
     linearized \<leftarrow> bitset_set (cs_linearized st) (to_uint (nd_id en));
     h \<leftarrow> lift entry (cs_heap st);
     hn \<leftarrow> h headEntry;
     Some (st\<lparr>cs_heap := h, cs_entry := nd_next hn, cs_linearized := linearized,
         cs_cache := (cs_cache st)(hash \<mapsto> map_get0 [] (cs_cache st) hash @ [newCacheEntry]),
         cs_calls := cs_calls st @ [\<lparr>cl_entry = entry, cl_state = cs_state st\<rparr>],
         cs_state := newState\<rparr>)
   }"

definition cs_pop :: "bool \<Rightarrow> ('s, 'v) cs \<Rightarrow> ('s, 'v) cs option" where
  "cs_pop computePartial st = do {
     longest \<leftarrow> (if computePartial then do {
         seq \<leftarrow> call_ids (cs_heap st) (cs_calls st);
         update_longest (cs_heap st) (cs_allocs st, seq) (length (cs_calls st)) (cs_calls st) (cs_longest st)
       } else Some (cs_longest st));
     let callsTop = last (cs_calls st);
     en \<leftarrow> cs_heap st (cl_entry callsTop);
     linearized \<leftarrow> bitset_clear (cs_linearized st) (to_uint (nd_id en));
     h \<leftarrow> unlift (cl_entry callsTop) (cs_heap st);
     en \<leftarrow> h (cl_entry callsTop);
     Some (st\<lparr>cs_heap := h, cs_entry := nd_next en, cs_linearized := linearized,
         cs_calls := butlast (cs_calls st), cs_longest := longest, cs_state := cl_state callsTop,
         cs_allocs := Suc (cs_allocs st)\<rparr>)
   }"

definition cs_body ::
  "('s \<Rightarrow> 'v \<Rightarrow> 'v \<Rightarrow> (bool \<times> 's) option) \<Rightarrow> ('s \<Rightarrow> 's \<Rightarrow> bool) \<Rightarrow> bool \<Rightarrow> bool \<Rightarrow> nat
     \<Rightarrow> ('s, 'v) cs \<Rightarrow> (('s, 'v) cs + bool \<times> seq_ptr option list) option" where
  "cs_body stp eqf computePartial killed headEntry st =
     (if killed then Some (Inr (False, cs_longest st))
      else do {
        entry \<leftarrow> cs_entry st;
        en \<leftarrow> cs_heap st entry;
        (if nd_match en \<noteq> None then do {
           matching \<leftarrow> deref (nd_match en) (cs_heap st);
           input \<leftarrow> nd_value en;
           output \<leftarrow> nd_value matching;
           (ok, newState) \<leftarrow> stp (cs_state st) input output;
           (if ok then do {
              newLinearized \<leftarrow> bitset_set (bitset_clone (cs_linearized st)) (to_uint (nd_id en));
              (if \<not> cacheContains eqf (cs_cache st) \<lparr>ce_linearized = newLinearized, ce_state = newState\<rparr>
               then map_option Inl (cs_push headEntry entry en newState newLinearized st)
               else Some (Inl (st\<lparr>cs_entry := nd_next en\<rparr>)))
            } else Some (Inl (st\<lparr>cs_entry := nd_next en\<rparr>)))
         } else if cs_calls st = [] then Some (Inr (False, cs_longest st))
         else map_option Inl (cs_pop computePartial st))
      })"

definition cs_finish :: "('s, 'v) cs \<Rightarrow> (bool \<times> seq_ptr option list) option" where
  "cs_finish st = do {
     seq \<leftarrow> call_ids (cs_heap st) (cs_calls st);
     Some (True, replicate (length (cs_longest st)) (Some (cs_allocs st, seq)))
   }"

text \<open>\<open>kill i\<close> is the value of the shared kill flag that iteration \<open>i\<close> loads.\<close>

partial_function (option) checkLoop ::
  "('s \<Rightarrow> 'v \<Rightarrow> 'v \<Rightarrow> (bool \<times> 's) option) \<Rightarrow> ('s \<Rightarrow> 's \<Rightarrow> bool) \<Rightarrow> bool \<Rightarrow> (nat \<Rightarrow> bool) \<Rightarrow> nat
     \<Rightarrow> nat \<Rightarrow> ('s, 'v) cs \<Rightarrow> (bool \<times> seq_ptr option list) option" where
  "checkLoop stp eqf computePartial kill headEntry i st =
     (case cs_heap st headEntry of
        None \<Rightarrow> None
      | Some hn \<Rightarrow>
          if nd_next hn = None then cs_finish st
          else (case cs_body stp eqf computePartial (kill i) headEntry st of
              None \<Rightarrow> None
            | Some (Inr r) \<Rightarrow> Some r
            | Some (Inl st') \<Rightarrow> checkLoop stp eqf computePartial kill headEntry (Suc i) st'))"

definition cs_start :: "'s \<Rightarrow> 'v entry list \<Rightarrow> ('s, 'v) cs option" where
  "cs_start init history = do {
     (entry, h) \<leftarrow> makeLinkedEntries history;
     l \<leftarrow> node_length entry h;
     let n = l div 2;
     let headEntry = length history;
     h \<leftarrow> insertBefore headEntry entry
            (h(headEntry \<mapsto> \<lparr>nd_value = None, nd_match = None, nd_id = -1, nd_next = None, nd_prev = None\<rparr>));
     Some \<lparr>cs_heap = h, cs_entry = entry, cs_linearized = newBitset n, cs_cache = Map.empty, cs_calls = [],
           cs_longest = replicate n None, cs_state = init, cs_allocs = 0\<rparr>
   }"

text \<open>
  The model has been completed by \<open>fillDefault\<close>, so its \<open>Equal\<close> is set; a nil \<open>Equal\<close> is a panic.
\<close>

definition checkSingle ::
  "('s, 'v) Model \<Rightarrow> 'v entry list \<Rightarrow> bool \<Rightarrow> (nat \<Rightarrow> bool) \<Rightarrow> (bool \<times> seq_ptr option list) option" where
  "checkSingle model history computePartial kill = do {
     eqf \<leftarrow> Equal model;
     st \<leftarrow> cs_start (Init model) history;
     checkLoop (Step model) eqf computePartial kill (length history) 0 st
   }"

section \<open>The list of remaining entries in the heap\<close>

definition rem_pairs :: "'v entry list \<Rightarrow> int set \<Rightarrow> (nat \<times> 'v entry) list" where
  "rem_pairs es L = filter (\<lambda>(a, e). ent_id e \<notin> L) (pairs es)"

lemma rem_pairs_snd: "map snd (rem_pairs es L) = rem_entries es L"
  by (induction es) (auto simp: rem_pairs_def rem_entries_def)

lemma rem_pairs_empty [simp]: "rem_pairs es {} = pairs es"
  by (simp add: rem_pairs_def case_prod_beta)

lemma rem_pairs_mem: "(a, e) \<in> set (rem_pairs es L) \<longleftrightarrow> (a, e) \<in> set (pairs es) \<and> ent_id e \<notin> L"
  by (auto simp: rem_pairs_def)

lemma rem_pairs_distinct: "distinct (map fst (rem_pairs es L))"
  unfolding rem_pairs_def by (rule distinct_map_filter) simp

lemma rem_pairs_bound: "a \<in> fst ` set (rem_pairs es L) \<Longrightarrow> a < length es"
  by (auto simp: rem_pairs_mem pairs_mem)

lemma rem_pairs_insert: "rem_pairs es (insert i L) = filter (\<lambda>(a, e). ent_id e \<noteq> i) (rem_pairs es L)"
  by (auto simp: rem_pairs_def intro!: filter_cong)

lemma node_static:
  assumes "wf_history es n" and "nodes_ok st es" and "(a, e) \<in> set (pairs es)"
  shows "ent_kind e = returnEntry \<Longrightarrow> st a = Some (Some (ent_value e), None, ent_id e)"
    and "ent_kind e = callEntry \<Longrightarrow> (b, r) \<in> set (pairs es) \<Longrightarrow> key r = (returnEntry, ent_id e)
      \<Longrightarrow> st a = Some (Some (ent_value e), Some b, ent_id e)"
proof -
  from assms(3) obtain us ts where es: "es = us @ e # ts" and a: "a = length ts" by (auto simp: pairs_mem)
  from assms(2) es have st: "st a = Some (Some (ent_value e),
      if ent_kind e = callEntry then ret_addr ts (ent_id e) else None, ent_id e)"
    using nodes_ok_suffix [of st us "e # ts"] a by simp
  then show "ent_kind e = returnEntry \<Longrightarrow> st a = Some (Some (ent_value e), None, ent_id e)" by simp
  assume call: "ent_kind e = callEntry" and r: "(b, r) \<in> set (pairs es)" "key r = (returnEntry, ent_id e)"
  have "e \<in> set es" using es by simp
  from wf_return_after [OF assms(1) this call] obtain r' where
    r': "r' \<in> set es" "key r' = (returnEntry, ent_id e)" "subseq [e, r'] es" by blast
  from r(1) have "r \<in> set es" by (auto simp: pairs_mem)
  with r(2) r' have "r' = r" by (intro wf_key_inj [OF assms(1)]) auto
  with r'(3) es wf_distinct [OF assms(1)] have "r \<in> set ts" by (simp add: subseq_pair_after)
  then obtain vs ws where ts: "ts = vs @ r # ws" by (meson split_list)
  from r(1) obtain vs' ws' where "es = vs' @ r # ws'" "b = length ws'" by (auto simp: pairs_mem)
  moreover have eq: "es = (us @ e # vs) @ r # ws" using es ts by simp
  moreover have "distinct ((us @ e # vs) @ r # ws)" using wf_distinct [OF assms(1)] unfolding eq .
  then have "r \<notin> set (us @ e # vs)" "r \<notin> set ws" by auto
  ultimately have "b = length ws" using append_Cons_eq_iff [of r "us @ e # vs" ws vs' ws'] by simp
  then have "(b, r) \<in> set (pairs ts)" using ts by (auto simp: pairs_mem)
  moreover have "distinct (map key ts)" using wf_keys_distinct [OF assms(1)] es by simp
  ultimately have "ret_addr ts (ent_id e) = Some b" using r(2) by (intro ret_addr_pairs)
  with st call show "st a = Some (Some (ent_value e), Some b, ent_id e)" by simp
qed

lemma rem_pairs_match:
  assumes wf: "wf_history es n" and ok: "nodes_ok st es" and eq: "rem_pairs es L = us @ (a, e) # vs"
    and call: "ent_kind e = callEntry"
  shows "\<exists>b r vs1 vs2. vs = vs1 @ (b, r) # vs2 \<and> key r = (returnEntry, ent_id e)
      \<and> st a = Some (Some (ent_value e), Some b, ent_id e) \<and> st b = Some (Some (ent_value r), None, ent_id r)
      \<and> rem_pairs es (insert (ent_id e) L) = us @ vs1 @ vs2"
proof -
  have "rem_entries es L = map snd us @ e # map snd vs"
    using rem_pairs_snd [of es L] eq by simp
  from rem_return_after [OF wf this call] obtain r where r: "r \<in> snd ` set vs" "key r = (returnEntry, ent_id e)"
    by auto
  then obtain b where "(b, r) \<in> set vs" by auto
  then obtain vs1 vs2 where vs: "vs = vs1 @ (b, r) # vs2" by (meson split_list)
  have all: "set (rem_pairs es L) \<subseteq> set (pairs es)" by (auto simp: rem_pairs_def)
  with eq vs have mem: "(a, e) \<in> set (pairs es)" "(b, r) \<in> set (pairs es)" by auto
  have st: "st a = Some (Some (ent_value e), Some b, ent_id e)" "st b = Some (Some (ent_value r), None, ent_id r)"
    using node_static [OF wf ok] mem call r(2) by auto
  have "ent_id x \<noteq> ent_id e" if "(c, x) \<in> set (us @ vs1 @ vs2)" for c x
  proof
    assume id: "ent_id x = ent_id e"
    have "(c, x) \<in> set (pairs es)" using that eq vs all by auto
    then have "x \<in> set es" "e \<in> set es" "r \<in> set es" using mem by (auto dest: pairs_memD)
    moreover have "key x = key e \<or> key x = key r" using id r(2) call by (cases "ent_kind x") auto
    ultimately have "x = e \<or> x = r" using wf_key_inj [OF wf] by blast
    moreover have "distinct (map snd us @ e # map snd vs1 @ r # map snd vs2)"
      using rem_distinct [OF wf, of L] rem_pairs_snd [of es L] eq vs by simp
    ultimately show False using that by (auto simp: image_iff)
  qed
  then have "filter (\<lambda>(c, x). ent_id x \<noteq> ent_id e) us = us"
    "filter (\<lambda>(c, x). ent_id x \<noteq> ent_id e) vs1 = vs1" "filter (\<lambda>(c, x). ent_id x \<noteq> ent_id e) vs2 = vs2"
    by (auto intro!: filter_True)
  then have "rem_pairs es (insert (ent_id e) L) = us @ vs1 @ vs2"
    using eq vs r(2) by (simp add: rem_pairs_insert)
  with vs r(2) st show ?thesis by blast
qed

definition rep :: "'v entry list \<Rightarrow> int set \<Rightarrow> 'v heap \<Rightarrow> bool" where
  "rep es L h \<longleftrightarrow> dl h None (length es # map fst (rem_pairs es L)) None \<and> nodes_ok (static h) es"

lemma rep_head: "rep es L h \<Longrightarrow> \<exists>n. h (length es) = Some n \<and> nd_next n = first_ptr (map fst (rem_pairs es L)) None"
  by (auto simp: rep_def)

lemma rep_next:
  assumes "rep es L h" and "rem_pairs es L = us @ (a, e) # vs"
  shows "\<exists>n. h a = Some n \<and> nd_next n = first_ptr (map fst vs) None"
  using assms by (auto simp: rep_def dl_append)

lemma rep_lift:
  assumes wf: "wf_history es n" and rep: "rep es L h" and eq: "rem_pairs es L = us @ (a, e) # vs"
    and call: "ent_kind e = callEntry"
  shows "\<exists>h'. lift a h = Some h' \<and> rep es (insert (ent_id e) L) h' \<and> unlift a h' = Some h"
proof -
  from rep have ok: "nodes_ok (static h) es" by (simp add: rep_def)
  from rem_pairs_match [OF wf ok eq call] obtain b r vs1 vs2 where m: "vs = vs1 @ (b, r) # vs2"
    "static h a = Some (Some (ent_value e), Some b, ent_id e)"
    "rem_pairs es (insert (ent_id e) L) = us @ vs1 @ vs2" by blast
  let ?xs = "length es # map fst us"
  obtain ys z where ys: "?xs = ys @ [z]" by (metis list.distinct(1) rev_exhaust)
  have "?xs @ a # map fst vs1 @ b # map fst vs2 = length es # map fst (rem_pairs es L)"
    using eq m(1) by simp
  then have split: "ys @ [z] @ a # map fst vs1 @ b # map fst vs2 = length es # map fst (rem_pairs es L)"
    using ys by (metis append.assoc)
  have d: "distinct (length es # map fst (rem_pairs es L))"
    using rem_pairs_distinct [of es L] rem_pairs_bound [of "length es" es L] by auto
  have "dl h None (ys @ [z] @ a # map fst vs1 @ b # map fst vs2) None"
    "distinct (ys @ [z] @ a # map fst vs1 @ b # map fst vs2)"
    unfolding split using rep d by (simp_all add: rep_def)
  from lift_unlift [OF this m(2)] obtain h' where h': "lift a h = Some h'"
    "dl h' None (ys @ [z] @ map fst vs1 @ map fst vs2) None" "static h' = static h" "unlift a h' = Some h" by blast
  have "ys @ [z] @ map fst vs1 @ map fst vs2 = length es # map fst (rem_pairs es (insert (ent_id e) L))"
    using ys m(3) by (metis append.assoc append_Cons map_append)
  with h' ok show ?thesis by (auto simp: rep_def)
qed

end
