(* ===== verification/Porcupine_Correct.thy ===== *)
theory Porcupine_Correct
  imports Porcupine_Checker
begin

text \<open>
  \<open>checkSingle\<close> simulates the reference search: \<open>sim\<close> relates a state of the loop to a state of
  the search, \<open>sim_step\<close> shows that one iteration follows one step, and the theorems at the end
  carry termination and correctness over to the code.
\<close>

section \<open>The stack of heaps\<close>

text \<open>
  \<open>heaps es cs h\<close>: heap \<open>h\<close> is the result of lifting the calls \<open>cs\<close> (address and identifier) one
  after the other, and unlifting the last one gives back the heap before it.
\<close>

inductive heaps :: "'v entry list \<Rightarrow> (nat \<times> int) list \<Rightarrow> 'v heap \<Rightarrow> bool" for es where
  heaps_Nil: "rep es {} h \<Longrightarrow> heaps es [] h"
| heaps_snoc: "heaps es cs h \<Longrightarrow> L = snd ` set cs \<Longrightarrow> rem_pairs es L = us @ (a, e) # vs \<Longrightarrow>
     \<forall>x\<in>set us. ent_kind (snd x) = callEntry \<Longrightarrow> ent_kind e = callEntry \<Longrightarrow>
     unlift a h' = Some h \<Longrightarrow> rep es (insert (ent_id e) L) h' \<Longrightarrow> heaps es (cs @ [(a, ent_id e)]) h'"

inductive_cases heaps_snocE: "heaps es (cs @ [c]) h"

lemma heaps_rep: "heaps es cs h \<Longrightarrow> rep es (snd ` set cs) h"
  by (induction rule: heaps.induct) auto

lemma heaps_entries: "heaps es cs h \<Longrightarrow> (a, i) \<in> set cs \<Longrightarrow> \<exists>e. (a, e) \<in> set (pairs es) \<and> ent_id e = i"
proof (induction rule: heaps.induct)
  case (heaps_snoc cs h L us b e vs h')
  have "(b, e) \<in> set (rem_pairs es L)" using heaps_snoc.hyps(3) by simp
  then have "(b, e) \<in> set (pairs es)" by (simp add: rem_pairs_mem)
  with heaps_snoc show ?case by auto
qed simp

lemma nodes_ok_id: "nodes_ok st es \<Longrightarrow> (a, e) \<in> set (pairs es) \<Longrightarrow> \<exists>v m. st a = Some (v, m, ent_id e)"
  by (induction es) auto

lemma heaps_node_id: "heaps es cs h \<Longrightarrow> \<forall>c\<in>set cs. \<exists>n. h (fst c) = Some n \<and> nd_id n = snd c"
proof
  fix c assume h: "heaps es cs h" "c \<in> set cs"
  from heaps_entries [of es cs h "fst c" "snd c"] h obtain e where e: "(fst c, e) \<in> set (pairs es)" "ent_id e = snd c"
    by auto
  from heaps_rep [OF h(1)] have "nodes_ok (static h) es" by (simp add: rep_def)
  from nodes_ok_id [OF this e(1)] e(2) show "\<exists>n. h (fst c) = Some n \<and> nd_id n = snd c"
    by (auto dest: static_SomeD)
qed

section \<open>The cache\<close>

definition cache_rel :: "nat \<Rightarrow> 's cache \<Rightarrow> (int set \<times> 's) set \<Rightarrow> bool" where
  "cache_rel n cache S \<longleftrightarrow>
     (\<forall>h. \<forall>c\<in>set (map_get0 [] cache h). bitset_hash (ce_linearized c) = h \<and> bitset_cap n (ce_linearized c))
     \<and> S = {(int ` bits_of (ce_linearized c), ce_state c) | h c. c \<in> set (map_get0 [] cache h)}"

lemma cache_rel_empty: "cache_rel n Map.empty {}"
  by (auto simp: cache_rel_def)

lemma int_image_eq: "int ` A = int ` B \<longleftrightarrow> A = B"
  by (rule inj_image_eq_iff) simp

lemma cacheContains_visited:
  assumes rel: "cache_rel n cache S" and cap: "bitset_cap n b"
  shows "cacheContains eqf cache \<lparr>ce_linearized = b, ce_state = s\<rparr> \<longleftrightarrow> srch_visited eqf S (int ` bits_of b) s"
proof
  assume "cacheContains eqf cache \<lparr>ce_linearized = b, ce_state = s\<rparr>"
  then obtain c where c: "c \<in> set (map_get0 [] cache (bitset_hash b))" "bitset_equals b (ce_linearized c)"
    "eqf s (ce_state c)" by (auto simp: cacheContains_def list_ex_iff)
  with rel have "bitset_cap n (ce_linearized c)" by (auto simp: cache_rel_def)
  with c(2) cap have "bits_of b = bits_of (ce_linearized c)" by (simp add: bs.eq_elems)
  moreover have "(int ` bits_of (ce_linearized c), ce_state c) \<in> S" using rel c(1) by (auto simp: cache_rel_def)
  ultimately show "srch_visited eqf S (int ` bits_of b) s" using c(3) by (auto simp: srch_visited_def)
next
  assume "srch_visited eqf S (int ` bits_of b) s"
  then obtain t where t: "(int ` bits_of b, t) \<in> S" "eqf s t" by (auto simp: srch_visited_def)
  with rel obtain h c where c: "c \<in> set (map_get0 [] cache h)" "bits_of b = bits_of (ce_linearized c)" "t = ce_state c"
    by (auto simp: cache_rel_def int_image_eq)
  with rel have cap': "bitset_cap n (ce_linearized c)" and h: "bitset_hash (ce_linearized c) = h"
    by (auto simp: cache_rel_def)
  from c(2) cap cap' have eq: "bitset_equals b (ce_linearized c)" by (simp add: bs.eq_elems)
  with cap cap' have "bitset_hash b = h" using bs.eq_hash h by metis
  with c eq t(2) show "cacheContains eqf cache \<lparr>ce_linearized = b, ce_state = s\<rparr>"
    by (auto simp: cacheContains_def list_ex_iff)
qed

lemma cache_rel_add:
  assumes "cache_rel n cache S" and "bitset_cap n b"
  shows "cache_rel n (cache(bitset_hash b \<mapsto> map_get0 [] cache (bitset_hash b) @ [\<lparr>ce_linearized = b, ce_state = s\<rparr>]))
           (insert (int ` bits_of b, s) S)"
proof -
  let ?c = "\<lparr>ce_linearized = b, ce_state = s\<rparr>"
  let ?cache = "cache(bitset_hash b \<mapsto> map_get0 [] cache (bitset_hash b) @ [?c])"
  have mem: "c \<in> set (map_get0 [] ?cache h) \<longleftrightarrow> c \<in> set (map_get0 [] cache h) \<or> (h = bitset_hash b \<and> c = ?c)" for c h
    by auto
  have S: "S = {(int ` bits_of (ce_linearized c), ce_state c) | h c. c \<in> set (map_get0 [] cache h)}"
    using assms(1) by (simp add: cache_rel_def)
  have "{(int ` bits_of (ce_linearized c), ce_state c) | h c. c \<in> set (map_get0 [] ?cache h)} = insert (int ` bits_of b, s) S"
    unfolding mem S by force
  with assms show ?thesis unfolding cache_rel_def mem by auto
qed

section \<open>The simulation\<close>

text \<open>
  An entry \<open>longest[i]\<close> is a sequence of calls that contains \<open>i\<close> and has the property \<open>P\<close>.
\<close>

definition longest_ok :: "(int list \<Rightarrow> bool) \<Rightarrow> seq_ptr option list \<Rightarrow> bool" where
  "longest_ok P longest \<longleftrightarrow>
     (\<forall>i p l. i < length longest \<longrightarrow> longest ! i = Some (p, l) \<longrightarrow> int i \<in> set l \<and> P l)"

lemma longest_ok_upd:
  assumes "longest_ok P longest" and "int i \<in> set l" and "P l"
  shows "longest_ok P (longest[i := Some (p, l)])"
  unfolding longest_ok_def
proof (intro allI impI)
  fix j q m assume j: "j < length (longest[i := Some (p, l)])" "longest[i := Some (p, l)] ! j = Some (q, m)"
  show "int j \<in> set m \<and> P m"
    using assms j by (cases "i = j") (auto simp: longest_ok_def)
qed

lemma call_ids_heaps:
  assumes "\<forall>c\<in>set cs. \<exists>n. h (fst c) = Some n \<and> nd_id n = snd c" and "map cl_entry calls = map fst cs"
  shows "call_ids h calls = Some (map snd cs)"
  using assms
proof (induction cs arbitrary: calls)
  case (Cons c cs)
  then obtain v vs where v: "calls = v # vs" "cl_entry v = fst c" "map cl_entry vs = map fst cs" by auto
  moreover obtain n where "h (fst c) = Some n" "nd_id n = snd c" using Cons.prems(1) by auto
  moreover have "call_ids h vs = Some (map snd cs)" using Cons.prems(1) v(3) by (intro Cons.IH) auto
  ultimately show ?case by simp
qed simp

lemma update_longest_heaps:
  assumes "\<forall>c\<in>set cs. \<exists>n. h (fst c) = Some n \<and> nd_id n = snd c" and "map cl_entry calls = map fst cs"
    and "snd ` set cs \<subseteq> {0..<int (length longest)}" and "longest_ok P longest" and "snd ` set cs \<subseteq> set l" and "P l"
  shows "\<exists>longest'. update_longest h (p, l) m calls longest = Some longest' \<and> length longest' = length longest
           \<and> longest_ok P longest'"
  using assms
proof (induction cs arbitrary: calls longest)
  case (Cons c cs)
  then obtain v vs where v: "calls = v # vs" "cl_entry v = fst c" "map cl_entry vs = map fst cs" by auto
  obtain n where n: "h (fst c) = Some n" "nd_id n = snd c" using Cons.prems(1) by auto
  from Cons.prems(3) obtain j where j: "snd c = int j" "j < length longest"
    by (auto intro: that [of "nat (snd c)"])
  define longest1 where "longest1 = (if (case longest ! j of None \<Rightarrow> True | Some (_, l) \<Rightarrow> m > length l)
      then longest[j := Some (p, l)] else longest)"
  have ok: "longest_ok P longest1" "length longest1 = length longest"
    using Cons.prems(4-6) j(1) by (auto simp: longest1_def intro!: longest_ok_upd)
  have "\<exists>longest'. update_longest h (p, l) m vs longest1 = Some longest' \<and> length longest' = length longest1
      \<and> longest_ok P longest'"
    using Cons.prems v(3) ok by (intro Cons.IH) auto
  moreover have "update_longest h (p, l) m calls longest = update_longest h (p, l) m vs longest1"
    using v n j by (simp add: slice_get_def slice_set_def longest1_def cong: if_cong)
  ultimately show ?case using ok(2) by simp
qed simp

definition sim :: "(int list \<Rightarrow> bool) \<Rightarrow> 'v entry list \<Rightarrow> nat \<Rightarrow> ('s, 'v) cs \<Rightarrow> ('s, 'v) srch \<Rightarrow> bool" where
  "sim P es n st k \<longleftrightarrow>
     (\<exists>cs. heaps es cs (cs_heap st) \<and> map cl_entry (cs_calls st) = map fst cs \<and> map fst (k_calls k) = map snd cs)
     \<and> map cl_state (cs_calls st) = map snd (k_calls k) \<and> cs_state st = k_state k
     \<and> bitset_cap n (cs_linearized st) \<and> int ` bits_of (cs_linearized st) = lin_ids k
     \<and> (\<exists>us vs. rem_pairs es (lin_ids k) = us @ vs \<and> map snd vs = k_rest k
          \<and> cs_entry st = first_ptr (map fst vs) None)
     \<and> cache_rel n (cs_cache st) (k_cache k) \<and> length (cs_longest st) = n \<and> longest_ok P (cs_longest st)"

lemma map_snd_image: "map fst xs = map snd ys \<Longrightarrow> fst ` set xs = snd ` set ys"
  by (metis list.set_map)

lemma sim_rep: "sim P es n st k \<Longrightarrow> rep es (lin_ids k) (cs_heap st)"
  unfolding sim_def using heaps_rep map_snd_image by metis

lemma sim_done:
  assumes "sim P es n st k"
  shows "\<exists>hn. cs_heap st (length es) = Some hn \<and> (nd_next hn = None \<longleftrightarrow> rem_entries es (lin_ids k) = [])"
proof -
  from rep_head [OF sim_rep [OF assms]] obtain hn where
    "cs_heap st (length es) = Some hn" "nd_next hn = first_ptr (map fst (rem_pairs es (lin_ids k))) None" by blast
  moreover have "rem_entries es (lin_ids k) = [] \<longleftrightarrow> rem_pairs es (lin_ids k) = []"
    by (metis Nil_is_map_conv rem_pairs_snd)
  ultimately show ?thesis by (cases "rem_pairs es (lin_ids k)") auto
qed

lemma sim_entry:
  assumes "sim P es n st k" and "k_rest k = e # r"
  obtains us a vs where "rem_pairs es (lin_ids k) = us @ (a, e) # vs" and "map snd vs = r" and "cs_entry st = Some a"
proof -
  from assms obtain us ws where ws: "rem_pairs es (lin_ids k) = us @ ws" "map snd ws = e # r"
    "cs_entry st = first_ptr (map fst ws) None" unfolding sim_def by auto
  then obtain a vs where "ws = (a, e) # vs" by (cases ws) auto
  with ws that show ?thesis by auto
qed

lemma sim_skip:
  assumes sim: "sim P es n st k" and eq: "rem_pairs es (lin_ids k) = us @ (a, e) # vs" and r: "map snd vs = r"
    and en: "cs_heap st a = Some en"
  shows "sim P es n (st\<lparr>cs_entry := nd_next en\<rparr>) (k\<lparr>k_rest := r\<rparr>)"
proof -
  from rep_next [OF sim_rep [OF sim] eq] en have nx: "nd_next en = first_ptr (map fst vs) None" by simp
  have "\<exists>us vs'. rem_pairs es (lin_ids k) = us @ vs' \<and> map snd vs' = r \<and> nd_next en = first_ptr (map fst vs') None"
    using eq nx r by (intro exI [of _ "us @ [(a, e)]"] exI [of _ vs]) simp
  with sim show ?thesis unfolding sim_def by simp
qed

lemma sim_push:
  assumes wf: "wf_history es n" and sim: "sim P es n st k" and eq: "rem_pairs es (lin_ids k) = us @ (a, e) # vs"
    and calls: "\<forall>x\<in>set us. ent_kind (snd x) = callEntry" and call: "ent_kind e = callEntry"
    and en: "cs_heap st a = Some en" and id: "nd_id en = ent_id e"
    and b: "bitset_set (cs_linearized st) (nat (ent_id e)) = Some b"
  shows "\<exists>st'. cs_push (length es) a en s' b st = Some st' \<and> sim P es n st' (srch_push es (ent_id e) s' k)"
proof -
  have e: "(a, e) \<in> set (rem_pairs es (lin_ids k))" using eq by simp
  then have "e \<in> set es" by (auto simp: rem_pairs_mem dest: pairs_memD)
  from wf_id_range [OF wf this] have pos: "0 \<le> ent_id e" "ent_id e < int n" by auto
  from sim obtain cs where cs: "heaps es cs (cs_heap st)" "map cl_entry (cs_calls st) = map fst cs"
    "map fst (k_calls k) = map snd cs" unfolding sim_def by blast
  note lin = map_snd_image [OF cs(3)]
  from rep_lift [OF wf sim_rep [OF sim] eq call] obtain h where h: "lift a (cs_heap st) = Some h"
    "rep es (insert (ent_id e) (lin_ids k)) h" "unlift a h = Some (cs_heap st)" by blast
  have heaps: "heaps es (cs @ [(a, ent_id e)]) h"
    by (rule heaps_snoc [OF cs(1) lin eq calls call h(3,2)])
  from rep_head [OF h(2)] obtain hn where hn: "h (length es) = Some hn"
    "nd_next hn = first_ptr (map fst (rem_pairs es (insert (ent_id e) (lin_ids k)))) None" by blast
  from sim have cap: "bitset_cap n (cs_linearized st)" and bits: "int ` bits_of (cs_linearized st) = lin_ids k"
    and cache: "cache_rel n (cs_cache st) (k_cache k)" unfolding sim_def by auto
  have b': "bitset_cap n b" "bits_of b = insert (nat (ent_id e)) (bits_of (cs_linearized st))"
    using bs.add_cap [OF cap b] bs.add_elems [OF b] by auto
  then have bits': "int ` bits_of b = insert (ent_id e) (lin_ids k)" using bits pos by simp
  let ?st = "st\<lparr>cs_heap := h, cs_entry := nd_next hn, cs_linearized := b,
      cs_cache := (cs_cache st)(bitset_hash b \<mapsto> map_get0 [] (cs_cache st) (bitset_hash b) @ [\<lparr>ce_linearized = b, ce_state = s'\<rparr>]),
      cs_calls := cs_calls st @ [\<lparr>cl_entry = a, cl_state = cs_state st\<rparr>], cs_state := s'\<rparr>"
  have "cs_push (length es) a en s' b st = Some ?st"
    using h(1) hn(1) b id pos by (simp add: cs_push_def to_uint_def Let_def)
  moreover have "sim P es n ?st (srch_push es (ent_id e) s' k)"
    unfolding sim_def
  proof (intro conjI)
    show "\<exists>cs. heaps es cs (cs_heap ?st) \<and> map cl_entry (cs_calls ?st) = map fst cs
        \<and> map fst (k_calls (srch_push es (ent_id e) s' k)) = map snd cs"
      using heaps cs(2,3) by (intro exI [of _ "cs @ [(a, ent_id e)]"]) (simp add: srch_push_def)
    show "cache_rel n (cs_cache ?st) (k_cache (srch_push es (ent_id e) s' k))"
      using cache_rel_add [OF cache b'(1), of s'] by (simp add: srch_push_def bits')
    show "\<exists>us vs. rem_pairs es (lin_ids (srch_push es (ent_id e) s' k)) = us @ vs
        \<and> map snd vs = k_rest (srch_push es (ent_id e) s' k) \<and> cs_entry ?st = first_ptr (map fst vs) None"
      using hn(2) by (intro exI [of _ "[]"] exI [of _ "rem_pairs es (insert (ent_id e) (lin_ids k))"])
        (simp add: srch_push_def rem_pairs_snd)
  qed (use sim b'(1) bits' in \<open>simp_all add: srch_push_def sim_def\<close>)
  ultimately show ?thesis by blast
qed

lemma sim_pop:
  assumes wf: "wf_history es n" and sim: "sim P es n st k" and calls: "k_calls k \<noteq> []" and P: "P (map fst (k_calls k))"
  shows "\<exists>st'. cs_pop computePartial st = Some st' \<and> sim P es n st' (srch_pop es k)"
proof -
  from sim obtain cs where cs: "heaps es cs (cs_heap st)" "map cl_entry (cs_calls st) = map fst cs"
    "map fst (k_calls k) = map snd cs" unfolding sim_def by blast
  from calls obtain kc i s where kc: "k_calls k = kc @ [(i, s)]" by (metis rev_exhaust surj_pair)
  with cs(3) obtain cs' a where cs': "cs = cs' @ [(a, i)]" "map fst kc = map snd cs'"
    by (cases cs rule: rev_cases) auto
  with cs(2) obtain sc ct where sc: "cs_calls st = sc @ [ct]" "cl_entry ct = a" "map cl_entry sc = map fst cs'"
    by (cases "cs_calls st" rule: rev_cases) auto
  from cs(1) [unfolded cs'(1)] obtain h us e vs where h: "heaps es cs' h" "rem_pairs es (snd ` set cs') = us @ (a, e) # vs"
    "\<forall>x\<in>set us. ent_kind (snd x) = callEntry" "ent_kind e = callEntry" "i = ent_id e" "unlift a (cs_heap st) = Some h"
    by (rule heaps_snocE) auto
  note L = map_snd_image [OF cs'(2)]
  have ids: "snd ` set cs \<subseteq> {0..<int n}"
    using heaps_entries [OF cs(1)] wf_id_range [OF wf] by (fastforce dest: pairs_memD)
  have i: "0 \<le> i" "nat i < n" "i \<notin> lin_ids (k\<lparr>k_calls := kc\<rparr>)"
  proof -
    show "0 \<le> i" "nat i < n" using ids cs'(1) by auto
    have "(a, e) \<in> set (rem_pairs es (snd ` set cs'))" using h(2) by simp
    then show "i \<notin> lin_ids (k\<lparr>k_calls := kc\<rparr>)" using h(5) L by (simp add: rem_pairs_mem)
  qed
  obtain en where en: "cs_heap st a = Some en" "nd_id en = i" using heaps_node_id [OF cs(1)] cs'(1) by auto
  from sim have cap: "bitset_cap n (cs_linearized st)" and bits: "int ` bits_of (cs_linearized st) = lin_ids k"
    and long: "length (cs_longest st) = n" "longest_ok P (cs_longest st)" unfolding sim_def by auto
  from bs.del_ex [OF cap i(2)] obtain b where b: "bitset_clear (cs_linearized st) (nat i) = Some b" "bitset_cap n b"
    "bits_of b = bits_of (cs_linearized st) - {nat i}" by blast
  have bits': "int ` bits_of b = fst ` set kc"
    using b(3) bits i kc by (simp add: image_set_diff)
  obtain hn where hn: "h a = Some hn" "nd_next hn = first_ptr (map fst vs) None"
    using rep_next [OF heaps_rep [OF h(1)] h(2)] by blast
  have call_ids: "call_ids (cs_heap st) (cs_calls st) = Some (map snd cs)"
    by (rule call_ids_heaps [OF heaps_node_id [OF cs(1)] cs(2)])
  obtain longest where longest: "(if computePartial then do {
         seq \<leftarrow> call_ids (cs_heap st) (cs_calls st);
         update_longest (cs_heap st) (cs_allocs st, seq) (length (cs_calls st)) (cs_calls st) (cs_longest st)
       } else Some (cs_longest st)) = Some longest" "length longest = n" "longest_ok P longest"
    using update_longest_heaps [OF heaps_node_id [OF cs(1)] cs(2) _ long(2), where l = "map snd cs" and p = "cs_allocs st"
        and m = "length (cs_calls st)"] P ids long
    by (cases computePartial) (auto simp: call_ids cs(3))
  let ?st = "st\<lparr>cs_heap := h, cs_entry := nd_next hn, cs_linearized := b,
         cs_calls := sc, cs_longest := longest, cs_state := cl_state ct, cs_allocs := Suc (cs_allocs st)\<rparr>"
  have "cs_pop computePartial st = Some ?st"
    unfolding cs_pop_def longest(1) using en b(1) h(6) hn(1) i(1) sc by (simp add: to_uint_def)
  moreover have after: "after_op i (rem_entries es (fst ` set kc)) = map snd vs"
    unfolding h(5) using h(2-4) rem_pairs_snd [of es "fst ` set kc"] L
    by (intro after_op_split [OF wf, where us = "map snd us"]) auto
  have "sim P es n ?st (srch_pop es k)"
    unfolding sim_def
  proof (intro conjI)
    show "\<exists>cs. heaps es cs (cs_heap ?st) \<and> map cl_entry (cs_calls ?st) = map fst cs
        \<and> map fst (k_calls (srch_pop es k)) = map snd cs"
      using h(1) sc(3) cs'(2) by (intro exI [of _ cs']) (simp add: srch_pop_def kc)
    show "\<exists>us vs. rem_pairs es (lin_ids (srch_pop es k)) = us @ vs
        \<and> map snd vs = k_rest (srch_pop es k) \<and> cs_entry ?st = first_ptr (map fst vs) None"
      using h(2) hn(2) after L by (intro exI [of _ "us @ [(a, e)]"] exI [of _ vs]) (simp add: srch_pop_def kc)
  qed (use sim b(2) bits' longest sc(1) kc in \<open>simp_all add: srch_pop_def sim_def\<close>)
  ultimately show ?thesis by blast
qed

lemma sim_split:
  assumes sim: "sim P es n st k" and inv: "srch_inv stp es n s0 k" and rest: "k_rest k = e # r"
  obtains us a vs where "rem_pairs es (lin_ids k) = us @ (a, e) # vs" and "map snd vs = r" and "cs_entry st = Some a"
    and "\<forall>x\<in>set us. ent_kind (snd x) = callEntry"
proof -
  obtain us a vs where eq: "rem_pairs es (lin_ids k) = us @ (a, e) # vs" "map snd vs = r" "cs_entry st = Some a"
    by (rule sim_entry [OF sim rest])
  obtain us' where us': "rem_entries es (lin_ids k) = us' @ k_rest k" "\<forall>x\<in>set us'. ent_kind x = callEntry"
    using inv unfolding srch_inv_def by blast
  moreover have "rem_entries es (lin_ids k) = map snd us @ k_rest k"
    using rem_pairs_snd [of es "lin_ids k"] eq rest by simp
  ultimately have "us' = map snd us" by simp
  with us'(2) eq that show ?thesis by simp
qed

lemma sim_call:
  assumes wf: "wf_history es n" and sim: "sim P es n st k" and inv: "srch_inv stp es n s0 k"
    and rest: "k_rest k = e # r" and call: "ent_kind e = callEntry"
    and stp: "stp (k_state k) (fst (io_at es (ent_id e))) (snd (io_at es (ent_id e))) = Some (ok, s')"
  shows "\<exists>st'. cs_body stp eqf computePartial False (length es) st = Some (Inl st')
      \<and> sim P es n st' (if ok \<and> \<not> srch_visited eqf (k_cache k) (insert (ent_id e) (lin_ids k)) s'
                       then srch_push es (ent_id e) s' k else k\<lparr>k_rest := r\<rparr>)"
proof -
  obtain us a vs where eq: "rem_pairs es (lin_ids k) = us @ (a, e) # vs" and vs: "map snd vs = r"
    and entry: "cs_entry st = Some a" and us: "\<forall>x\<in>set us. ent_kind (snd x) = callEntry"
    by (rule sim_split [OF sim inv rest])
  from sim_rep [OF sim] have nodes: "nodes_ok (static (cs_heap st)) es" by (simp add: rep_def)
  from rem_pairs_match [OF wf nodes eq call] obtain b m vs1 vs2 where m: "vs = vs1 @ (b, m) # vs2"
    "key m = (returnEntry, ent_id e)" "static (cs_heap st) a = Some (Some (ent_value e), Some b, ent_id e)"
    "static (cs_heap st) b = Some (Some (ent_value m), None, ent_id m)" by blast
  from m(3,4) obtain en mn where en: "cs_heap st a = Some en" "nd_value en = Some (ent_value e)" "nd_match en = Some b"
    "nd_id en = ent_id e" and mn: "cs_heap st b = Some mn" "nd_value mn = Some (ent_value m)"
    by (auto dest!: static_SomeD)
  have "(a, e) \<in> set (rem_pairs es (lin_ids k))" "(b, m) \<in> set (rem_pairs es (lin_ids k))" using eq m(1) by auto
  then have mem: "e \<in> set es" "m \<in> set es" by (auto simp: rem_pairs_mem dest: pairs_memD)
  have io: "io_at es (ent_id e) = (ent_value e, ent_value m)"
    using wf_value_at [OF wf mem(1)] wf_value_at [OF wf mem(2)] m(2) call by (simp add: io_at_def)
  have id: "0 \<le> ent_id e" "nat (ent_id e) < n" using wf_id_range [OF wf mem(1)] by auto
  from sim have cap: "bitset_cap n (cs_linearized st)" and bits: "int ` bits_of (cs_linearized st) = lin_ids k"
    and cache: "cache_rel n (cs_cache st) (k_cache k)" and state: "cs_state st = k_state k" unfolding sim_def by auto
  from bs.add_ex [OF cap id(2)] obtain c where c: "bitset_set (cs_linearized st) (nat (ent_id e)) = Some c"
    "bitset_cap n c" "bits_of c = insert (nat (ent_id e)) (bits_of (cs_linearized st))" by blast
  have "int ` bits_of c = insert (ent_id e) (lin_ids k)" using c(3) bits id by simp
  with cacheContains_visited [OF cache c(2), of eqf s']
  have visited: "cacheContains eqf (cs_cache st) \<lparr>ce_linearized = c, ce_state = s'\<rparr>
      \<longleftrightarrow> srch_visited eqf (k_cache k) (insert (ent_id e) (lin_ids k)) s'" by simp
  note skip = sim_skip [OF sim eq vs en(1)]
  from sim_push [OF wf sim eq us call en(1,4) c(1), of s'] obtain st' where
    push: "cs_push (length es) a en s' c st = Some st'" "sim P es n st' (srch_push es (ent_id e) s' k)" by blast
  have "cs_body stp eqf computePartial False (length es) st =
      Some (Inl (if ok \<and> \<not> srch_visited eqf (k_cache k) (insert (ent_id e) (lin_ids k)) s'
                 then st' else st\<lparr>cs_entry := nd_next en\<rparr>))"
    using entry en mn stp c(1) push(1) id by (simp add: cs_body_def deref_def to_uint_def io state visited)
  with push(2) skip show ?thesis by simp
qed

lemma sim_return:
  assumes wf: "wf_history es n" and sim: "sim P es n st k" and inv: "srch_inv stp es n s0 k"
    and rest: "k_rest k = e # r" and ret: "ent_kind e = returnEntry"
  shows "cs_body stp eqf computePartial False (length es) st =
      (if k_calls k = [] then Some (Inr (False, cs_longest st)) else map_option Inl (cs_pop computePartial st))"
proof -
  obtain us a vs where eq: "rem_pairs es (lin_ids k) = us @ (a, e) # vs" and entry: "cs_entry st = Some a"
    by (rule sim_split [OF sim inv rest])
  from sim_rep [OF sim] have nodes: "nodes_ok (static (cs_heap st)) es" by (simp add: rep_def)
  have "(a, e) \<in> set (rem_pairs es (lin_ids k))" using eq by simp
  then have "(a, e) \<in> set (pairs es)" by (simp add: rem_pairs_mem)
  from node_static(1) [OF wf nodes this ret] obtain en where "cs_heap st a = Some en" "nd_match en = None"
    by (auto dest!: static_SomeD)
  moreover have "cs_calls st = [] \<longleftrightarrow> k_calls k = []"
    using sim unfolding sim_def by (metis map_is_Nil_conv)
  ultimately show ?thesis using entry by (simp add: cs_body_def)
qed

section \<open>Linearizable prefixes\<close>

text \<open>
  A linearizable prefix is a sequence of operations the model accepts, in an order that respects
  real time, and which contains every operation that returned before one of them was called.
\<close>

definition lin_prefix ::
  "('s \<Rightarrow> 'v \<Rightarrow> 'v \<Rightarrow> (bool \<times> 's) option) \<Rightarrow> 's \<Rightarrow> 'v entry list \<Rightarrow> int list \<Rightarrow> bool" where
  "lin_prefix step s es \<sigma> \<longleftrightarrow>
     linearizes step s es (set \<sigma>) \<sigma> \<and> set \<sigma> \<subseteq> ent_id ` set es \<and> (\<forall>i\<in>set \<sigma>. \<forall>j. ret_before es j i \<longrightarrow> j \<in> set \<sigma>)"

lemma stk_lin_prefix:
  assumes wf: "wf_history es n" and "stk step es s0 cs s K"
  shows "lin_prefix step s0 es (map fst cs)"
proof -
  have "distinct (map fst cs)" "run_steps step s0 (map (io_at es) (map fst cs)) \<noteq> None"
    using stk_run [OF assms] by auto
  moreover have "sorted_wrt (\<lambda>i j. \<not> ret_before es j i) (map fst cs)
      \<and> fst ` set cs \<subseteq> ent_id ` set es \<and> (\<forall>i\<in>fst ` set cs. \<forall>j. ret_before es j i \<longrightarrow> j \<in> fst ` set cs)"
    using assms(2)
  proof (induction rule: stk.induct)
    case (stk_snoc cs s K L us e vs s')
    have "e \<in> set (candidates es L)" unfolding candidates_split using stk_snoc.hyps(3-5) by blast
    from candidate_not_preceded [OF wf this] have "\<forall>j. ret_before es j (ent_id e) \<longrightarrow> j \<in> L" by blast
    moreover have "ent_id e \<notin> L" "e \<in> set es" using stk_snoc.hyps(3) rem_mem [of e es L] by auto
    ultimately show ?case using stk_snoc.IH stk_snoc.hyps(2) by (auto simp: sorted_wrt_append)
  qed simp
  ultimately show ?thesis by (simp add: lin_prefix_def linearizes_def)
qed

lemma srch_inv_prefix: "wf_history es n \<Longrightarrow> srch_inv step es n s0 k \<Longrightarrow> lin_prefix step s0 es (map fst (k_calls k))"
  unfolding srch_inv_def by (elim exE conjE) (rule stk_lin_prefix)

section \<open>The loop\<close>

lemma sim_finish:
  assumes wf: "wf_history es n" and sim: "sim P es n st k" and P: "P (map fst (k_calls k))"
    and empty: "rem_entries es (lin_ids k) = []"
  shows "\<exists>longest. cs_finish st = Some (True, longest) \<and> length longest = n \<and> longest_ok P longest"
proof -
  from sim obtain cs where cs: "heaps es cs (cs_heap st)" "map cl_entry (cs_calls st) = map fst cs"
    "map fst (k_calls k) = map snd cs" and len: "length (cs_longest st) = n" unfolding sim_def by blast
  have "{0..<int n} \<subseteq> lin_ids k" using rem_Nil_iff [OF wf] empty by blast
  then have "{0..<int n} \<subseteq> set (map snd cs)" using cs(3) by (metis list.set_map)
  then have "longest_ok P (replicate n (Some (cs_allocs st, map snd cs)))"
    using P cs(3) by (auto simp: longest_ok_def)
  with call_ids_heaps [OF heaps_node_id [OF cs(1)] cs(2)] len show ?thesis by (simp add: cs_finish_def)
qed

lemma sim_step:
  assumes wf: "wf_history es n" and sim: "sim P es n st k" and inv: "srch_inv stp es n s0 k"
    and P: "P (map fst (k_calls k))" and stp: "srch_step stp eqf es k = Some x"
    and more: "rem_entries es (lin_ids k) \<noteq> []"
  shows "case x of
      Inr b \<Rightarrow> \<not> b \<and> cs_body stp eqf computePartial False (length es) st = Some (Inr (False, cs_longest st))
    | Inl k' \<Rightarrow> \<exists>st'. cs_body stp eqf computePartial False (length es) st = Some (Inl st') \<and> sim P es n st' k'"
proof -
  from stp more obtain e r where rest: "k_rest k = e # r" by (auto simp: srch_step_def split: list.splits)
  show ?thesis
  proof (cases "ent_kind e")
    case callEntry
    with stp more rest obtain ok s' where
      s': "stp (k_state k) (fst (io_at es (ent_id e))) (snd (io_at es (ent_id e))) = Some (ok, s')"
      by (auto simp: srch_step_def split: option.splits)
    from sim_call [OF wf sim inv rest callEntry this, of eqf computePartial] stp more rest callEntry s'
    show ?thesis by (auto simp: srch_step_def split: if_splits)
  next
    case returnEntry
    from sim_return [OF wf sim inv rest returnEntry, of eqf computePartial] sim_pop [OF wf sim _ P, of computePartial]
      stp more rest returnEntry
    show ?thesis by (auto simp: srch_step_def split: if_splits)
  qed
qed

text \<open>
  What the loop returns: \<open>True\<close> only if the configuration can be completed, and \<open>False\<close> only if it
  cannot or the kill flag was set.
\<close>

definition loop_result ::
  "(int list \<Rightarrow> bool) \<Rightarrow> nat \<Rightarrow> (nat \<Rightarrow> bool) \<Rightarrow> bool \<Rightarrow> (bool \<times> seq_ptr option list) option \<Rightarrow> bool" where
  "loop_result P n kill c res \<longleftrightarrow>
     (\<exists>b longest. res = Some (b, longest) \<and> (b \<longrightarrow> c) \<and> ((\<forall>i. \<not> kill i) \<longrightarrow> b = c)
        \<and> length longest = n \<and> longest_ok P longest)"

lemma sim_start:
  assumes wf: "wf_history es n"
  shows "\<exists>st. cs_start s0 es = Some st \<and> sim P es n st (srch_init s0 es)"
proof -
  let ?as = "map fst (pairs es)"
  let ?nd = "\<lparr>nd_value = None, nd_match = None, nd_id = -1, nd_next = None, nd_prev = None\<rparr>"
  from makeLinkedEntries_correct [of es] obtain h where h: "makeLinkedEntries es = Some (first_ptr ?as None, h)"
    "dl h None ?as None" "nodes_ok (static h) es" by blast
  have fresh: "length es \<notin> set ?as" using rem_pairs_bound [of "length es" es "{}"] by auto
  have d: "distinct ?as" using rem_pairs_distinct [of es "{}"] by simp
  let ?h = "h(length es \<mapsto> ?nd)"
  have "dl ?h None ?as None" using h(2) fresh by (simp add: dl_upd)
  from insertBefore_front [OF this fresh d, of ?nd] obtain h' where h': "insertBefore (length es) (first_ptr ?as None) ?h = Some h'"
    "dl h' None (length es # ?as) None" "static h' = static ?h" by auto
  have "nodes_ok (static ?h) es = nodes_ok (static h) es" by (rule nodes_ok_cong) (simp add: static_def)
  then have "nodes_ok (static h') es" using h(3) by (simp only: h'(3))
  then have rep: "rep es {} h'" using h'(2) by (simp add: rep_def)
  have n: "length es div 2 = n" using wf_length [OF wf] by simp
  let ?st = "\<lparr>cs_heap = h', cs_entry = first_ptr ?as None, cs_linearized = newBitset n, cs_cache = Map.empty,
      cs_calls = [], cs_longest = replicate n None, cs_state = s0, cs_allocs = 0\<rparr>"
  have "cs_start s0 es = Some ?st"
    using h(1) h'(1) node_length_makeLinked [OF h(2)] n by (simp add: cs_start_def Let_def)
  moreover have "sim P es n ?st (srch_init s0 es)"
    unfolding sim_def
  proof (intro conjI)
    show "\<exists>us vs. rem_pairs es (lin_ids (srch_init s0 es)) = us @ vs \<and> map snd vs = k_rest (srch_init s0 es)
        \<and> cs_entry ?st = first_ptr (map fst vs) None"
      using rem_pairs_snd [of es "{}"] by (intro exI [of _ "[]"] exI [of _ "pairs es"]) (simp add: srch_init_def)
  qed (use rep in \<open>auto simp: srch_init_def cache_rel_empty longest_ok_def bs.cap_empty intro: heaps_Nil\<close>)
  ultimately show ?thesis by blast
qed

context seq_model
begin

lemma checkLoop_correct:
  assumes wf: "wf_history es n" and vals: "vals_ok in_ok out_ok es"
    and P: "\<And>k. srch_inv step es n s0 k \<Longrightarrow> P (map fst (k_calls k))"
  shows "srch_inv step es n s0 k \<Longrightarrow> sim P es n st k \<Longrightarrow>
    loop_result P n kill (completable step es {} s0) (checkLoop step eqs computePartial kill (length es) i st)"
proof (induction k arbitrary: st i rule: wf_induct_rule [OF wf_srch_rel [of "reach_configs step es n s0"]])
  case (1 k)
  let ?body = "cs_body step eqs computePartial False (length es) st"
  from sim_done [OF 1(3)] obtain hn where hn: "cs_heap st (length es) = Some hn"
    "nd_next hn = None \<longleftrightarrow> rem_entries es (lin_ids k) = []" by (elim exE conjE)
  from srch_progress [OF wf vals 1(2)] obtain x where x: "srch_step step eqs es k = Some x"
    "case x of Inr b \<Rightarrow> b = completable step es {} s0
       | Inl k' \<Rightarrow> srch_inv step es n s0 k' \<and> (k', k) \<in> srch_rel (reach_configs step es n s0)"
    by (cases "srch_step step eqs es k") auto
  have unfold: "checkLoop step eqs computePartial kill (length es) i st =
      (if nd_next hn = None then cs_finish st
       else case cs_body step eqs computePartial (kill i) (length es) st of
           None \<Rightarrow> None | Some (Inr r) \<Rightarrow> Some r
         | Some (Inl st') \<Rightarrow> checkLoop step eqs computePartial kill (length es) (Suc i) st')"
    by (subst checkLoop.simps) (simp only: hn(1) option.case)
  have longest: "length (cs_longest st) = n" "longest_ok P (cs_longest st)" using 1(3) by (auto simp: sim_def)
  consider (finish) "rem_entries es (lin_ids k) = []" | (killed) "nd_next hn \<noteq> None" "kill i"
    | (go) "rem_entries es (lin_ids k) \<noteq> []" "nd_next hn \<noteq> None" "\<not> kill i" using hn(2) by blast
  then show ?case
  proof cases
    case finish
    with x have "completable step es {} s0" by (auto simp: srch_step_def)
    with finish hn(2) sim_finish [where P = P, OF wf 1(3) P [OF 1(2)] finish] show ?thesis
      unfolding unfold loop_result_def by auto
  next
    case killed
    with longest show ?thesis unfolding unfold loop_result_def by (auto simp: cs_body_def)
  next
    case go
    note body = sim_step [where P = P, OF wf 1(3,2) P [OF 1(2)] x(1) go(1), of computePartial]
    show ?thesis
    proof (cases x)
      case (Inl k')
      with body obtain st' where st': "?body = Some (Inl st')" "sim P es n st' k'" by auto
      with 1(1) [of k' st' "Suc i"] Inl x(2) go show ?thesis unfolding unfold by auto
    next
      case (Inr b)
      with body x(2) go longest show ?thesis unfolding unfold loop_result_def by auto
    qed
  qed
qed

text \<open>The answer of \<open>checkSingle\<close> and the linearizations it reports.\<close>

lemma checkSingle_correct:
  assumes wf: "wf_history es n" and vals: "vals_ok in_ok out_ok es" and "Step model = step" and "Equal model = Some eqs"
  shows "loop_result (lin_prefix step (Init model) es) n kill (\<exists>\<sigma>. linearizes step (Init model) es {0..<int n} \<sigma>)
           (checkSingle model es computePartial kill)"
proof -
  from sim_start [OF wf, of "Init model" "lin_prefix step (Init model) es"] obtain st where
    st: "cs_start (Init model) es = Some st" "sim (lin_prefix step (Init model) es) es n st (srch_init (Init model) es)"
    by blast
  from checkLoop_correct [OF wf vals srch_inv_prefix [OF wf] srch_inv_init st(2)] assms(3,4) st(1)
    completable_iff_linearizable [OF wf, of step "Init model"]
  show ?thesis by (simp add: checkSingle_def)
qed

end

end
