(* ===== verification/Porcupine_Parallel.thy ===== *)
theory Porcupine_Parallel
  imports Porcupine_Correct
begin

text \<open>
  The entry points of the checker: \<open>checkParallel\<close>, \<open>checkOperations\<close> and \<open>checkEvents\<close> of
  \<open>porcupine/checker.go\<close> and the exported functions of \<open>porcupine/porcupine.go\<close>.

  \<open>checkParallel\<close> starts one goroutine per partition and waits on two channels. A run of it is
  determined by the sequence of choices its \<open>select\<close> makes (\<open>sel\<close>) and by what the goroutines
  read from the shared kill flag. The flag is stored only where the loop is left, so a goroutine
  whose result the loop receives has read 0 throughout; \<open>kills i\<close> is what the goroutine of
  partition \<open>i\<close> reads when its result is received later. A schedule that runs out before the
  loop is left is a call that blocks, and gives \<open>None\<close>.

  The first section connects operations with entries: \<open>makeEntries\<close> produces a well-formed
  history whose linearizations are those of the operations.
\<close>

section \<open>From operations to entries\<close>

lemma byTime_weak_order: "weak_order byTime_Less"
  unfolding weak_order_def byTime_Less_def by (auto split: if_splits) (metis entryKind.exhaust)+

lemma entries_of_mem:
  "e \<in> set (entries_of i ops) \<longleftrightarrow> (\<exists>j<length ops. ent_id e = i + int j \<and> (
     e = \<lparr>ent_kind = callEntry, ent_value = Input (ops ! j), ent_id = i + int j, ent_time = Call (ops ! j), ent_clientId = ClientId (ops ! j)\<rparr>
   \<or> e = \<lparr>ent_kind = returnEntry, ent_value = Output (ops ! j), ent_id = i + int j, ent_time = Return (ops ! j), ent_clientId = ClientId (ops ! j)\<rparr>))"
proof (induction ops arbitrary: i)
  case (Cons a ops)
  show ?case
    unfolding entries_of.simps length_Cons Ex_less_Suc2 using Cons.IH [of "i + 1"]
    by (auto simp: algebra_simps)
qed simp

lemma entries_of_key_ge: "e \<in> set (entries_of i ops) \<Longrightarrow> i \<le> ent_id e"
  by (auto simp: entries_of_mem)

lemma entries_of_distinct: "distinct (map key (entries_of i ops))"
proof (induction ops arbitrary: i)
  case (Cons a ops)
  have "(k, i) \<notin> key ` set (entries_of (i + 1) ops)" for k
    using entries_of_key_ge [of _ "i + 1" ops] by force
  with Cons show ?case by simp
qed simp

lemma entries_of_keys: "key ` set (entries_of i ops) = {callEntry, returnEntry} \<times> {i..<i + int (length ops)}"
proof (induction ops arbitrary: i)
  case (Cons a ops)
  have "{i..<i + int (length (a # ops))} = insert i {i + 1..<i + 1 + int (length ops)}" by auto
  with Cons [of "i + 1"] show ?case by auto
qed auto

lemma calls_first_intro:
  "(\<And>us r vs. es = us @ r # vs \<Longrightarrow> ent_kind r = returnEntry \<Longrightarrow>
      ent_id r \<in> S \<or> (\<exists>c\<in>set us. key c = (callEntry, ent_id r))) \<Longrightarrow> calls_first S es"
proof (induction es arbitrary: S)
  case (Cons e es)
  show ?case
  proof (cases "ent_kind e")
    case callEntry
    have "calls_first (insert (ent_id e) S) es"
    proof (rule Cons.IH)
      fix us r vs assume "es = us @ r # vs" "ent_kind r = returnEntry"
      with Cons.prems [of "e # us" r vs] show "ent_id r \<in> insert (ent_id e) S \<or> (\<exists>c\<in>set us. key c = (callEntry, ent_id r))"
        by auto
    qed
    with callEntry show ?thesis by simp
  next
    case returnEntry
    have "ent_id e \<in> S" using Cons.prems [of "[]" e es] returnEntry by simp
    moreover have "calls_first S es"
    proof (rule Cons.IH)
      fix us r vs assume "es = us @ r # vs" "ent_kind r = returnEntry"
      with Cons.prems [of "e # us" r vs] returnEntry show "ent_id r \<in> S \<or> (\<exists>c\<in>set us. key c = (callEntry, ent_id r))"
        by auto
    qed
    ultimately show ?thesis using returnEntry by simp
  qed
qed simp

lemma sorted_wrt_subseq: "sorted_wrt P xs \<Longrightarrow> subseq [a, b] xs \<Longrightarrow> P a b"
  by (auto simp: subseq_pair sorted_wrt_append)

lemma subseq_total: "a \<in> set xs \<Longrightarrow> b \<in> set xs \<Longrightarrow> a \<noteq> b \<Longrightarrow> subseq [a, b] xs \<or> subseq [b, a] xs"
proof (induction xs)
  case (Cons x xs)
  then consider "a = x" "b \<in> set xs" | "b = x" "a \<in> set xs" | "a \<in> set xs" "b \<in> set xs" by auto
  then show ?case
  proof cases
    case 3
    with Cons.IH Cons.prems(3) show ?thesis by (meson list_emb_Cons)
  qed (use Cons.prems(3) in \<open>auto simp: subseq_singleton_left\<close>)
qed simp

lemma sorted_wrt_cong: "(\<And>x y. x \<in> set xs \<Longrightarrow> y \<in> set xs \<Longrightarrow> P x y = Q x y) \<Longrightarrow> sorted_wrt P xs = sorted_wrt Q xs"
  by (induction xs) auto

definition ops_ok :: "'v Operation list \<Rightarrow> bool" where
  "ops_ok ops \<longleftrightarrow> (\<forall>a\<in>set ops. Call a \<le> Return a)"

text \<open>The laws of \<open>makeEntries\<close>, for every sorting function with the contract of \<open>sort.Sort\<close>.\<close>

locale entry_sort = go_sort byTime_Less srt for srt :: "'v entry list \<Rightarrow> 'v entry list"
begin

lemma makeEntries_mem [simp]: "set (makeEntries srt ops) = set (entries_of 0 ops)"
  by (simp add: makeEntries_def)

lemma makeEntries_before:
  assumes "e \<in> set (makeEntries srt ops)" and "f \<in> set (makeEntries srt ops)" and "byTime_Less e f"
  shows "subseq [e, f] (makeEntries srt ops)"
proof -
  have "e \<noteq> f" using assms(3) by (auto simp: byTime_Less_def)
  with subseq_total [OF assms(1,2)] sorted_wrt_subseq [OF srt_ordered [of "entries_of 0 ops"], of f e] assms(3)
  show ?thesis by (auto simp: makeEntries_def)
qed

lemma makeEntries_distinct: "distinct (map key (makeEntries srt ops))"
  using entries_of_distinct by (simp add: makeEntries_def srt_distinct_map)

lemma makeEntries_calls_first:
  assumes "ops_ok ops"
  shows "calls_first {} (makeEntries srt ops)"
proof (rule calls_first_intro)
  fix us r vs assume es: "makeEntries srt ops = us @ r # vs" and ret: "ent_kind r = returnEntry"
  have r: "r \<in> set (makeEntries srt ops)" using es by simp
  then obtain j where j: "j < length ops" "ent_id r = int j" "ent_time r = Return (ops ! j)"
    using ret by (auto simp: entries_of_mem)
  let ?c = "\<lparr>ent_kind = callEntry, ent_value = Input (ops ! j), ent_id = int j, ent_time = Call (ops ! j),
      ent_clientId = ClientId (ops ! j)\<rparr>"
  have c: "?c \<in> set (makeEntries srt ops)" using j(1) by (auto simp: entries_of_mem)
  have "Call (ops ! j) \<le> Return (ops ! j)" using assms j(1) by (auto simp: ops_ok_def)
  then have "byTime_Less ?c r" using j ret by (auto simp: byTime_Less_def)
  from makeEntries_before [OF c r this] have "?c \<in> set us"
    using makeEntries_distinct [of ops] unfolding es by (subst (asm) subseq_pair_before) (auto simp: distinct_map)
  with j(2) show "ent_id r \<in> {} \<or> (\<exists>c\<in>set us. key c = (callEntry, ent_id r))" by force
qed

lemma makeEntries_wf: "ops_ok ops \<Longrightarrow> wf_history (makeEntries srt ops) (length ops)"
  unfolding wf_history_def using makeEntries_distinct makeEntries_calls_first entries_of_keys [of 0 ops]
  by simp

lemma makeEntries_io:
  assumes "ops_ok ops" and "i < length ops"
  shows "io_at (makeEntries srt ops) (int i) = io_of (ops ! i)"
proof -
  let ?c = "\<lparr>ent_kind = callEntry, ent_value = Input (ops ! i), ent_id = int i, ent_time = Call (ops ! i), ent_clientId = ClientId (ops ! i)\<rparr>"
  let ?r = "\<lparr>ent_kind = returnEntry, ent_value = Output (ops ! i), ent_id = int i, ent_time = Return (ops ! i), ent_clientId = ClientId (ops ! i)\<rparr>"
  have "?c \<in> set (makeEntries srt ops)" "?r \<in> set (makeEntries srt ops)" using assms(2) by (auto simp: entries_of_mem)
  from this [THEN wf_value_at [OF makeEntries_wf [OF assms(1)]]] show ?thesis by (simp add: io_at_def io_of_def)
qed

lemma makeEntries_ret_before:
  assumes "i < length ops" and "j < length ops"
  shows "ret_before (makeEntries srt ops) (int i) (int j) \<longleftrightarrow> Return (ops ! i) < Call (ops ! j)"
proof
  assume "ret_before (makeEntries srt ops) (int i) (int j)"
  then obtain r c where rc: "subseq [r, c] (makeEntries srt ops)" "key r = (returnEntry, int i)" "key c = (callEntry, int j)"
    by (auto simp: ret_before_def)
  then have "r \<in> set (makeEntries srt ops)" "c \<in> set (makeEntries srt ops)"
    by (auto simp: subseq_pair simp del: makeEntries_mem)
  with rc have "ent_time r = Return (ops ! i)" "ent_time c = Call (ops ! j)" by (auto simp: entries_of_mem)
  moreover have "\<not> byTime_Less c r"
    using sorted_wrt_subseq [OF srt_ordered] rc(1) by (simp add: makeEntries_def)
  ultimately show "Return (ops ! i) < Call (ops ! j)" using rc(2,3) by (auto simp: byTime_Less_def split: if_splits)
next
  assume lt: "Return (ops ! i) < Call (ops ! j)"
  let ?c = "\<lparr>ent_kind = callEntry, ent_value = Input (ops ! j), ent_id = int j, ent_time = Call (ops ! j), ent_clientId = ClientId (ops ! j)\<rparr>"
  let ?r = "\<lparr>ent_kind = returnEntry, ent_value = Output (ops ! i), ent_id = int i, ent_time = Return (ops ! i), ent_clientId = ClientId (ops ! i)\<rparr>"
  have "?c \<in> set (makeEntries srt ops)" "?r \<in> set (makeEntries srt ops)" using assms by (auto simp: entries_of_mem)
  then have "subseq [?r, ?c] (makeEntries srt ops)" using lt by (intro makeEntries_before) (auto simp: byTime_Less_def)
  then show "ret_before (makeEntries srt ops) (int i) (int j)" unfolding ret_before_def by force
qed

lemma makeEntries_linearizes:
  assumes ok: "ops_ok ops" and \<sigma>: "set \<sigma> = {..<length ops}"
  shows "linearizes step s (makeEntries srt ops) {0..<int (length ops)} (map int \<sigma>) \<longleftrightarrow>
    distinct \<sigma> \<and> run_steps step s (map (\<lambda>i. io_of (ops ! i)) \<sigma>) \<noteq> None
      \<and> sorted_wrt (\<lambda>i j. \<not> Return (ops ! j) < Call (ops ! i)) \<sigma>"
proof -
  have "int ` {..<length ops} = {0..<int (length ops)}" by (auto simp: image_int_atLeastLessThan lessThan_atLeast0)
  moreover have "map (io_at (makeEntries srt ops)) (map int \<sigma>) = map (\<lambda>i. io_of (ops ! i)) \<sigma>"
    using makeEntries_io [OF ok] \<sigma> by auto
  moreover have "sorted_wrt (\<lambda>i j. \<not> ret_before (makeEntries srt ops) j i) (map int \<sigma>)
      = sorted_wrt (\<lambda>i j. \<not> Return (ops ! j) < Call (ops ! i)) \<sigma>"
    unfolding sorted_wrt_map using makeEntries_ret_before \<sigma> by (intro sorted_wrt_cong) auto
  ultimately show ?thesis by (simp only: linearizes_def set_map \<sigma> distinct_map) (auto simp: inj_on_def)
qed

lemma makeEntries_linearizable:
  assumes "ops_ok ops"
  shows "(\<exists>\<sigma>. linearizes step s (makeEntries srt ops) {0..<int (length ops)} \<sigma>) \<longleftrightarrow> linearizable_ops step s ops"
proof
  assume "\<exists>\<sigma>. linearizes step s (makeEntries srt ops) {0..<int (length ops)} \<sigma>"
  then obtain \<sigma> where lin: "linearizes step s (makeEntries srt ops) {0..<int (length ops)} \<sigma>" by blast
  then have set: "set \<sigma> = {0..<int (length ops)}" by (simp add: linearizes_def)
  then have map: "\<sigma> = map int (map nat \<sigma>)" by (auto simp: comp_def intro!: map_idI [symmetric])
  have nat: "set (map nat \<sigma>) = {..<length ops}" unfolding set_map set
    by (auto simp: image_iff intro!: bexI [of _ "int _"])
  from lin have "linearizes step s (makeEntries srt ops) {0..<int (length ops)} (map int (map nat \<sigma>))"
    using map by simp
  then show "linearizable_ops step s ops"
    unfolding makeEntries_linearizes [OF assms nat] linearizable_ops_def using nat by blast
next
  assume "linearizable_ops step s ops"
  then obtain \<sigma> where \<sigma>: "set \<sigma> = {..<length ops}" "distinct \<sigma>" "run_steps step s (map (\<lambda>i. io_of (ops ! i)) \<sigma>) \<noteq> None"
      "sorted_wrt (\<lambda>i j. \<not> Return (ops ! j) < Call (ops ! i)) \<sigma>" by (auto simp: linearizable_ops_def)
  then show "\<exists>\<sigma>. linearizes step s (makeEntries srt ops) {0..<int (length ops)} \<sigma>"
    using makeEntries_linearizes [OF assms \<sigma>(1), of step s] by blast
qed

end

interpretation bt: entry_sort "insertionSort byTime_Less"
  by unfold_locales (use insertionSort_go_sort [OF byTime_weak_order] in \<open>auto simp: go_sort_def\<close>)

section \<open>Checking the partitions in parallel\<close>

record 'v linearizationInfo =
  li_history :: "'v entry list list"
  li_partialLinearizations :: "int list list list"

text \<open>
  One choice of the \<open>select\<close>: the result of the goroutine of partition \<open>i\<close>, or the timeout.
\<close>

datatype sel = Recv nat | TimeoutSel

fun par_loop ::
  "(nat \<Rightarrow> (bool \<times> 'l) option) \<Rightarrow> bool \<Rightarrow> nat \<Rightarrow> sel list \<Rightarrow> nat \<Rightarrow> bool \<Rightarrow> (nat \<rightharpoonup> 'l)
     \<Rightarrow> (bool \<times> bool \<times> (nat \<rightharpoonup> 'l)) option" where
  "par_loop check computeInfo n [] cnt ok longest = None"
| "par_loop check computeInfo n (TimeoutSel # sched) cnt ok longest = Some (ok, True, longest)"
| "par_loop check computeInfo n (Recv i # sched) cnt ok longest = do {
     (result, l) \<leftarrow> check i;
     let longest = longest(i \<mapsto> l);
     let cnt = cnt + 1;
     let ok = (ok \<and> result);
     (if \<not> ok \<and> \<not> computeInfo then Some (ok, False, longest)
      else if cnt \<ge> n then Some (ok, False, longest)
      else par_loop check computeInfo n sched cnt ok longest)
   }"

text \<open>
  The distinct pointers of \<open>longest[i]\<close> and the slices they point to; \<open>rng\<close> is the order in which
  \<open>range\<close> visits a map, which Go leaves open.
\<close>

definition partials_of :: "(seq_ptr list \<Rightarrow> seq_ptr list) \<Rightarrow> seq_ptr option list \<Rightarrow> int list list" where
  "partials_of rng longest = map snd (rng (remdups (map the (filter (\<lambda>v. v \<noteq> None) longest))))"

fun wait_rest ::
  "(nat \<Rightarrow> (bool \<times> 'l) option) \<Rightarrow> (nat \<rightharpoonup> 'l) \<Rightarrow> nat list \<Rightarrow> 'l list option" where
  "wait_rest check longest [] = Some []"
| "wait_rest check longest (i # is) = do {
     l \<leftarrow> (case longest i of Some l \<Rightarrow> Some l | None \<Rightarrow> map_option snd (check i));
     ls \<leftarrow> wait_rest check longest is;
     Some (l # ls)
   }"

definition check_result :: "bool \<Rightarrow> bool \<Rightarrow> CheckResult" where
  "check_result ok timedOut = (if \<not> ok then Illegal else if timedOut then Unknown else Ok)"

definition checkParallel ::
  "('s, 'v) Model \<Rightarrow> 'v entry list list \<Rightarrow> bool \<Rightarrow> sel list \<Rightarrow> (nat \<Rightarrow> nat \<Rightarrow> bool)
     \<Rightarrow> (seq_ptr list \<Rightarrow> seq_ptr list) \<Rightarrow> (CheckResult \<times> 'v linearizationInfo) option" where
  "checkParallel model history computeInfo sched kills rng = do {
     (ok, timedOut, longest) \<leftarrow>
       par_loop (\<lambda>i. checkSingle model (history ! i) computeInfo (\<lambda>_. False)) computeInfo (length history) sched 0 True Map.empty;
     info \<leftarrow> (if computeInfo then do {
         ls \<leftarrow> wait_rest (\<lambda>i. checkSingle model (history ! i) computeInfo (kills i)) longest [0..<length history];
         Some \<lparr>li_history = history, li_partialLinearizations = map (partials_of rng) ls\<rparr>
       } else Some \<lparr>li_history = [], li_partialLinearizations = []\<rparr>);
     Some (check_result ok timedOut, info)
   }"

text \<open>
  The runs a scheduler can produce: each goroutine delivers at most one result, the timeout fires
  only if one was asked for, and unless it fires every goroutine delivers its result in the end.
\<close>

fun recvs :: "sel list \<Rightarrow> nat list" where
  "recvs [] = []"
| "recvs (Recv i # s) = i # recvs s"
| "recvs (TimeoutSel # s) = recvs s"

definition sched_ok :: "nat \<Rightarrow> int \<Rightarrow> sel list \<Rightarrow> bool" where
  "sched_ok n timeout sched \<longleftrightarrow> distinct (recvs sched) \<and> set (recvs sched) \<subseteq> {..<n}
     \<and> (TimeoutSel \<in> set sched \<longrightarrow> timeout > 0) \<and> (TimeoutSel \<in> set sched \<or> set (recvs sched) = {..<n})"

definition checkEvents ::
  "('v \<Rightarrow> string) \<Rightarrow> ('s \<Rightarrow> string) \<Rightarrow> ('s, 'v) Model \<Rightarrow> 'v Event list \<Rightarrow> bool \<Rightarrow> sel list \<Rightarrow> (nat \<Rightarrow> nat \<Rightarrow> bool)
     \<Rightarrow> (seq_ptr list \<Rightarrow> seq_ptr list) \<Rightarrow> (CheckResult \<times> 'v linearizationInfo) option" where
  "checkEvents fmtv fmts model history verbose sched kills rng = do {
     let model = fillDefault fmtv fmts model;
     part \<leftarrow> PartitionEvent model;
     partitions \<leftarrow> part history;
     let l = map (\<lambda>subhistory. convertEntries (renumber subhistory)) partitions;
     checkParallel model l verbose sched kills rng
   }"

definition checkOperations ::
  "('v \<Rightarrow> string) \<Rightarrow> ('s \<Rightarrow> string) \<Rightarrow> ('v entry list \<Rightarrow> 'v entry list) \<Rightarrow> ('s, 'v) Model \<Rightarrow> 'v Operation list \<Rightarrow> bool
     \<Rightarrow> sel list \<Rightarrow> (nat \<Rightarrow> nat \<Rightarrow> bool) \<Rightarrow> (seq_ptr list \<Rightarrow> seq_ptr list) \<Rightarrow> (CheckResult \<times> 'v linearizationInfo) option" where
  "checkOperations fmtv fmts srt model history verbose sched kills rng = do {
     let model = fillDefault fmtv fmts model;
     part \<leftarrow> Partition model;
     partitions \<leftarrow> part history;
     let l = map (makeEntries srt) partitions;
     checkParallel model l verbose sched kills rng
   }"

section \<open>The exported functions\<close>

text \<open>
  A schedule stands for the timeout argument: \<open>sched_ok n timeout\<close> are the schedules of a call
  with that timeout, and \<open>CheckOperations\<close> is a call with timeout 0.
\<close>

definition CheckOperations ::
  "('v \<Rightarrow> string) \<Rightarrow> ('s \<Rightarrow> string) \<Rightarrow> ('v entry list \<Rightarrow> 'v entry list) \<Rightarrow> ('s, 'v) Model \<Rightarrow> 'v Operation list
     \<Rightarrow> sel list \<Rightarrow> (nat \<Rightarrow> nat \<Rightarrow> bool) \<Rightarrow> bool option" where
  "CheckOperations fmtv fmts srt model history sched kills =
     map_option (\<lambda>(res, _). res = Ok) (checkOperations fmtv fmts srt model history False sched kills id)"

definition CheckOperationsTimeout ::
  "('v \<Rightarrow> string) \<Rightarrow> ('s \<Rightarrow> string) \<Rightarrow> ('v entry list \<Rightarrow> 'v entry list) \<Rightarrow> ('s, 'v) Model \<Rightarrow> 'v Operation list
     \<Rightarrow> sel list \<Rightarrow> (nat \<Rightarrow> nat \<Rightarrow> bool) \<Rightarrow> CheckResult option" where
  "CheckOperationsTimeout fmtv fmts srt model history sched kills =
     map_option fst (checkOperations fmtv fmts srt model history False sched kills id)"

definition CheckOperationsVerbose ::
  "('v \<Rightarrow> string) \<Rightarrow> ('s \<Rightarrow> string) \<Rightarrow> ('v entry list \<Rightarrow> 'v entry list) \<Rightarrow> ('s, 'v) Model \<Rightarrow> 'v Operation list
     \<Rightarrow> sel list \<Rightarrow> (nat \<Rightarrow> nat \<Rightarrow> bool) \<Rightarrow> (seq_ptr list \<Rightarrow> seq_ptr list) \<Rightarrow> (CheckResult \<times> 'v linearizationInfo) option" where
  "CheckOperationsVerbose fmtv fmts srt model history sched kills rng =
     checkOperations fmtv fmts srt model history True sched kills rng"

definition CheckEvents ::
  "('v \<Rightarrow> string) \<Rightarrow> ('s \<Rightarrow> string) \<Rightarrow> ('s, 'v) Model \<Rightarrow> 'v Event list \<Rightarrow> sel list \<Rightarrow> (nat \<Rightarrow> nat \<Rightarrow> bool) \<Rightarrow> bool option" where
  "CheckEvents fmtv fmts model history sched kills =
     map_option (\<lambda>(res, _). res = Ok) (checkEvents fmtv fmts model history False sched kills id)"

definition CheckEventsTimeout ::
  "('v \<Rightarrow> string) \<Rightarrow> ('s \<Rightarrow> string) \<Rightarrow> ('s, 'v) Model \<Rightarrow> 'v Event list \<Rightarrow> sel list \<Rightarrow> (nat \<Rightarrow> nat \<Rightarrow> bool) \<Rightarrow> CheckResult option" where
  "CheckEventsTimeout fmtv fmts model history sched kills =
     map_option fst (checkEvents fmtv fmts model history False sched kills id)"

definition CheckEventsVerbose ::
  "('v \<Rightarrow> string) \<Rightarrow> ('s \<Rightarrow> string) \<Rightarrow> ('s, 'v) Model \<Rightarrow> 'v Event list \<Rightarrow> sel list \<Rightarrow> (nat \<Rightarrow> nat \<Rightarrow> bool)
     \<Rightarrow> (seq_ptr list \<Rightarrow> seq_ptr list) \<Rightarrow> (CheckResult \<times> 'v linearizationInfo) option" where
  "CheckEventsVerbose fmtv fmts model history sched kills rng =
     checkEvents fmtv fmts model history True sched kills rng"

section \<open>Correctness of the parallel check\<close>

text \<open>What the reported partial linearizations are: for each partition, linearizable prefixes of its history.\<close>

definition info_ok ::
  "('s \<Rightarrow> 'v \<Rightarrow> 'v \<Rightarrow> (bool \<times> 's) option) \<Rightarrow> 's \<Rightarrow> ('v \<Rightarrow> bool) \<Rightarrow> ('v \<Rightarrow> bool) \<Rightarrow> 'v linearizationInfo \<Rightarrow> bool" where
  "info_ok step s in_ok out_ok info \<longleftrightarrow> length (li_partialLinearizations info) = length (li_history info)
     \<and> (\<forall>j<length (li_history info). (\<exists>n. wf_history (li_history info ! j) n) \<and> vals_ok in_ok out_ok (li_history info ! j)
          \<and> (\<forall>\<sigma>\<in>set (li_partialLinearizations info ! j). lin_prefix step s (li_history info ! j) \<sigma>))"

lemma par_loop_correct:
  assumes chk: "\<And>i. i < n \<Longrightarrow> \<exists>l. check i = Some (lin i, l) \<and> Q i l"
  shows "distinct (recvs sched) \<Longrightarrow> set (recvs sched) \<inter> dom longest = {} \<Longrightarrow> set (recvs sched) \<union> dom longest \<subseteq> {..<n} \<Longrightarrow>
    TimeoutSel \<in> set sched \<or> set (recvs sched) \<union> dom longest = {..<n} \<Longrightarrow> cnt = card (dom longest) \<Longrightarrow> cnt < n \<Longrightarrow>
    ok = (\<forall>i\<in>dom longest. lin i) \<Longrightarrow> \<forall>i l. longest i = Some l \<longrightarrow> Q i l \<Longrightarrow>
    \<exists>ok' t longest'. par_loop check computeInfo n sched cnt ok longest = Some (ok', t, longest')
      \<and> (ok' \<longrightarrow> \<not> t \<longrightarrow> (\<forall>i<n. lin i)) \<and> (\<not> ok' \<longrightarrow> (\<exists>i<n. \<not> lin i)) \<and> (t \<longrightarrow> TimeoutSel \<in> set sched)
      \<and> (\<forall>i l. longest' i = Some l \<longrightarrow> Q i l)"
proof (induction sched arbitrary: cnt ok longest)
  case Nil
  then show ?case by auto
next
  case (Cons x sched)
  show ?case
  proof (cases x)
    case TimeoutSel
    have "\<not> ok \<longrightarrow> (\<exists>i<n. \<not> lin i)" using Cons.prems(3,7) by blast
    with Cons.prems(8) TimeoutSel show ?thesis
      by (intro exI [of _ ok] exI [of _ True] exI [of _ longest]) simp
  next
    case (Recv i)
    with Cons.prems(2,3) have i: "i < n" "i \<notin> dom longest" by auto
    from chk [OF i(1)] obtain l where l: "check i = Some (lin i, l)" "Q i l" by blast
    have fin: "finite (dom longest)" using Cons.prems(3) by (meson finite_Un finite_lessThan finite_subset)
    let ?longest = "longest(i \<mapsto> l)"
    have card: "Suc cnt = card (dom ?longest)" using fin i(2) Cons.prems(5) by simp
    have sub: "dom ?longest \<subseteq> {..<n}" using Cons.prems(3) i(1) by auto
    have full: "dom ?longest = {..<n}" if "n \<le> Suc cnt"
      using that card sub by (intro card_seteq) auto
    have ok: "(ok \<and> lin i) = (\<forall>i\<in>dom ?longest. lin i)" using Cons.prems(7) by auto
    have prems: "distinct (recvs sched)" "set (recvs sched) \<inter> dom ?longest = {}"
      "set (recvs sched) \<union> dom ?longest \<subseteq> {..<n}" "TimeoutSel \<in> set sched \<or> set (recvs sched) \<union> dom ?longest = {..<n}"
      "\<forall>i l. ?longest i = Some l \<longrightarrow> Q i l"
      using Cons.prems(1-4,8) Recv l(2) by auto
    note IH = Cons.IH [OF prems(1-4) card _ ok prems(5)]
    show ?thesis
    proof (cases "\<not> (ok \<and> lin i) \<and> \<not> computeInfo \<or> n \<le> Suc cnt")
      case True
      have "(ok \<and> lin i) \<longrightarrow> (\<forall>i<n. lin i)" using True full ok by (metis lessThan_iff)
      moreover have "\<not> (ok \<and> lin i) \<longrightarrow> (\<exists>i<n. \<not> lin i)" using ok sub by blast
      ultimately show ?thesis using True Recv l(1) prems(5)
        by (intro exI [of _ "ok \<and> lin i"] exI [of _ False] exI [of _ ?longest]) (auto simp: Let_def)
    next
      case False
      then have "Suc cnt < n" by simp
      from IH [OF this] obtain ok' t longest' where
        "par_loop check computeInfo n sched (Suc cnt) (ok \<and> lin i) ?longest = Some (ok', t, longest')"
        "ok' \<longrightarrow> \<not> t \<longrightarrow> (\<forall>i<n. lin i)" "\<not> ok' \<longrightarrow> (\<exists>i<n. \<not> lin i)" "t \<longrightarrow> TimeoutSel \<in> set sched"
        "\<forall>i l. longest' i = Some l \<longrightarrow> Q i l" by (elim exE conjE)
      with False Recv l(1) show ?thesis
        by (intro exI [of _ ok'] exI [of _ t] exI [of _ longest']) (auto simp: Let_def)
    qed
  qed
qed

lemma wait_rest_correct:
  assumes "\<And>i. i \<in> set is \<Longrightarrow> \<exists>b l. check i = Some (b, l) \<and> Q i l" and "\<forall>i l. longest i = Some l \<longrightarrow> Q i l"
  shows "\<exists>ls. wait_rest check longest is = Some ls \<and> length ls = length is \<and> (\<forall>j<length is. Q (is ! j) (ls ! j))"
  using assms(1)
proof (induction "is")
  case (Cons i "is")
  then obtain ls where ls: "wait_rest check longest is = Some ls" "length ls = length is" "\<forall>j<length is. Q (is ! j) (ls ! j)"
    by auto
  obtain l where l: "(case longest i of Some l \<Rightarrow> Some l | None \<Rightarrow> map_option snd (check i)) = Some l" "Q i l"
    using Cons.prems [of i] assms(2) by (cases "longest i") auto
  then have "wait_rest check longest (i # is) = Some (l # ls)" using ls(1) by simp
  moreover have "\<forall>j<length (i # is). Q ((i # is) ! j) ((l # ls) ! j)" using l(2) ls(3) by (auto simp: nth_Cons split: nat.split)
  ultimately show ?case using ls(2) by auto
qed simp

lemma partials_of_ok:
  assumes "longest_ok P l" and "\<And>xs. mset (rng xs) = mset xs" and "\<sigma> \<in> set (partials_of rng l)"
  shows "P \<sigma>"
proof -
  have "set (rng xs) = set xs" for xs using assms(2) by (metis set_mset_mset)
  with assms(3) obtain p where "Some (p, \<sigma>) \<in> set l" unfolding partials_of_def by auto
  with assms(1) show ?thesis by (auto simp: longest_ok_def in_set_conv_nth)
qed

context seq_model
begin

lemma checkParallel_correct:
  assumes parts: "\<forall>h\<in>set history. (\<exists>n. wf_history h n) \<and> vals_ok in_ok out_ok h"
    and model: "Step model = step" "Equal model = Some eqs" and n: "history \<noteq> []"
    and sched: "sched_ok (length history) timeout sched" and rng: "\<And>xs. mset (rng xs) = mset xs"
  defines "lin \<equiv> (\<lambda>h. \<exists>n \<sigma>. wf_history h n \<and> linearizes step (Init model) h {0..<int n} \<sigma>)"
  shows "\<exists>res info. checkParallel model history computeInfo sched kills rng = Some (res, info)
    \<and> (res = Ok \<longrightarrow> (\<forall>h\<in>set history. lin h)) \<and> (res = Illegal \<longrightarrow> (\<exists>h\<in>set history. \<not> lin h))
    \<and> (res = Unknown \<longrightarrow> timeout > 0)
    \<and> (computeInfo \<longrightarrow> li_history info = history \<and> info_ok step (Init model) in_ok out_ok info)"
proof -
  let ?Q = "\<lambda>i l. longest_ok (lin_prefix step (Init model) (history ! i)) l"
  let ?check = "\<lambda>kills i. checkSingle model (history ! i) computeInfo (kills i)"
  have single: "\<exists>b l. ?check kills i = Some (b, l) \<and> ?Q i l \<and> ((\<forall>j. \<not> kills i j) \<longrightarrow> b = lin (history ! i))"
    if i: "i < length history" for i kills
  proof -
    from bspec [OF parts nth_mem [OF i]] obtain m where m: "wf_history (history ! i) m" "vals_ok in_ok out_ok (history ! i)" by auto
    have "lin (history ! i) = (\<exists>\<sigma>. linearizes step (Init model) (history ! i) {0..<int m} \<sigma>)"
      unfolding lin_def using m(1) wf_length [of "history ! i"] by (metis mult_cancel1 zero_neq_numeral)
    with checkSingle_correct [OF m model, of "kills i" computeInfo] show ?thesis unfolding loop_result_def by auto
  qed
  have chk: "\<exists>l. ?check (\<lambda>_ _. False) i = Some (lin (history ! i), l) \<and> ?Q i l" if "i < length history" for i
    using single [OF that, of "\<lambda>_ _. False"] by auto
  from sched n par_loop_correct [of "length history" "?check (\<lambda>_ _. False)" "\<lambda>i. lin (history ! i)" ?Q, OF chk,
      of sched Map.empty 0 True computeInfo]
  obtain ok t longest where loop: "par_loop (?check (\<lambda>_ _. False)) computeInfo (length history) sched 0 True Map.empty = Some (ok, t, longest)"
    "ok \<longrightarrow> \<not> t \<longrightarrow> (\<forall>i<length history. lin (history ! i))" "\<not> ok \<longrightarrow> (\<exists>i<length history. \<not> lin (history ! i))"
    "t \<longrightarrow> timeout > 0" "\<forall>i l. longest i = Some l \<longrightarrow> ?Q i l"
    unfolding sched_ok_def by auto
  have "\<exists>b l. ?check kills i = Some (b, l) \<and> ?Q i l" if "i \<in> set [0..<length history]" for i
    using single [of i kills] that by auto
  from wait_rest_correct [of "[0..<length history]" "?check kills" ?Q, OF this loop(5)] obtain ls where
    ls: "wait_rest (?check kills) longest [0..<length history] = Some ls" "length ls = length history"
      "\<forall>j<length history. ?Q j (ls ! j)" by auto
  have "check_result ok t = Ok \<longrightarrow> (\<forall>h\<in>set history. lin h)"
    using loop(2) by (auto simp: check_result_def in_set_conv_nth)
  moreover have "check_result ok t = Illegal \<longrightarrow> (\<exists>h\<in>set history. \<not> lin h)"
    using loop(3) by (auto simp: check_result_def split: if_splits)
  moreover have "check_result ok t = Unknown \<longrightarrow> timeout > 0"
    using loop(4) by (auto simp: check_result_def)
  moreover have "\<sigma> \<in> set (map (partials_of rng) ls ! j) \<Longrightarrow> j < length history \<Longrightarrow> lin_prefix step (Init model) (history ! j) \<sigma>" for j \<sigma>
    using ls(2,3) partials_of_ok [OF _ rng] by auto
  ultimately show ?thesis using loop(1) ls(1,2) parts
    by (cases computeInfo) (auto simp: checkParallel_def info_ok_def)
qed

end

end
