(* ===== verification/Kv_Model.thy ===== *)
theory Kv_Model
  imports Porcupine_Parallel "HOL-Library.List_Lexorder" "HOL-Library.Char_ord"
begin

text \<open>
  The sequential model of a key/value store (\<open>models/kv.go\<close>): its partition by key, its step
  function on the value of one key, and its description of an operation. \<open>interface{}\<close> is the
  datatype \<open>kv_val\<close> of the two structs the program stores in it; a failed type assertion is \<open>None\<close>.

  The specification is the whole store, a function from keys to values (\<open>store_step\<close>). The
  theorems show that checking each key alone is enough (linearizability is local), so that
  \<open>CheckOperations KvModel\<close> decides linearizability of the history against the whole store.
\<close>

section \<open>The model\<close>

record KvInput =
  Op :: "8 word"
  Key :: string
  Value :: string

record KvOutput =
  out_Value :: string

datatype kv_val = VIn KvInput | VOut KvOutput

fun as_KvInput :: "kv_val \<Rightarrow> KvInput option" where
  "as_KvInput (VIn i) = Some i"
| "as_KvInput (VOut _) = None"

fun as_KvOutput :: "kv_val \<Rightarrow> KvOutput option" where
  "as_KvOutput (VOut v) = Some v"
| "as_KvOutput (VIn _) = None"

text \<open>
  The loop that fills the map \<open>m\<close>. \<open>keys\<close> are the keys of \<open>m\<close>, which the code collects by a
  \<open>range\<close> over it and then sorts.
\<close>

fun kv_group ::
  "(string \<rightharpoonup> kv_val Operation list) \<Rightarrow> string list \<Rightarrow> kv_val Operation list
     \<Rightarrow> ((string \<rightharpoonup> kv_val Operation list) \<times> string list) option" where
  "kv_group m keys [] = Some (m, keys)"
| "kv_group m keys (v # history) = do {
     inp \<leftarrow> as_KvInput (Input v);
     kv_group (m(Key inp \<mapsto> map_get0 [] m (Key inp) @ [v]))
       (if m (Key inp) = None then keys @ [Key inp] else keys) history
   }"

definition Kv_Partition :: "kv_val Operation list \<Rightarrow> kv_val Operation list list option" where
  "Kv_Partition history = do {
     (m, keys) \<leftarrow> kv_group Map.empty [] history;
     Some (map (map_get0 [] m) (sort keys))
   }"

definition Kv_Init :: string where
  "Kv_Init = ''''"

definition Kv_Step :: "string \<Rightarrow> kv_val \<Rightarrow> kv_val \<Rightarrow> (bool \<times> string) option" where
  "Kv_Step st input output = do {
     inp \<leftarrow> as_KvInput input;
     out \<leftarrow> as_KvOutput output;
     Some (if Op inp = 0 then (out_Value out = st, st)
           else if Op inp = 1 then (True, Value inp)
           else (True, st @ Value inp))
   }"

definition quote :: string where
  "quote = [CHR 39]"

definition Kv_DescribeOperation :: "kv_val \<Rightarrow> kv_val \<Rightarrow> string option" where
  "Kv_DescribeOperation input output = do {
     inp \<leftarrow> as_KvInput input;
     out \<leftarrow> as_KvOutput output;
     Some (if Op inp = 0 then ''get('' @ quote @ Key inp @ quote @ '') -> '' @ quote @ out_Value out @ quote
           else if Op inp = 1 then ''put('' @ quote @ Key inp @ quote @ '', '' @ quote @ Value inp @ quote @ '')''
           else if Op inp = 2 then ''append('' @ quote @ Key inp @ quote @ '', '' @ quote @ Value inp @ quote @ '')''
           else ''<invalid>'')
   }"

definition KvModel :: "(string, kv_val) Model" where
  "KvModel = \<lparr>Partition = Some Kv_Partition, PartitionEvent = None, Init = Kv_Init, Step = Kv_Step, Equal = None,
     DescribeOperation = Some Kv_DescribeOperation, DescribeState = None\<rparr>"

section \<open>Linearizability as a permutation\<close>

lemma mset_map_ex: "mset \<tau> = image_mset f M \<Longrightarrow> \<exists>\<sigma>. mset \<sigma> = M \<and> map f \<sigma> = \<tau>"
proof (induction \<tau> arbitrary: M)
  case (Cons t \<tau>)
  then have "t \<in># image_mset f M" by (metis list.set_intros(1) set_mset_mset)
  then obtain x M' where x: "M = add_mset x M'" "t = f x" by (auto dest: multi_member_split)
  with Cons.prems have "mset \<tau> = image_mset f M'" by simp
  from Cons.IH [OF this] obtain \<sigma> where "mset \<sigma> = M'" "map f \<sigma> = \<tau>" by blast
  with x show ?case by (intro exI [of _ "x # \<sigma>"]) simp
qed simp

lemma linearizable_ops_perm:
  "linearizable_ops step s ops \<longleftrightarrow>
     (\<exists>\<tau>. mset \<tau> = mset ops \<and> run_steps step s (map io_of \<tau>) \<noteq> None \<and> sorted_wrt (\<lambda>a b. \<not> Return b < Call a) \<tau>)"
proof
  assume "linearizable_ops step s ops"
  then obtain \<sigma> where \<sigma>: "distinct \<sigma>" "set \<sigma> = {..<length ops}" "run_steps step s (map (\<lambda>i. io_of (ops ! i)) \<sigma>) \<noteq> None"
    "sorted_wrt (\<lambda>i j. \<not> Return (ops ! j) < Call (ops ! i)) \<sigma>" by (auto simp: linearizable_ops_def)
  have "mset \<sigma> = mset [0..<length ops]" 
    using \<sigma>(1,2) set_eq_iff_mset_eq_distinct [of \<sigma> "[0..<length ops]"] by (simp add: lessThan_atLeast0)
  then have "mset (map ((!) ops) \<sigma>) = mset ops" by (metis map_nth mset_map)
  with \<sigma> show "\<exists>\<tau>. mset \<tau> = mset ops \<and> run_steps step s (map io_of \<tau>) \<noteq> None \<and> sorted_wrt (\<lambda>a b. \<not> Return b < Call a) \<tau>"
    by (intro exI [of _ "map ((!) ops) \<sigma>"]) (simp add: sorted_wrt_map comp_def)
next
  assume "\<exists>\<tau>. mset \<tau> = mset ops \<and> run_steps step s (map io_of \<tau>) \<noteq> None \<and> sorted_wrt (\<lambda>a b. \<not> Return b < Call a) \<tau>"
  then obtain \<tau> where \<tau>: "mset \<tau> = mset ops" "run_steps step s (map io_of \<tau>) \<noteq> None"
    "sorted_wrt (\<lambda>a b. \<not> Return b < Call a) \<tau>" by blast
  have "mset \<tau> = image_mset ((!) ops) (mset [0..<length ops])" using \<tau>(1) by (metis map_nth mset_map)
  from mset_map_ex [OF this] obtain \<sigma> where \<sigma>: "mset \<sigma> = mset [0..<length ops]" "map ((!) ops) \<sigma> = \<tau>" by blast
  have "distinct \<sigma>" "set \<sigma> = {..<length ops}"
    using mset_eq_imp_distinct_iff [OF \<sigma>(1)] mset_eq_setD [OF \<sigma>(1)] by (simp_all add: lessThan_atLeast0)
  moreover have "run_steps step s (map (\<lambda>i. io_of (ops ! i)) \<sigma>) \<noteq> None" "sorted_wrt (\<lambda>i j. \<not> Return (ops ! j) < Call (ops ! i)) \<sigma>"
    using \<tau>(2,3) unfolding \<sigma>(2) [symmetric] by (simp_all add: sorted_wrt_map comp_def)
  ultimately show "linearizable_ops step s ops" unfolding linearizable_ops_def by blast
qed

section \<open>Points of a linearization\<close>

text \<open>
  Each operation of a linearization is given a time between its call and its return, so that the
  times grow along the linearization: the latest call so far.
\<close>

fun points :: "int \<Rightarrow> 'v Operation list \<Rightarrow> ('v Operation \<times> int) list" where
  "points t [] = []"
| "points t (a # \<tau>) = (a, max t (Call a)) # points (max t (Call a)) \<tau>"

lemma map_fst_points [simp]: "map fst (points t \<tau>) = \<tau>"
  by (induction t \<tau> rule: points.induct) auto

lemma points_ge: "(a, p) \<in> set (points t \<tau>) \<Longrightarrow> t \<le> p \<and> Call a \<le> p"
  by (induction t \<tau> rule: points.induct) auto

lemma points_sorted: "sorted (map snd (points t \<tau>))"
  by (induction t \<tau> rule: points.induct) (auto dest: points_ge)

lemma points_le:
  "sorted_wrt (\<lambda>a b. \<not> Return b < Call a) \<tau> \<Longrightarrow> \<forall>a\<in>set \<tau>. Call a \<le> Return a \<and> t \<le> Return a \<Longrightarrow>
     (a, p) \<in> set (points t \<tau>) \<Longrightarrow> p \<le> Return a"
  by (induction t \<tau> rule: points.induct) (auto simp: not_less)

text \<open>
  Merging by time: linearizations of the parts of a history by a key combine into one order of
  the history that respects real time and keeps each part's order.
\<close>

lemma merge_by_points:
  assumes ok: "ops_ok h" and ks: "distinct ks" "f ` set h \<subseteq> set ks"
    and part: "\<And>k. k \<in> set ks \<Longrightarrow> mset (\<tau> k) = mset (filter (\<lambda>v. f v = k) h) \<and> sorted_wrt (\<lambda>a b. \<not> Return b < Call a) (\<tau> k)"
  shows "\<exists>\<rho>. mset \<rho> = mset h \<and> sorted_wrt (\<lambda>a b. \<not> Return b < Call a) \<rho> \<and> (\<forall>k\<in>set ks. filter (\<lambda>v. f v = k) \<rho> = \<tau> k)"
proof -
  obtain t where t: "\<And>a. a \<in> set h \<Longrightarrow> t \<le> Call a"
    using Min_le [of "Call ` set h"] that by (metis List.finite_set finite_imageI imageI)
  define xs where "xs = concat (map (\<lambda>k. points t (\<tau> k)) ks)"
  define ys where "ys = sort_key snd xs"
  have mem: "a \<in> set h \<and> f a = k" if "k \<in> set ks" "a \<in> set (\<tau> k)" for k a
    using mset_eq_setD [OF conjunct1 [OF part [OF that(1)]]] that(2) by simp
  have pt: "Call a \<le> p \<and> p \<le> Return a" if "(a, p) \<in> set xs" for a p
  proof -
    from that obtain k where k: "k \<in> set ks" "(a, p) \<in> set (points t (\<tau> k))" by (auto simp: xs_def)
    have "\<forall>a\<in>set (\<tau> k). Call a \<le> Return a \<and> t \<le> Return a"
      using mem [OF k(1)] ok t unfolding ops_ok_def by (meson order_trans)
    with points_le [OF conjunct2 [OF part [OF k(1)]] _ k(2)] points_ge [OF k(2)] show ?thesis by simp
  qed
  have "map fst xs = concat (map \<tau> ks)" by (simp add: xs_def map_concat comp_def)
  then have "mset (map fst ys) = mset (concat (map \<tau> ks))" by (metis mset_map mset_sort ys_def)
  also have "\<dots> = mset (concat (map (\<lambda>k. filter (\<lambda>v. f v = k) h) ks))"
    using part by (simp add: mset_concat cong: map_cong)
  also have "\<dots> = mset h" unfolding mset_concat_filter [OF ks(1)] using ks(2) by (subst filter_True) auto
  finally have 1: "mset (map fst ys) = mset h" .
  have "sorted_wrt (\<lambda>x y. snd x \<le> snd y) ys"
    using sorted_sort_key [of snd xs] by (simp add: ys_def sorted_wrt_map)
  then have "sorted_wrt (\<lambda>x y. \<not> Return (fst y) < Call (fst x)) ys"
  proof (rule sorted_wrt_mono_rel [rotated])
    fix x y assume "x \<in> set ys" "y \<in> set ys" "snd x \<le> snd y"
    with pt [of "fst x" "snd x"] pt [of "fst y" "snd y"] show "\<not> Return (fst y) < Call (fst x)" by (simp add: ys_def)
  qed
  then have 2: "sorted_wrt (\<lambda>a b. \<not> Return b < Call a) (map fst ys)" by (simp add: sorted_wrt_map)
  have "filter (\<lambda>v. f v = k) (map fst ys) = \<tau> k" if k: "k \<in> set ks" for k
  proof -
    have "filter (\<lambda>x. f (fst x) = k) xs = points t (\<tau> k)"
    proof -
      have "filter (\<lambda>x. f (fst x) = k) (points t (\<tau> j)) = (if j = k then points t (\<tau> k) else [])" if "j \<in> set ks" for j
      proof -
        have "fst ` set (points t (\<tau> j)) = set (\<tau> j)" by (metis list.set_map map_fst_points)
        then have "f (fst x) = j" if "x \<in> set (points t (\<tau> j))" for x using that mem [OF \<open>j \<in> set ks\<close>] by auto
        then show ?thesis by (auto simp: filter_empty_conv filter_id_conv)
      qed
      then have "filter (\<lambda>x. f (fst x) = k) xs = concat (map (\<lambda>j. if j = k then points t (\<tau> k) else []) ks)"
        by (simp add: xs_def filter_concat comp_def cong: map_cong)
      also have "\<dots> = points t (\<tau> k)" using k ks(1) by (induction ks) (auto simp: concat_eq_Nil_conv)
      finally show ?thesis .
    qed
    then have "filter (\<lambda>x. f (fst x) = k) ys = points t (\<tau> k)"
      unfolding ys_def filter_sort by (simp add: points_sorted sort_key_id_if_sorted)
    then show ?thesis by (simp add: filter_map comp_def)
  qed
  with 1 2 show ?thesis by blast
qed

section \<open>The partition\<close>

definition is_in :: "kv_val \<Rightarrow> bool" where
  "is_in v \<longleftrightarrow> as_KvInput v \<noteq> None"

definition is_out :: "kv_val \<Rightarrow> bool" where
  "is_out v \<longleftrightarrow> as_KvOutput v \<noteq> None"

definition kv_ops :: "kv_val Operation list \<Rightarrow> bool" where
  "kv_ops h \<longleftrightarrow> (\<forall>a\<in>set h. is_in (Input a) \<and> is_out (Output a))"

definition op_key :: "kv_val Operation \<Rightarrow> string" where
  "op_key a = Key (the (as_KvInput (Input a)))"

lemma kv_group_correct:
  "kv_ops h \<Longrightarrow> distinct keys \<Longrightarrow> set keys = dom m \<Longrightarrow> \<exists>m' keys'. kv_group m keys h = Some (m', keys') \<and> distinct keys'
     \<and> set keys' = set keys \<union> op_key ` set h
     \<and> (\<forall>k. map_get0 [] m' k = map_get0 [] m k @ filter (\<lambda>v. op_key v = k) h)"
proof (induction h arbitrary: m keys)
  case (Cons v h)
  then obtain inp where inp: "as_KvInput (Input v) = Some inp" by (auto simp: kv_ops_def is_in_def)
  then have key: "op_key v = Key inp" by (simp add: op_key_def)
  let ?m = "m(Key inp \<mapsto> map_get0 [] m (Key inp) @ [v])"
  let ?keys = "if m (Key inp) = None then keys @ [Key inp] else keys"
  have keys: "distinct ?keys" "set ?keys = dom ?m" using Cons.prems(2,3) by (auto simp: domIff)
  have "kv_ops h" using Cons.prems(1) by (simp add: kv_ops_def)
  from Cons.IH [OF this keys] obtain m' keys' where IH: "kv_group ?m ?keys h = Some (m', keys')" "distinct keys'"
    "set keys' = set ?keys \<union> op_key ` set h"
    "\<forall>k. map_get0 [] m' k = map_get0 [] ?m k @ filter (\<lambda>v. op_key v = k) h" by (elim exE conjE)
  have "set ?keys = insert (Key inp) (set keys)" using Cons.prems(3) by (auto simp: domIff)
  with IH key have "set keys' = set keys \<union> op_key ` set (v # h)" by auto
  moreover have "map_get0 [] m' k = map_get0 [] m k @ filter (\<lambda>v. op_key v = k) (v # h)" for k
    using IH(4) key by simp
  ultimately show ?case using IH(1,2) inp by simp
qed simp

lemma Kv_Partition_correct:
  assumes "kv_ops h"
  shows "\<exists>ks. Kv_Partition h = Some (map (\<lambda>k. filter (\<lambda>v. op_key v = k) h) ks) \<and> distinct ks \<and> sorted ks \<and> set ks = op_key ` set h"
proof -
  from kv_group_correct [OF assms, of "[]" Map.empty] obtain m keys where
    "kv_group Map.empty [] h = Some (m, keys)" "distinct keys" "set keys = op_key ` set h"
    "\<forall>k. map_get0 [] m k = filter (\<lambda>v. op_key v = k) h" by auto
  then show ?thesis by (intro exI [of _ "sort keys"]) (simp add: Kv_Partition_def)
qed

section \<open>The whole store\<close>

definition store_step :: "(string \<Rightarrow> string) \<Rightarrow> kv_val \<Rightarrow> kv_val \<Rightarrow> (bool \<times> (string \<Rightarrow> string)) option" where
  "store_step s input output = (case (input, output) of
      (VIn i, VOut v) \<Rightarrow>
        Some (if Op i = 0 then (out_Value v = s (Key i), s)
              else if Op i = 1 then (True, s(Key i := Value i))
              else (True, s(Key i := s (Key i) @ Value i)))
    | _ \<Rightarrow> None)"

lemma store_step_key:
  assumes "is_in (Input a)" and "is_out (Output a)"
  shows "\<exists>b s'. store_step s (Input a) (Output a) = Some (b, s(op_key a := s'))
      \<and> Kv_Step (s (op_key a)) (Input a) (Output a) = Some (b, s')"
  using assms by (cases "Input a"; cases "Output a")
    (auto simp: is_in_def is_out_def store_step_def Kv_Step_def op_key_def)

lemma store_run_keys:
  "kv_ops \<tau> \<Longrightarrow> run_steps store_step s (map io_of \<tau>) \<noteq> None \<longleftrightarrow>
     (\<forall>k. run_steps Kv_Step (s k) (map io_of (filter (\<lambda>v. op_key v = k) \<tau>)) \<noteq> None)"
proof (induction \<tau> arbitrary: s)
  case (Cons a \<tau>)
  then have ok: "is_in (Input a)" "is_out (Output a)" "kv_ops \<tau>" by (auto simp: kv_ops_def)
  from store_step_key [OF ok(1,2), of s] obtain b s' where
    st: "store_step s (Input a) (Output a) = Some (b, s(op_key a := s'))"
      "Kv_Step (s (op_key a)) (Input a) (Output a) = Some (b, s')" by blast
  show ?case
  proof (cases b)
    case True
    have "(\<forall>k. run_steps Kv_Step ((s(op_key a := s')) k) (map io_of (filter (\<lambda>v. op_key v = k) \<tau>)) \<noteq> None) \<longleftrightarrow>
        (\<forall>k. run_steps Kv_Step (s k) (map io_of (filter (\<lambda>v. op_key v = k) (a # \<tau>))) \<noteq> None)"
      using st(2) True by (intro iff_allI) (auto simp: io_of_def)
    moreover have "run_steps store_step s (map io_of (a # \<tau>)) = run_steps store_step (s(op_key a := s')) (map io_of \<tau>)"
      using st(1) True by (simp add: io_of_def)
    ultimately show ?thesis using Cons.IH [OF ok(3), of "s(op_key a := s')"] by (simp only:)
  next
    case False
    with st have "run_steps Kv_Step (s (op_key a)) (map io_of (filter (\<lambda>v. op_key v = op_key a) (a # \<tau>))) = None"
      by (simp add: io_of_def)
    moreover have "run_steps store_step s (map io_of (a # \<tau>)) = None" using st(1) False by (simp add: io_of_def)
    ultimately show ?thesis by blast
  qed
qed simp

lemma kv_ops_mset: "mset \<tau> = mset h \<Longrightarrow> kv_ops \<tau> = kv_ops h"
  unfolding kv_ops_def by (metis mset_eq_setD)

text \<open>Linearizability is local: a history of the store is linearizable when each key's part is.\<close>

lemma store_local:
  assumes kv: "kv_ops h" and ok: "ops_ok h" and ks: "distinct ks" "set ks = op_key ` set h"
  shows "linearizable_ops store_step (\<lambda>_. []) h \<longleftrightarrow> (\<forall>k\<in>set ks. linearizable_ops Kv_Step [] (filter (\<lambda>v. op_key v = k) h))"
proof
  assume "linearizable_ops store_step (\<lambda>_. []) h"
  then obtain \<tau> where \<tau>: "mset \<tau> = mset h" "run_steps store_step (\<lambda>_. []) (map io_of \<tau>) \<noteq> None"
    "sorted_wrt (\<lambda>a b. \<not> Return b < Call a) \<tau>" by (auto simp: linearizable_ops_perm)
  from \<tau>(2) store_run_keys [of \<tau> "\<lambda>_. []"] kv kv_ops_mset [OF \<tau>(1)]
  have "run_steps Kv_Step [] (map io_of (filter (\<lambda>v. op_key v = k) \<tau>)) \<noteq> None" for k by simp
  moreover have "mset (filter (\<lambda>v. op_key v = k) \<tau>) = mset (filter (\<lambda>v. op_key v = k) h)" for k using \<tau>(1) by simp
  ultimately show "\<forall>k\<in>set ks. linearizable_ops Kv_Step [] (filter (\<lambda>v. op_key v = k) h)"
    unfolding linearizable_ops_perm using \<tau>(3) sorted_wrt_filter by blast
next
  assume "\<forall>k\<in>set ks. linearizable_ops Kv_Step [] (filter (\<lambda>v. op_key v = k) h)"
  then obtain \<tau> where \<tau>: "\<And>k. k \<in> set ks \<Longrightarrow> mset (\<tau> k) = mset (filter (\<lambda>v. op_key v = k) h)
      \<and> run_steps Kv_Step [] (map io_of (\<tau> k)) \<noteq> None \<and> sorted_wrt (\<lambda>a b. \<not> Return b < Call a) (\<tau> k)"
    unfolding linearizable_ops_perm by metis
  with merge_by_points [OF ok ks(1), of op_key \<tau>] ks(2) obtain \<rho> where
    \<rho>: "mset \<rho> = mset h" "sorted_wrt (\<lambda>a b. \<not> Return b < Call a) \<rho>" "\<forall>k\<in>set ks. filter (\<lambda>v. op_key v = k) \<rho> = \<tau> k"
    by blast
  have "run_steps Kv_Step [] (map io_of (filter (\<lambda>v. op_key v = k) \<rho>)) \<noteq> None" for k
  proof (cases "k \<in> set ks")
    case False
    then have "filter (\<lambda>v. op_key v = k) \<rho> = []" using ks(2) mset_eq_setD [OF \<rho>(1)] by (auto simp: filter_empty_conv)
    then show ?thesis by simp
  qed (use \<tau> \<rho>(3) in simp)
  then have "run_steps store_step (\<lambda>_. []) (map io_of \<rho>) \<noteq> None"
    using store_run_keys [of \<rho> "\<lambda>_. []"] kv kv_ops_mset [OF \<rho>(1)] by simp
  with \<rho> show "linearizable_ops store_step (\<lambda>_. []) h" unfolding linearizable_ops_perm by blast
qed

section \<open>The checker on the store\<close>

interpretation kv: seq_model Kv_Step ShallowEqual is_in is_out
  by unfold_locales (auto simp: Kv_Step_def is_in_def is_out_def ShallowEqual_def)

lemma fillDefault_KvModel:
  "Partition (fillDefault fmtv fmts KvModel) = Some Kv_Partition" "Init (fillDefault fmtv fmts KvModel) = []"
  "Step (fillDefault fmtv fmts KvModel) = Kv_Step" "Equal (fillDefault fmtv fmts KvModel) = Some ShallowEqual"
  by (simp_all add: fillDefault_def KvModel_def Kv_Init_def Let_def)

lemma kv_ops_vals: "kv_ops ops \<Longrightarrow> vals_ok is_in is_out (entries_of i ops)"
  by (auto simp: vals_ok_def entries_of_mem kv_ops_def)

lemma checkOperations_kv:
  assumes srt: "entry_sort srt" and kv: "kv_ops h" and ok: "ops_ok h" and ne: "h \<noteq> []"
    and sched: "sched_ok (card (op_key ` set h)) timeout sched" and rng: "\<And>xs. mset (rng xs) = mset xs"
  shows "\<exists>res info. checkOperations fmtv fmts srt KvModel h verbose sched kills rng = Some (res, info)
    \<and> (res = Ok \<longrightarrow> linearizable_ops store_step (\<lambda>_. []) h) \<and> (res = Illegal \<longrightarrow> \<not> linearizable_ops store_step (\<lambda>_. []) h)
    \<and> (res = Unknown \<longrightarrow> timeout > 0)
    \<and> (verbose \<longrightarrow> length (li_history info) = card (op_key ` set h) \<and> info_ok Kv_Step [] is_in is_out info)"
proof -
  from Kv_Partition_correct [OF kv] obtain ks where ks: "Kv_Partition h = Some (map (\<lambda>k. filter (\<lambda>v. op_key v = k) h) ks)"
    "distinct ks" "set ks = op_key ` set h" by blast
  let ?part = "\<lambda>k. filter (\<lambda>v. op_key v = k) h"
  let ?history = "map (makeEntries srt) (map ?part ks)"
  let ?model = "fillDefault fmtv fmts KvModel"
  have part: "ops_ok (?part k)" "kv_ops (?part k)" for k using ok kv by (auto simp: ops_ok_def kv_ops_def)
  have wf: "wf_history (makeEntries srt (?part k)) (length (?part k))" for k
    by (rule entry_sort.makeEntries_wf [OF srt part(1)])
  have vals: "vals_ok is_in is_out (makeEntries srt (?part k))" for k
    using kv_ops_vals [OF part(2)] by (simp add: vals_ok_def entry_sort.makeEntries_mem [OF srt])
  have lin: "(\<exists>n \<sigma>. wf_history (makeEntries srt (?part k)) n \<and> linearizes Kv_Step [] (makeEntries srt (?part k)) {0..<int n} \<sigma>)
      \<longleftrightarrow> linearizable_ops Kv_Step [] (?part k)" for k
    using entry_sort.makeEntries_linearizable [OF srt part(1), of Kv_Step "[]" k] wf [of k]
      wf_length [of "makeEntries srt (?part k)"] by (metis mult_cancel1 zero_neq_numeral)
  have len: "length ?history = card (op_key ` set h)" using ks distinct_card by (metis length_map)
  have ne': "?history \<noteq> []" using ks(3) ne by auto
  have parts: "\<forall>h\<in>set ?history. (\<exists>n. wf_history h n) \<and> vals_ok is_in is_out h"
    using wf vals by auto
  from kv.checkParallel_correct [OF parts fillDefault_KvModel(3,4) ne' sched [folded len] rng, of fmtv fmts verbose kills]
  obtain res info where res: "checkParallel ?model ?history verbose sched kills rng = Some (res, info)"
    "res = Ok \<longrightarrow> (\<forall>h\<in>set ?history. \<exists>n \<sigma>. wf_history h n \<and> linearizes Kv_Step [] h {0..<int n} \<sigma>)"
    "res = Illegal \<longrightarrow> (\<exists>h\<in>set ?history. \<not> (\<exists>n \<sigma>. wf_history h n \<and> linearizes Kv_Step [] h {0..<int n} \<sigma>))"
    "res = Unknown \<longrightarrow> timeout > 0" "verbose \<longrightarrow> li_history info = ?history \<and> info_ok Kv_Step [] is_in is_out info"
    unfolding fillDefault_KvModel by (elim exE conjE)
  then have "res = Ok \<longrightarrow> (\<forall>k\<in>set ks. linearizable_ops Kv_Step [] (?part k))"
    "res = Illegal \<longrightarrow> (\<exists>k\<in>set ks. \<not> linearizable_ops Kv_Step [] (?part k))"
    unfolding lin [symmetric] by simp_all
  moreover have "checkOperations fmtv fmts srt KvModel h verbose sched kills rng = Some (res, info)"
    using res(1) by (simp add: checkOperations_def fillDefault_KvModel ks(1))
  ultimately show ?thesis unfolding store_local [OF kv ok ks(2,3)] using res(4,5) len by fastforce
qed

section \<open>What the checker decides\<close>

definition kv_op :: "8 word \<Rightarrow> string \<Rightarrow> string \<Rightarrow> string \<Rightarrow> int \<Rightarrow> int \<Rightarrow> kv_val Operation" where
  "kv_op o' k v r t u = \<lparr>ClientId = 0, Input = VIn \<lparr>Op = o', Key = k, Value = v\<rparr>, Call = t,
     Output = VOut \<lparr>out_Value = r\<rparr>, Return = u\<rparr>"

lemmas kv_sample_simps = kv_op_def kv_ops_def ops_ok_def is_in_def is_out_def op_key_def sched_ok_def

definition sample_model :: "(string, kv_val) Model" where
  "sample_model = KvModel\<lparr>Equal := Some ShallowEqual\<rparr>"

definition sample_entries :: "kv_val entry list" where
  "sample_entries = makeEntries (insertionSort byTime_Less) [kv_op 0 ''x'' [] [] 0 3, kv_op 1 ''x'' ''v'' [] 1 2]"

lemma sample_contract:
  "seq_model (Step sample_model) ShallowEqual is_in is_out" "Equal sample_model = Some ShallowEqual"
  "wf_history sample_entries 2" "vals_ok is_in is_out sample_entries"
proof -
  let ?h = "[kv_op 0 ''x'' [] [] 0 3, kv_op 1 ''x'' ''v'' [] 1 2]"
  show "seq_model (Step sample_model) ShallowEqual is_in is_out" "Equal sample_model = Some ShallowEqual"
    using kv.seq_model_axioms by (simp_all add: sample_model_def KvModel_def)
  have "wf_history sample_entries (length ?h)"
    unfolding sample_entries_def by (rule bt.makeEntries_wf) (simp add: kv_sample_simps)
  then show "wf_history sample_entries 2" by (simp add: numeral_2_eq_2)
  have "kv_ops ?h" by (simp add: kv_sample_simps)
  from kv_ops_vals [OF this, of 0] show "vals_ok is_in is_out sample_entries"
    by (simp add: vals_ok_def sample_entries_def)
qed

text \<open>
  C1. \<open>CheckOperations\<close> with \<open>KvModel\<close>, called without a timeout on a nonempty history, returns on
  every schedule of its goroutines and answers true exactly when the history is linearizable as a
  history of the whole key/value store.
\<close>

theorem CheckOperations_decides:
  assumes "entry_sort srt" and "kv_ops h" and "ops_ok h" and "h \<noteq> []"
    and "sched_ok (card (op_key ` set h)) 0 sched"
  shows "CheckOperations fmtv fmts srt KvModel h sched kills = Some (linearizable_ops store_step (\<lambda>_. []) h)"
  using checkOperations_kv [OF assms, of id fmtv fmts False kills]
  by (auto simp: CheckOperations_def) (metis CheckResult.exhaust less_irrefl)+

theorem CheckOperations_decides_witness:
  "CheckOperations (\<lambda>_. []) id (insertionSort byTime_Less) KvModel
     [kv_op 1 ''x'' ''1'' [] 0 10, kv_op 0 ''x'' [] ''1'' 5 15, kv_op 0 ''y'' [] [] 3 4] [Recv 1, Recv 0] (\<lambda>_ _. True)
   = Some (linearizable_ops store_step (\<lambda>_. [])
       [kv_op 1 ''x'' ''1'' [] 0 10, kv_op 0 ''x'' [] ''1'' 5 15, kv_op 0 ''y'' [] [] 3 4])"
  by (rule CheckOperations_decides [OF bt.entry_sort_axioms]) (auto simp: kv_sample_simps)



text \<open>
  C4. For any model that satisfies the contract \<open>seq_model\<close> and any well-formed history,
  \<open>checkSingle\<close> returns whatever it reads from the kill flag; it answers true only if the history
  is linearizable, and if the flag stays 0 exactly then.
\<close>

theorem checkSingle_decides:
  assumes "seq_model (Step model) eqf in_ok out_ok" and "Equal model = Some eqf"
    and "wf_history es n" and "vals_ok in_ok out_ok es"
  shows "\<exists>b longest. checkSingle model es computePartial kill = Some (b, longest)
    \<and> (b \<longrightarrow> (\<exists>\<sigma>. linearizes (Step model) (Init model) es {0..<int n} \<sigma>))
    \<and> ((\<forall>i. \<not> kill i) \<longrightarrow> b = (\<exists>\<sigma>. linearizes (Step model) (Init model) es {0..<int n} \<sigma>))"
  using seq_model.checkSingle_correct [OF assms(1,3,4) refl assms(2), of kill computePartial]
  unfolding loop_result_def by blast

theorem checkSingle_decides_witness:
  "\<exists>b longest. checkSingle sample_model sample_entries True (\<lambda>_. False) = Some (b, longest)
     \<and> b = (\<exists>\<sigma>. linearizes (Step sample_model) (Init sample_model) sample_entries {0..<2} \<sigma>)"
  using checkSingle_decides [OF sample_contract(1,2) sample_contract(3,4), of True "\<lambda>_. False"] by simp

text \<open>
  C24. The partial linearizations that \<open>checkSingle\<close> reports for the visualization are right: entry
  \<open>i\<close> of its second result is a linearizable prefix of the history that contains operation \<open>i\<close>.
\<close>

theorem checkSingle_partial_linearizations:
  assumes "seq_model (Step model) eqf in_ok out_ok" and "Equal model = Some eqf"
    and "wf_history es n" and "vals_ok in_ok out_ok es"
  shows "\<exists>b longest. checkSingle model es computePartial kill = Some (b, longest) \<and> length longest = n
    \<and> (\<forall>i p \<sigma>. i < n \<longrightarrow> longest ! i = Some (p, \<sigma>) \<longrightarrow> int i \<in> set \<sigma> \<and> lin_prefix (Step model) (Init model) es \<sigma>)"
  using seq_model.checkSingle_correct [OF assms(1,3,4) refl assms(2), of kill computePartial]
  unfolding loop_result_def longest_ok_def by blast

theorem checkSingle_partial_linearizations_witness:
  "\<exists>b longest. checkSingle sample_model sample_entries True (\<lambda>_. True) = Some (b, longest) \<and> length longest = 2
    \<and> (\<forall>i p \<sigma>. i < 2 \<longrightarrow> longest ! i = Some (p, \<sigma>)
         \<longrightarrow> int i \<in> set \<sigma> \<and> lin_prefix (Step sample_model) (Init sample_model) sample_entries \<sigma>)"
  by (rule checkSingle_partial_linearizations [OF sample_contract(1,2) sample_contract(3,4)])

text \<open>
  C18. Checking each key alone is enough: a history is linearizable as a history of the whole store
  exactly when every part that \<open>KvModel.Partition\<close> returns is linearizable for the value of one key.
\<close>

theorem Kv_Partition_local:
  assumes "kv_ops h" and "ops_ok h"
  shows "\<exists>parts. Kv_Partition h = Some parts
    \<and> (linearizable_ops store_step (\<lambda>_. []) h \<longleftrightarrow> (\<forall>p\<in>set parts. linearizable_ops Kv_Step Kv_Init p))"
  using Kv_Partition_correct [OF assms(1)] store_local [OF assms] by (auto simp: Kv_Init_def)

theorem Kv_Partition_local_witness:
  "\<exists>parts. Kv_Partition [kv_op 1 ''x'' ''1'' [] 0 10, kv_op 0 ''y'' [] ''2'' 5 15] = Some parts
    \<and> (linearizable_ops store_step (\<lambda>_. []) [kv_op 1 ''x'' ''1'' [] 0 10, kv_op 0 ''y'' [] ''2'' 5 15]
        \<longleftrightarrow> (\<forall>p\<in>set parts. linearizable_ops Kv_Step Kv_Init p))"
  by (rule Kv_Partition_local) (simp_all add: kv_sample_simps)

text \<open>
  On an empty history \<open>KvModel.Partition\<close> returns no partitions, and \<open>CheckOperations\<close> then
  waits for a result that no goroutine sends: without a timeout it never returns.
\<close>

theorem CheckOperations_empty_blocks:
  assumes "sched_ok 0 0 sched"
  shows "CheckOperations fmtv fmts srt KvModel [] sched kills = None"
proof -
  from assms have "sched = []" by (cases sched rule: recvs.cases) (auto simp: sched_ok_def)
  then show ?thesis
    by (simp add: CheckOperations_def checkOperations_def fillDefault_KvModel Kv_Partition_def checkParallel_def)
qed

theorem CheckOperations_empty_blocks_witness:
  "sched_ok 0 0 [] \<and> CheckOperations (\<lambda>_. []) id id KvModel [] [] (\<lambda>_ _. False) = None"
  using CheckOperations_empty_blocks [of "[]"] by (simp add: sched_ok_def)

end
