(* ===== verification/Mr_Coordinator.thy ===== *)
theory Mr_Coordinator
  imports Go_Prelude
begin

text \<open>
  The MapReduce coordinator (\<open>mr/coordinator.go\<close>, \<open>mr/rpc.go\<close>): the two tables of tasks, the RPC
  handlers \<open>HandleWorker\<close> and \<open>HandleFinish\<close>, the crash-check goroutine that \<open>HandleWorker\<close>
  starts for each task it hands out, \<open>Done\<close> and \<open>MakeCoordinator\<close>.

  A task is reached by pointer from a slice and from a map, so the tasks live in a store indexed
  by address (\<open>map_heap\<close>, \<open>reduce_heap\<close>) and the slice and the map hold addresses. \<open>timers\<close> are
  the goroutines that still sleep. \<open>coord_step\<close> is the interleaving of the handlers and the
  timers; the invariant says what the job's progress rests on: a reduce task has been handed out
  only if every map task is finished, and every running task has a timer.
\<close>

section \<open>Tasks and messages\<close>

text \<open>A status is 0 (\<open>NOTRUN\<close>), 1 (\<open>RUNNNING\<close>) or 2 (\<open>FINISHED\<close>).\<close>

record MapTask =
  m_TaskId :: int
  m_FileName :: string
  m_Status :: int

record ReduceTask =
  r_TaskId :: int
  r_FileName :: "string list"
  r_Status :: int

record CoordinatorReply =
  FileName :: "string list"
  TaskType :: string
  TaskId :: int
  reply_ReduceN :: int

record CoordinatorFinishArgs =
  fin_Id :: int
  fin_TaskType :: string

datatype timer = MapTimer nat | ReduceTimer nat

record Coordinator =
  MapTaskMap :: "int \<rightharpoonup> nat"
  ReduceTaskMap :: "int \<rightharpoonup> nat"
  ActiveMapTasks :: "nat list"
  ActiveReduceTasks :: "nat list"
  ReduceN :: int
  map_heap :: "nat \<rightharpoonup> MapTask"
  reduce_heap :: "nat \<rightharpoonup> ReduceTask"
  timers :: "timer list"

definition zero_reply :: CoordinatorReply where
  "zero_reply = \<lparr>FileName = [], TaskType = '''', TaskId = 0, reply_ReduceN = 0\<rparr>"

section \<open>The handlers\<close>

fun getMapTask :: "(nat \<rightharpoonup> MapTask) \<Rightarrow> nat list \<Rightarrow> nat option option" where
  "getMapTask h [] = Some None"
| "getMapTask h (p # ps) = do {
     v \<leftarrow> h p;
     (if m_Status v = 0 then Some (Some p) else getMapTask h ps)
   }"

fun all_finished :: "(nat \<rightharpoonup> int) \<Rightarrow> nat list \<Rightarrow> bool option" where
  "all_finished st [] = Some True"
| "all_finished st (p # ps) = do {
     s \<leftarrow> st p;
     (if s \<noteq> 2 then Some False else all_finished st ps)
   }"

fun first_notrun :: "(nat \<rightharpoonup> ReduceTask) \<Rightarrow> nat list \<Rightarrow> nat option option" where
  "first_notrun h [] = Some None"
| "first_notrun h (p # ps) = do {
     v \<leftarrow> h p;
     (if r_Status v = 0 then Some (Some p) else first_notrun h ps)
   }"

definition map_status :: "Coordinator \<Rightarrow> nat \<rightharpoonup> int" where
  "map_status c p = map_option m_Status (map_heap c p)"

definition reduce_status :: "Coordinator \<Rightarrow> nat \<rightharpoonup> int" where
  "reduce_status c p = map_option r_Status (reduce_heap c p)"

definition getReduceTask :: "Coordinator \<Rightarrow> nat option option" where
  "getReduceTask c = do {
     mapFinished \<leftarrow> all_finished (map_status c) (ActiveMapTasks c);
     (if mapFinished then first_notrun (reduce_heap c) (ActiveReduceTasks c) else Some None)
   }"

definition HandleWorker :: "Coordinator \<Rightarrow> (Coordinator \<times> CoordinatorReply) option" where
  "HandleWorker c = do {
     mapTask \<leftarrow> getMapTask (map_heap c) (ActiveMapTasks c);
     (case mapTask of
        Some p \<Rightarrow> do {
          t \<leftarrow> map_heap c p;
          Some (c\<lparr>map_heap := (map_heap c)(p \<mapsto> t\<lparr>m_Status := 1\<rparr>), timers := timers c @ [MapTimer p]\<rparr>,
                zero_reply\<lparr>TaskId := m_TaskId t, FileName := [m_FileName t], TaskType := ''MAP'', reply_ReduceN := ReduceN c\<rparr>)
        }
      | None \<Rightarrow> do {
          reduceTask \<leftarrow> getReduceTask c;
          (case reduceTask of
             Some p \<Rightarrow> do {
               t \<leftarrow> reduce_heap c p;
               Some (c\<lparr>reduce_heap := (reduce_heap c)(p \<mapsto> t\<lparr>r_Status := 1\<rparr>), timers := timers c @ [ReduceTimer p]\<rparr>,
                     zero_reply\<lparr>TaskId := r_TaskId t, FileName := r_FileName t, TaskType := ''REDUCE'', reply_ReduceN := ReduceN c\<rparr>)
             }
           | None \<Rightarrow> Some (c, zero_reply))
        })
   }"

text \<open>The end of a crash-check goroutine.\<close>

fun timer_fire :: "timer \<Rightarrow> Coordinator \<Rightarrow> Coordinator option" where
  "timer_fire (MapTimer p) c = do {
     t \<leftarrow> map_heap c p;
     Some (c\<lparr>map_heap := (map_heap c)(p \<mapsto> t\<lparr>m_Status := cas (m_Status t) 1 0\<rparr>)\<rparr>)
   }"
| "timer_fire (ReduceTimer p) c = do {
     t \<leftarrow> reduce_heap c p;
     Some (c\<lparr>reduce_heap := (reduce_heap c)(p \<mapsto> t\<lparr>r_Status := cas (r_Status t) 1 0\<rparr>)\<rparr>)
   }"

text \<open>A task number that is not in the map gives a nil pointer, and its status a panic.\<close>

definition HandleFinish :: "CoordinatorFinishArgs \<Rightarrow> Coordinator \<Rightarrow> Coordinator option" where
  "HandleFinish args c =
     (if fin_TaskType args = ''MAP'' then do {
        p \<leftarrow> MapTaskMap c (fin_Id args);
        t \<leftarrow> map_heap c p;
        Some (c\<lparr>map_heap := (map_heap c)(p \<mapsto> t\<lparr>m_Status := cas (m_Status t) 1 2\<rparr>)\<rparr>)
      } else if fin_TaskType args = ''REDUCE'' then do {
        p \<leftarrow> ReduceTaskMap c (fin_Id args);
        t \<leftarrow> reduce_heap c p;
        Some (c\<lparr>reduce_heap := (reduce_heap c)(p \<mapsto> t\<lparr>r_Status := cas (r_Status t) 1 2\<rparr>)\<rparr>)
      } else Some c)"

definition Example :: "int \<Rightarrow> int" where
  "Example X = X + 1"

definition coord_Done :: "Coordinator \<Rightarrow> bool option" where
  "coord_Done c = all_finished (reduce_status c) (ActiveReduceTasks c)"

section \<open>Creating the coordinator\<close>

definition inter_name :: "nat \<Rightarrow> nat \<Rightarrow> string" where
  "inter_name i j = ''mr-'' @ itoa i @ ''-'' @ itoa j"

fun make_map_tasks :: "nat \<Rightarrow> string list \<Rightarrow> Coordinator \<Rightarrow> Coordinator" where
  "make_map_tasks index [] c = c"
| "make_map_tasks index (f # files) c =
     make_map_tasks (Suc index) files
       (c\<lparr>map_heap := (map_heap c)(index \<mapsto> \<lparr>m_TaskId = int index + 1, m_FileName = f, m_Status = 0\<rparr>),
          ActiveMapTasks := ActiveMapTasks c @ [index], MapTaskMap := (MapTaskMap c)(int index + 1 \<mapsto> index)\<rparr>)"

fun make_reduce_tasks :: "nat \<Rightarrow> nat \<Rightarrow> nat \<Rightarrow> Coordinator \<Rightarrow> Coordinator" where
  "make_reduce_tasks i 0 nfiles c = c"
| "make_reduce_tasks i (Suc n) nfiles c =
     make_reduce_tasks (Suc i) n nfiles
       (c\<lparr>reduce_heap := (reduce_heap c)(i \<mapsto> \<lparr>r_TaskId = int i + 1,
             r_FileName = map (\<lambda>j. inter_name (j + 1) (i + 1)) [0..<nfiles], r_Status = 0\<rparr>),
          ActiveReduceTasks := ActiveReduceTasks c @ [i], ReduceTaskMap := (ReduceTaskMap c)(int i + 1 \<mapsto> i)\<rparr>)"

definition MakeCoordinator :: "string list \<Rightarrow> int \<Rightarrow> Coordinator" where
  "MakeCoordinator files nReduce =
     make_reduce_tasks 0 (nat nReduce) (length files)
       (make_map_tasks 0 files
          \<lparr>MapTaskMap = Map.empty, ReduceTaskMap = Map.empty, ActiveMapTasks = [], ActiveReduceTasks = [],
           ReduceN = nReduce, map_heap = Map.empty, reduce_heap = Map.empty, timers = []\<rparr>)"

section \<open>The interleaving of handlers and timers\<close>

inductive coord_step :: "Coordinator \<Rightarrow> Coordinator \<Rightarrow> bool" where
  ask: "HandleWorker c = Some (c', reply) \<Longrightarrow> coord_step c c'"
| finish: "HandleFinish args c = Some c' \<Longrightarrow> coord_step c c'"
| expire: "timers c = ts @ t # us \<Longrightarrow> timer_fire t (c\<lparr>timers := ts @ us\<rparr>) = Some c' \<Longrightarrow> coord_step c c'"

inductive coord_reach :: "string list \<Rightarrow> int \<Rightarrow> Coordinator \<Rightarrow> bool" for files nReduce where
  start: "coord_reach files nReduce (MakeCoordinator files nReduce)"
| step: "coord_reach files nReduce c \<Longrightarrow> coord_step c c' \<Longrightarrow> coord_reach files nReduce c'"

text \<open>
  The invariant. \<open>coord_shape\<close>: the tables name the tasks of the heap, whose numbers and files never
  change. \<open>coord_progress\<close>, on the two status maps and the timers: a status is one of the three,
  every running task has a timer, and a reduce task has left \<open>NOTRUN\<close> only if all maps are
  finished.
\<close>

definition coord_shape :: "string list \<Rightarrow> int \<Rightarrow> Coordinator \<Rightarrow> bool" where
  "coord_shape files nReduce c \<longleftrightarrow>
     ActiveMapTasks c = [0..<length files] \<and> ActiveReduceTasks c = [0..<nat nReduce] \<and> ReduceN c = nReduce
   \<and> (\<forall>i<length files. \<exists>t. map_heap c i = Some t \<and> m_TaskId t = int i + 1 \<and> m_FileName t = files ! i
        \<and> MapTaskMap c (int i + 1) = Some i)
   \<and> (\<forall>i<nat nReduce. \<exists>t. reduce_heap c i = Some t \<and> r_TaskId t = int i + 1
        \<and> r_FileName t = map (\<lambda>j. inter_name (j + 1) (i + 1)) [0..<length files] \<and> ReduceTaskMap c (int i + 1) = Some i)
   \<and> dom (MapTaskMap c) = {1..int (length files)} \<and> dom (ReduceTaskMap c) = {1..int (nat nReduce)}
   \<and> (\<forall>t\<in>set (timers c). case t of MapTimer i \<Rightarrow> i < length files | ReduceTimer i \<Rightarrow> i < nat nReduce)"

definition coord_progress :: "nat \<Rightarrow> nat \<Rightarrow> (nat \<rightharpoonup> int) \<Rightarrow> (nat \<rightharpoonup> int) \<Rightarrow> timer list \<Rightarrow> bool" where
  "coord_progress nm nr ms rs ts \<longleftrightarrow>
     (\<forall>i<nm. ms i \<in> {Some 0, Some 1, Some 2} \<and> (ms i = Some 1 \<longrightarrow> MapTimer i \<in> set ts))
   \<and> (\<forall>i<nr. rs i \<in> {Some 0, Some 1, Some 2} \<and> (rs i = Some 1 \<longrightarrow> ReduceTimer i \<in> set ts)
        \<and> (rs i \<noteq> Some 0 \<longrightarrow> (\<forall>j<nm. ms j = Some 2)))"

definition coord_inv :: "string list \<Rightarrow> int \<Rightarrow> Coordinator \<Rightarrow> bool" where
  "coord_inv files nReduce c \<longleftrightarrow> coord_shape files nReduce c
     \<and> coord_progress (length files) (nat nReduce) (map_status c) (reduce_status c) (timers c)"

section \<open>What the searches find\<close>

lemma getMapTask_find:
  "\<forall>p\<in>set ps. h p \<noteq> None \<Longrightarrow> getMapTask h ps = Some (List.find (\<lambda>p. map_option m_Status (h p) = Some 0) ps)"
  by (induction ps) auto

lemma first_notrun_find:
  "\<forall>p\<in>set ps. h p \<noteq> None \<Longrightarrow> first_notrun h ps = Some (List.find (\<lambda>p. map_option r_Status (h p) = Some 0) ps)"
  by (induction ps) auto

lemma all_finished_iff:
  "\<forall>p\<in>set ps. st p \<noteq> None \<Longrightarrow> all_finished st ps = Some (\<forall>p\<in>set ps. st p = Some 2)"
  by (induction ps) auto

lemma map_status_upd [simp]:
  "map_status (c\<lparr>map_heap := (map_heap c)(p \<mapsto> t), timers := ts\<rparr>) = (map_status c)(p \<mapsto> m_Status t)"
  "map_status (c\<lparr>map_heap := (map_heap c)(p \<mapsto> t)\<rparr>) = (map_status c)(p \<mapsto> m_Status t)"
  "map_status (c\<lparr>reduce_heap := rh, timers := ts\<rparr>) = map_status c"
  "map_status (c\<lparr>reduce_heap := rh\<rparr>) = map_status c"
  "map_status (c\<lparr>timers := ts\<rparr>) = map_status c"
  by (auto simp: map_status_def fun_eq_iff)

lemma reduce_status_upd [simp]:
  "reduce_status (c\<lparr>reduce_heap := (reduce_heap c)(p \<mapsto> t), timers := ts\<rparr>) = (reduce_status c)(p \<mapsto> r_Status t)"
  "reduce_status (c\<lparr>reduce_heap := (reduce_heap c)(p \<mapsto> t)\<rparr>) = (reduce_status c)(p \<mapsto> r_Status t)"
  "reduce_status (c\<lparr>map_heap := mh, timers := ts\<rparr>) = reduce_status c"
  "reduce_status (c\<lparr>map_heap := mh\<rparr>) = reduce_status c"
  "reduce_status (c\<lparr>timers := ts\<rparr>) = reduce_status c"
  by (auto simp: reduce_status_def fun_eq_iff)

lemma shape_status:
  assumes "coord_shape files nReduce c"
  shows "i < length files \<Longrightarrow> map_heap c i \<noteq> None \<and> map_status c i \<noteq> None"
    and "i < nat nReduce \<Longrightarrow> reduce_heap c i \<noteq> None \<and> reduce_status c i \<noteq> None"
  using assms by (auto simp: coord_shape_def map_status_def reduce_status_def)

lemma getMapTask_shape:
  assumes "coord_shape files nReduce c"
  shows "getMapTask (map_heap c) (ActiveMapTasks c) = Some (List.find (\<lambda>p. map_status c p = Some 0) [0..<length files])"
  using assms shape_status(1) [OF assms] getMapTask_find [of "[0..<length files]" "map_heap c"]
  by (simp add: coord_shape_def map_status_def)

lemma getReduceTask_shape:
  assumes "coord_shape files nReduce c"
  shows "getReduceTask c = Some (if \<forall>i<length files. map_status c i = Some 2
           then List.find (\<lambda>p. reduce_status c p = Some 0) [0..<nat nReduce] else None)"
  using assms shape_status [OF assms] first_notrun_find [of "[0..<nat nReduce]" "reduce_heap c"]
    all_finished_iff [of "[0..<length files]" "map_status c"]
  by (auto simp: getReduceTask_def coord_shape_def reduce_status_def [abs_def])

lemma Done_shape:
  assumes "coord_shape files nReduce c"
  shows "coord_Done c = Some (\<forall>i<nat nReduce. reduce_status c i = Some 2)"
  using assms shape_status(2) [OF assms] all_finished_iff [of "[0..<nat nReduce]" "reduce_status c"]
  by (auto simp: coord_Done_def coord_shape_def)

lemma find_upt: "List.find P [0..<n] = Some p \<Longrightarrow> p < n \<and> P p" "List.find P [0..<n] = None \<longleftrightarrow> (\<forall>i<n. \<not> P i)"
  by (auto simp: find_Some_iff find_None_iff)

text \<open>The three outcomes of a request for work.\<close>

lemma HandleWorker_outcome:
  assumes shape: "coord_shape files nReduce c"
  obtains
    (map) p where "p < length files" "map_status c p = Some 0"
      "HandleWorker c = Some (c\<lparr>map_heap := (map_heap c)(p \<mapsto> (the (map_heap c p))\<lparr>m_Status := 1\<rparr>), timers := timers c @ [MapTimer p]\<rparr>,
         \<lparr>FileName = [files ! p], TaskType = ''MAP'', TaskId = int p + 1, reply_ReduceN = nReduce\<rparr>)"
  | (reduce) p where "p < nat nReduce" "reduce_status c p = Some 0" "\<forall>i<length files. map_status c i = Some 2"
      "HandleWorker c = Some (c\<lparr>reduce_heap := (reduce_heap c)(p \<mapsto> (the (reduce_heap c p))\<lparr>r_Status := 1\<rparr>), timers := timers c @ [ReduceTimer p]\<rparr>,
         \<lparr>FileName = map (\<lambda>j. inter_name (j + 1) (p + 1)) [0..<length files], TaskType = ''REDUCE'', TaskId = int p + 1, reply_ReduceN = nReduce\<rparr>)"
  | (idle) "HandleWorker c = Some (c, zero_reply)" "\<forall>i<length files. map_status c i \<noteq> Some 0"
      "(\<exists>i<length files. map_status c i \<noteq> Some 2) \<or> (\<forall>i<nat nReduce. reduce_status c i \<noteq> Some 0)"
proof (cases "List.find (\<lambda>p. map_status c p = Some 0) [0..<length files]")
  case (Some p)
  with find_upt(1) [OF Some] shape getMapTask_shape [OF shape] show ?thesis
    by (intro map [of p]) (auto simp: HandleWorker_def coord_shape_def zero_reply_def)
next
  case None
  note nomap = None
  have get: "getMapTask (map_heap c) (ActiveMapTasks c) = Some None" using getMapTask_shape [OF shape] None by simp
  have notrun: "\<forall>i<length files. map_status c i \<noteq> Some 0" using None by (simp add: find_upt(2))
  show ?thesis
  proof (cases "getReduceTask c = Some None")
    case True
    with getReduceTask_shape [OF shape]
    have "(\<exists>i<length files. map_status c i \<noteq> Some 2) \<or> (\<forall>i<nat nReduce. reduce_status c i \<noteq> Some 0)"
      by (auto simp: find_upt(2) eq_commute [of None] split: if_splits)
    with True get notrun show ?thesis by (intro idle) (auto simp: HandleWorker_def)
  next
    case False
    with getReduceTask_shape [OF shape] obtain p where p: "getReduceTask c = Some (Some p)"
      "\<forall>i<length files. map_status c i = Some 2" "List.find (\<lambda>p. reduce_status c p = Some 0) [0..<nat nReduce] = Some p"
      by (auto split: if_splits)
    with find_upt(1) [OF p(3)] get shape show ?thesis
      by (intro reduce [of p]) (auto simp: HandleWorker_def coord_shape_def zero_reply_def)
  qed
qed

section \<open>The invariant holds\<close>

lemma upt_Suc_Cons: "i # [Suc i..<Suc (i + n)] = [i..<Suc (i + n)]"
  by (simp only: upt_conv_Cons [of i "Suc (i + n)"] le_add1 le_imp_less_Suc)

lemma make_map_tasks_frame:
  "ActiveReduceTasks (make_map_tasks i files c) = ActiveReduceTasks c" "reduce_heap (make_map_tasks i files c) = reduce_heap c"
  "ReduceTaskMap (make_map_tasks i files c) = ReduceTaskMap c" "timers (make_map_tasks i files c) = timers c"
  "ReduceN (make_map_tasks i files c) = ReduceN c"
  by (induction i files c rule: make_map_tasks.induct) simp_all

lemma make_map_tasks_Active: "ActiveMapTasks (make_map_tasks i files c) = ActiveMapTasks c @ [i..<i + length files]"
  by (induction i files c rule: make_map_tasks.induct) (simp_all add: upt_Suc_Cons del: upt_Suc)

lemma make_map_tasks_heap:
  "map_heap (make_map_tasks i files c) p = (if i \<le> p \<and> p < i + length files
     then Some \<lparr>m_TaskId = int p + 1, m_FileName = files ! (p - i), m_Status = 0\<rparr> else map_heap c p)"
  by (induction i files c rule: make_map_tasks.induct) (auto simp: nth_Cons' Suc_diff_Suc)

lemma make_map_tasks_map:
  "MapTaskMap (make_map_tasks i files c) q = (if int i + 1 \<le> q \<and> q \<le> int (i + length files) then Some (nat (q - 1)) else MapTaskMap c q)"
  by (induction i files c rule: make_map_tasks.induct) auto

lemma make_reduce_tasks_frame:
  "ActiveMapTasks (make_reduce_tasks i n nf c) = ActiveMapTasks c" "map_heap (make_reduce_tasks i n nf c) = map_heap c"
  "MapTaskMap (make_reduce_tasks i n nf c) = MapTaskMap c" "timers (make_reduce_tasks i n nf c) = timers c"
  "ReduceN (make_reduce_tasks i n nf c) = ReduceN c"
  by (induction i n nf c rule: make_reduce_tasks.induct) simp_all

lemma make_reduce_tasks_Active: "ActiveReduceTasks (make_reduce_tasks i n nf c) = ActiveReduceTasks c @ [i..<i + n]"
  by (induction i n nf c rule: make_reduce_tasks.induct) (simp_all add: upt_Suc_Cons del: upt_Suc)

lemma make_reduce_tasks_heap:
  "reduce_heap (make_reduce_tasks i n nf c) p = (if i \<le> p \<and> p < i + n
     then Some \<lparr>r_TaskId = int p + 1, r_FileName = map (\<lambda>j. inter_name (j + 1) (p + 1)) [0..<nf], r_Status = 0\<rparr> else reduce_heap c p)"
  by (induction i n nf c rule: make_reduce_tasks.induct) auto

lemma make_reduce_tasks_map:
  "ReduceTaskMap (make_reduce_tasks i n nf c) q = (if int i + 1 \<le> q \<and> q \<le> int (i + n) then Some (nat (q - 1)) else ReduceTaskMap c q)"
  by (induction i n nf c rule: make_reduce_tasks.induct) auto

lemmas make_tasks =
  make_map_tasks_frame make_map_tasks_Active make_map_tasks_heap make_map_tasks_map
  make_reduce_tasks_frame make_reduce_tasks_Active make_reduce_tasks_heap make_reduce_tasks_map

lemma MakeCoordinator_inv: "coord_inv files nReduce (MakeCoordinator files nReduce)"
  unfolding coord_inv_def coord_shape_def coord_progress_def MakeCoordinator_def
  by (auto simp: make_tasks map_status_def reduce_status_def dom_def split: if_splits)

text \<open>
  Every step writes the status of one task: a finished task keeps its status, a task that starts
  to run gets a timer, and only the timer of the written task may disappear.
\<close>

lemma inv_map_upd:
  assumes inv: "coord_inv files nReduce c" and i: "i < length files" "map_status c i = Some s"
    and v: "v = s \<or> s \<noteq> 2 \<and> v \<in> {0, 1, 2}" and ts: "v = 1 \<longrightarrow> MapTimer i \<in> set ts" "\<forall>t\<in>set (timers c). t \<noteq> MapTimer i \<longrightarrow> t \<in> set ts"
      "set ts \<subseteq> insert (MapTimer i) (set (timers c))"
  shows "coord_inv files nReduce (c\<lparr>map_heap := (map_heap c)(i \<mapsto> (the (map_heap c i))\<lparr>m_Status := v\<rparr>), timers := ts\<rparr>)"
    (is "coord_inv files nReduce ?c")
proof -
  from inv have prog: "coord_progress (length files) (nat nReduce) (map_status c) (reduce_status c) (timers c)"
    and shape: "coord_shape files nReduce c" by (simp_all add: coord_inv_def)
  have "coord_progress (length files) (nat nReduce) ((map_status c)(i \<mapsto> v)) (reduce_status c) ts"
    unfolding coord_progress_def
  proof (intro conjI allI impI)
    fix j assume j: "j < length files"
    show "((map_status c)(i \<mapsto> v)) j \<in> {Some 0, Some 1, Some 2}" using prog i j v by (auto simp: coord_progress_def)
    show "((map_status c)(i \<mapsto> v)) j = Some 1 \<Longrightarrow> MapTimer j \<in> set ts"
      using prog j ts(1,2) by (auto simp: coord_progress_def split: if_splits)
  next
    fix j assume j: "j < nat nReduce"
    show "reduce_status c j \<in> {Some 0, Some 1, Some 2}" "reduce_status c j = Some 1 \<Longrightarrow> ReduceTimer j \<in> set ts"
      using prog j ts(2) by (auto simp: coord_progress_def)
    fix k assume "reduce_status c j \<noteq> Some 0" "k < length files"
    with prog j have "map_status c k = Some 2" "map_status c i = Some 2" using i(1) unfolding coord_progress_def by blast+
    with v i(2) show "((map_status c)(i \<mapsto> v)) k = Some 2" by auto
  qed
  moreover have "coord_shape files nReduce ?c"
    using shape i(1) ts(3) unfolding coord_shape_def by (auto split: timer.splits)
  ultimately show ?thesis by (simp add: coord_inv_def)
qed

lemma inv_reduce_upd:
  assumes inv: "coord_inv files nReduce c" and i: "i < nat nReduce" "reduce_status c i = Some s"
    and v: "v = s \<or> s \<noteq> 2 \<and> v \<in> {0, 1, 2}" and ts: "v = 1 \<longrightarrow> ReduceTimer i \<in> set ts" "\<forall>t\<in>set (timers c). t \<noteq> ReduceTimer i \<longrightarrow> t \<in> set ts"
      "set ts \<subseteq> insert (ReduceTimer i) (set (timers c))" and maps: "v \<noteq> 0 \<longrightarrow> (\<forall>j<length files. map_status c j = Some 2)"
  shows "coord_inv files nReduce (c\<lparr>reduce_heap := (reduce_heap c)(i \<mapsto> (the (reduce_heap c i))\<lparr>r_Status := v\<rparr>), timers := ts\<rparr>)"
    (is "coord_inv files nReduce ?c")
proof -
  from inv have prog: "coord_progress (length files) (nat nReduce) (map_status c) (reduce_status c) (timers c)"
    and shape: "coord_shape files nReduce c" by (simp_all add: coord_inv_def)
  have "coord_progress (length files) (nat nReduce) (map_status c) ((reduce_status c)(i \<mapsto> v)) ts"
    unfolding coord_progress_def
  proof (intro conjI allI impI)
    fix j assume j: "j < nat nReduce"
    show "((reduce_status c)(i \<mapsto> v)) j \<in> {Some 0, Some 1, Some 2}" using prog i j v by (auto simp: coord_progress_def)
    show "((reduce_status c)(i \<mapsto> v)) j = Some 1 \<Longrightarrow> ReduceTimer j \<in> set ts"
      using prog j ts(1,2) by (auto simp: coord_progress_def split: if_splits)
    fix k assume k: "((reduce_status c)(i \<mapsto> v)) j \<noteq> Some 0" "k < length files"
    show "map_status c k = Some 2"
    proof (cases "j = i")
      case True
      with k maps show ?thesis by simp
    next
      case False
      with k prog j show ?thesis unfolding coord_progress_def by (metis fun_upd_other)
    qed
  next
    fix j assume j: "j < length files"
    show "map_status c j \<in> {Some 0, Some 1, Some 2}" "map_status c j = Some 1 \<Longrightarrow> MapTimer j \<in> set ts"
      using prog j ts(2) by (auto simp: coord_progress_def)
  qed
  moreover have "coord_shape files nReduce ?c"
    using shape i(1) ts(3) unfolding coord_shape_def by (auto split: timer.splits)
  ultimately show ?thesis by (simp add: coord_inv_def)
qed

lemma HandleWorker_inv:
  assumes inv: "coord_inv files nReduce c" and step: "HandleWorker c = Some (c', reply)"
  shows "coord_inv files nReduce c'"
proof -
  from inv have "coord_shape files nReduce c" by (simp add: coord_inv_def)
  then show ?thesis
  proof (cases rule: HandleWorker_outcome)
    case (map p)
    from inv_map_upd [OF inv map(1,2), of 1 "timers c @ [MapTimer p]"] map step show ?thesis by auto
  next
    case (reduce p)
    from inv_reduce_upd [OF inv reduce(1,2), of 1 "timers c @ [ReduceTimer p]"] reduce step show ?thesis by auto
  qed (use inv step in simp)
qed

lemma cas_status: "s \<in> {0, 1, 2} \<Longrightarrow> v \<in> {0, 2} \<Longrightarrow> cas s (1::int) v = s \<or> s \<noteq> 2 \<and> cas s 1 v \<in> {0, 1, 2}"
  by (auto simp: cas_def)

lemma cas_not_running: "v \<noteq> 1 \<Longrightarrow> cas s (1::int) v \<noteq> 1"
  by (auto simp: cas_def)

lemma inv_status:
  assumes "coord_inv files nReduce c"
  shows "i < length files \<Longrightarrow> \<exists>t. map_heap c i = Some t \<and> m_Status t \<in> {0, 1, 2} \<and> map_status c i = Some (m_Status t)"
    and "i < nat nReduce \<Longrightarrow> \<exists>t. reduce_heap c i = Some t \<and> r_Status t \<in> {0, 1, 2} \<and> reduce_status c i = Some (r_Status t)
          \<and> (r_Status t \<noteq> 0 \<longrightarrow> (\<forall>j<length files. map_status c j = Some 2))"
  using assms unfolding coord_inv_def coord_shape_def coord_progress_def
  by (fastforce simp: map_status_def reduce_status_def)+

lemma MapTaskMap_bound:
  assumes inv: "coord_inv files nReduce c" and k: "MapTaskMap c k = Some p"
  shows "p < length files"
proof -
  have "k \<in> {1..int (length files)}" using k inv by (auto simp: coord_inv_def coord_shape_def)
  then obtain i where "i < length files" "k = int i + 1" by (auto intro!: that [of "nat (k - 1)"])
  with k inv show ?thesis by (auto simp: coord_inv_def coord_shape_def)
qed

lemma ReduceTaskMap_bound:
  assumes inv: "coord_inv files nReduce c" and k: "ReduceTaskMap c k = Some p"
  shows "p < nat nReduce"
proof -
  have "k \<in> {1..int (nat nReduce)}" using k inv by (auto simp: coord_inv_def coord_shape_def)
  then obtain i where "i < nat nReduce" "k = int i + 1" by (auto intro!: that [of "nat (k - 1)"] split: if_splits)
  with k inv show ?thesis by (auto simp: coord_inv_def coord_shape_def)
qed

lemma HandleFinish_inv:
  assumes inv: "coord_inv files nReduce c" and step: "HandleFinish args c = Some c'"
  shows "coord_inv files nReduce c'"
proof -
  consider (map) p where "fin_TaskType args = ''MAP''" "MapTaskMap c (fin_Id args) = Some p"
    | (reduce) p where "fin_TaskType args = ''REDUCE''" "ReduceTaskMap c (fin_Id args) = Some p" | (none) "c' = c"
    using step by (auto simp: HandleFinish_def split: if_splits bind_splits)
  then show ?thesis
  proof cases
    case (map p)
    note p = MapTaskMap_bound [OF inv map(2)]
    from inv_status(1) [OF inv p] obtain t where t: "map_heap c p = Some t" "m_Status t \<in> {0, 1, 2}" "map_status c p = Some (m_Status t)" by blast
    from inv_map_upd [OF inv p t(3) cas_status [OF t(2)], of 2 "timers c"] map step t(1) show ?thesis
      by (auto simp: HandleFinish_def cas_not_running)
  next
    case (reduce p)
    note p = ReduceTaskMap_bound [OF inv reduce(2)]
    from inv_status(2) [OF inv p] obtain t where t: "reduce_heap c p = Some t" "r_Status t \<in> {0, 1, 2}" "reduce_status c p = Some (r_Status t)"
      "r_Status t \<noteq> 0 \<longrightarrow> (\<forall>j<length files. map_status c j = Some 2)" by blast
    from inv_reduce_upd [OF inv p t(3) cas_status [OF t(2)], of 2 "timers c"] reduce step t(1,4) show ?thesis
      by (auto simp: HandleFinish_def cas_not_running cas_def split: if_splits)
  qed (use inv in simp)
qed

lemma timers_upd_commute:
  "c\<lparr>timers := ts, map_heap := mh\<rparr> = c\<lparr>map_heap := mh, timers := ts\<rparr>"
  "c\<lparr>timers := ts, reduce_heap := rh\<rparr> = c\<lparr>reduce_heap := rh, timers := ts\<rparr>"
  by (cases c; simp)+

lemma timer_inv:
  assumes inv: "coord_inv files nReduce c" and t: "timers c = ts @ t # us" and step: "timer_fire t (c\<lparr>timers := ts @ us\<rparr>) = Some c'"
  shows "coord_inv files nReduce c'"
proof (cases t)
  case (MapTimer i)
  have i: "i < length files" using inv t MapTimer by (auto simp: coord_inv_def coord_shape_def)
  from inv_status(1) [OF inv i] obtain k where k: "map_heap c i = Some k" "m_Status k \<in> {0, 1, 2}" "map_status c i = Some (m_Status k)" by blast
  from inv_map_upd [OF inv i k(3) cas_status [OF k(2)], of 0 "ts @ us"] MapTimer t step k(1) show ?thesis
    by (auto simp: cas_not_running timers_upd_commute)
next
  case (ReduceTimer i)
  have i: "i < nat nReduce" using inv t ReduceTimer by (auto simp: coord_inv_def coord_shape_def)
  from inv_status(2) [OF inv i] obtain k where k: "reduce_heap c i = Some k" "r_Status k \<in> {0, 1, 2}" "reduce_status c i = Some (r_Status k)"
    "r_Status k \<noteq> 0 \<longrightarrow> (\<forall>j<length files. map_status c j = Some 2)" by blast
  from inv_reduce_upd [OF inv i k(3) cas_status [OF k(2)], of 0 "ts @ us"] ReduceTimer t step k(1,4) show ?thesis
    by (auto simp: cas_not_running timers_upd_commute cas_def split: if_splits)
qed

lemma coord_step_inv: "coord_step c c' \<Longrightarrow> coord_inv files nReduce c \<Longrightarrow> coord_inv files nReduce c'"
  by (induction rule: coord_step.induct) (auto intro: HandleWorker_inv HandleFinish_inv timer_inv)

lemma coord_reach_inv: "coord_reach files nReduce c \<Longrightarrow> coord_inv files nReduce c"
  by (induction rule: coord_reach.induct) (auto intro: MakeCoordinator_inv coord_step_inv)

section \<open>Finished tasks stay finished\<close>

lemma finished_stable:
  assumes step: "coord_step c c'" and inv: "coord_inv files nReduce c"
  shows "map_status c i = Some 2 \<Longrightarrow> map_status c' i = Some 2" and "reduce_status c i = Some 2 \<Longrightarrow> reduce_status c' i = Some 2"
proof -
  have "(map_status c i = Some 2 \<longrightarrow> map_status c' i = Some 2) \<and> (reduce_status c i = Some 2 \<longrightarrow> reduce_status c' i = Some 2)"
    using step
  proof cases
    case (ask reply)
    from inv have "coord_shape files nReduce c" by (simp add: coord_inv_def)
    then show ?thesis using ask by (cases rule: HandleWorker_outcome) auto
  next
    case (finish args)
    then show ?thesis
      by (auto simp: HandleFinish_def map_status_def reduce_status_def cas_def split: if_splits bind_splits)
  next
    case (expire ts t us)
    then show ?thesis
      by (cases t) (auto simp: map_status_def reduce_status_def cas_def split: if_splits bind_splits)
  qed
  then show "map_status c i = Some 2 \<Longrightarrow> map_status c' i = Some 2" and "reduce_status c i = Some 2 \<Longrightarrow> reduce_status c' i = Some 2" by auto
qed

section \<open>The job can always be completed\<close>

definition unfinished :: "string list \<Rightarrow> int \<Rightarrow> Coordinator \<Rightarrow> nat" where
  "unfinished files nReduce c =
     card {i. i < length files \<and> map_status c i \<noteq> Some 2} + card {i. i < nat nReduce \<and> reduce_status c i \<noteq> Some 2}"

lemma finish_map_step:
  assumes inv: "coord_inv files nReduce c" and i: "i < length files" "map_status c i = Some 1"
  shows "\<exists>c'. coord_step c c' \<and> map_status c' = (map_status c)(i \<mapsto> 2) \<and> reduce_status c' = reduce_status c"
proof -
  let ?args = "\<lparr>fin_Id = int i + 1, fin_TaskType = ''MAP''\<rparr>"
  from inv i(1) obtain t where t: "map_heap c i = Some t" "MapTaskMap c (int i + 1) = Some i"
    by (auto simp: coord_inv_def coord_shape_def)
  with i(2) have "HandleFinish ?args c = Some (c\<lparr>map_heap := (map_heap c)(i \<mapsto> t\<lparr>m_Status := 2\<rparr>)\<rparr>)"
    by (simp add: HandleFinish_def map_status_def)
  then show ?thesis by (intro exI conjI, rule coord_step.finish) auto
qed

lemma finish_reduce_step:
  assumes inv: "coord_inv files nReduce c" and i: "i < nat nReduce" "reduce_status c i = Some 1"
  shows "\<exists>c'. coord_step c c' \<and> reduce_status c' = (reduce_status c)(i \<mapsto> 2) \<and> map_status c' = map_status c"
proof -
  let ?args = "\<lparr>fin_Id = int i + 1, fin_TaskType = ''REDUCE''\<rparr>"
  from inv i(1) obtain t where t: "reduce_heap c i = Some t" "ReduceTaskMap c (int i + 1) = Some i"
    by (auto simp: coord_inv_def coord_shape_def)
  with i(2) have "HandleFinish ?args c = Some (c\<lparr>reduce_heap := (reduce_heap c)(i \<mapsto> t\<lparr>r_Status := 2\<rparr>)\<rparr>)"
    by (simp add: HandleFinish_def reduce_status_def)
  then show ?thesis by (intro exI conjI, rule coord_step.finish) auto
qed

lemma card_upd_less:
  assumes "i < (n::nat)" and "st i = Some s" and "s \<noteq> (2::int)"
  shows "card {j. j < n \<and> (st(i \<mapsto> 2)) j \<noteq> Some 2} < card {j. j < n \<and> st j \<noteq> Some 2}"
proof -
  have "{j. j < n \<and> (st(i \<mapsto> 2)) j \<noteq> Some 2} = {j. j < n \<and> st j \<noteq> Some 2} - {i}" by auto
  moreover have "i \<in> {j. j < n \<and> st j \<noteq> Some 2}" using assms by simp
  moreover have "finite {j. j < n \<and> st j \<noteq> Some 2}" by (rule finite_subset [of _ "{..<n}"]) auto
  ultimately show ?thesis using card_Diff1_less [of "{j. j < n \<and> st j \<noteq> Some 2}" i] by (simp only:)
qed

lemma coord_advance:
  assumes inv: "coord_inv files nReduce c" and more: "unfinished files nReduce c > 0"
  shows "\<exists>c'. coord_step\<^sup>*\<^sup>* c c' \<and> unfinished files nReduce c' < unfinished files nReduce c"
proof -
  have run_map: "\<exists>c'. coord_step d c' \<and> unfinished files nReduce c' < unfinished files nReduce d"
    if "coord_inv files nReduce d" "i < length files" "map_status d i = Some 1" for d i
    using finish_map_step [OF that] card_upd_less [of i "length files" "map_status d" 1] that by (auto simp: unfinished_def)
  have run_reduce: "\<exists>c'. coord_step d c' \<and> unfinished files nReduce c' < unfinished files nReduce d"
    if "coord_inv files nReduce d" "i < nat nReduce" "reduce_status d i = Some 1" for d i
    using finish_reduce_step [OF that] card_upd_less [of i "nat nReduce" "reduce_status d" 1] that by (auto simp: unfinished_def)
  from inv have shape: "coord_shape files nReduce c" by (simp add: coord_inv_def)
  then show ?thesis
  proof (cases rule: HandleWorker_outcome)
    case (map p)
    let ?d = "c\<lparr>map_heap := (map_heap c)(p \<mapsto> (the (map_heap c p))\<lparr>m_Status := 1\<rparr>), timers := timers c @ [MapTimer p]\<rparr>"
    have step: "coord_step c ?d" by (rule coord_step.ask [OF map(3)])
    have "{j. j < length files \<and> ((map_status c)(p \<mapsto> 1)) j \<noteq> Some 2} = {j. j < length files \<and> map_status c j \<noteq> Some 2}"
      using map(2) by auto
    then have "unfinished files nReduce ?d = unfinished files nReduce c" by (simp add: unfinished_def)
    moreover have "map_status ?d p = Some 1" by simp
    ultimately show ?thesis using run_map [OF coord_step_inv [OF step inv] map(1)] step
      by (metis r_into_rtranclp rtranclp.rtrancl_into_rtrancl)
  next
    case (reduce p)
    let ?d = "c\<lparr>reduce_heap := (reduce_heap c)(p \<mapsto> (the (reduce_heap c p))\<lparr>r_Status := 1\<rparr>), timers := timers c @ [ReduceTimer p]\<rparr>"
    have step: "coord_step c ?d" by (rule coord_step.ask [OF reduce(4)])
    have "{j. j < nat nReduce \<and> ((reduce_status c)(p \<mapsto> 1)) j \<noteq> Some 2} = {j. j < nat nReduce \<and> reduce_status c j \<noteq> Some 2}"
      using reduce(2) by auto
    then have "unfinished files nReduce ?d = unfinished files nReduce c" by (simp add: unfinished_def)
    moreover have "reduce_status ?d p = Some 1" by simp
    ultimately show ?thesis using run_reduce [OF coord_step_inv [OF step inv] reduce(1)] step
      by (metis r_into_rtranclp rtranclp.rtrancl_into_rtrancl)
  next
    case idle
    note prog = inv [unfolded coord_inv_def coord_progress_def, THEN conjunct2]
    have "\<exists>i. i < length files \<and> map_status c i = Some 1 \<or> i < nat nReduce \<and> reduce_status c i = Some 1"
    proof (cases "\<exists>i<length files. map_status c i \<noteq> Some 2")
      case True
      with idle(2) prog show ?thesis by blast
    next
      case False
      with more have "\<exists>i<nat nReduce. reduce_status c i \<noteq> Some 2"
        by (auto simp: unfinished_def card_gt_0_iff)
      with False idle(3) prog show ?thesis by blast
    qed
    then show ?thesis using run_map [OF inv] run_reduce [OF inv] by (metis r_into_rtranclp)
  qed
qed

lemma coord_complete:
  "coord_inv files nReduce c \<Longrightarrow> \<exists>c'. coord_step\<^sup>*\<^sup>* c c' \<and> unfinished files nReduce c' = 0"
proof (induction "unfinished files nReduce c" arbitrary: c rule: less_induct)
  case less
  show ?case
  proof (cases "unfinished files nReduce c = 0")
    case False
    with coord_advance [OF less.prems] obtain d where d: "coord_step\<^sup>*\<^sup>* c d" "unfinished files nReduce d < unfinished files nReduce c"
      by auto
    have "coord_inv files nReduce d" using d(1) less.prems by (induction rule: rtranclp_induct) (auto intro: coord_step_inv)
    from less.hyps [OF d(2) this] d(1) show ?thesis by (meson rtranclp_trans)
  qed auto
qed

text \<open>Concrete runs: one file and one reduce task, with a worker that crashes.\<close>

definition sample_job :: Coordinator where
  "sample_job = MakeCoordinator [''f''] 1"

definition sample_asked :: Coordinator where
  "sample_asked = fst (the (HandleWorker sample_job))"

definition sample_mapped :: Coordinator where
  "sample_mapped = the (HandleFinish \<lparr>fin_Id = 1, fin_TaskType = ''MAP''\<rparr> sample_asked)"

lemmas sample_job_simps = sample_job_def sample_asked_def sample_mapped_def MakeCoordinator_def HandleWorker_def HandleFinish_def
  getReduceTask_def map_status_def zero_reply_def

lemma sample_reach:
  "coord_reach [''f''] 1 sample_job" "coord_reach [''f''] 1 sample_asked" "coord_reach [''f''] 1 sample_mapped"
proof -
  show 1: "coord_reach [''f''] 1 sample_job" unfolding sample_job_def by (rule coord_reach.start)
  have "HandleWorker sample_job = Some (sample_asked, snd (the (HandleWorker sample_job)))"
    by (simp add: sample_job_simps)
  from coord_reach.step [OF 1 coord_step.ask [OF this]] show 2: "coord_reach [''f''] 1 sample_asked" .
  have "HandleFinish \<lparr>fin_Id = 1, fin_TaskType = ''MAP''\<rparr> sample_asked = Some sample_mapped"
    by (simp add: sample_job_simps)
  from coord_reach.step [OF 2 coord_step.finish [OF this]] show "coord_reach [''f''] 1 sample_mapped" .
qed

section \<open>What the coordinator guarantees\<close>

text \<open>
  C19. In every state the coordinator can reach, by any interleaving of worker requests, finish
  messages and expired timers, a reduce task is handed out only when every map task is finished,
  and it is the first reduce task that is not running, with the intermediate files of all maps.
\<close>

theorem reduce_after_maps:
  assumes "coord_reach files nReduce c" and "HandleWorker c = Some (c', reply)" and "TaskType reply = ''REDUCE''"
  shows "(\<forall>i<length files. map_status c i = Some 2)
    \<and> (\<exists>p<nat nReduce. reduce_status c p = Some 0 \<and> reduce_status c' p = Some 1 \<and> TaskId reply = int p + 1
         \<and> FileName reply = map (\<lambda>j. inter_name (j + 1) (p + 1)) [0..<length files])"
proof -
  from coord_reach_inv [OF assms(1)] have "coord_shape files nReduce c" by (simp add: coord_inv_def)
  then show ?thesis using assms(2,3) by (cases rule: HandleWorker_outcome) (auto simp: zero_reply_def)
qed

theorem reduce_after_maps_witness:
  "map_status sample_mapped 0 = Some 2
    \<and> (\<exists>p<nat 1. reduce_status sample_mapped p = Some 0
         \<and> reduce_status (fst (the (HandleWorker sample_mapped))) p = Some 1
         \<and> TaskId (snd (the (HandleWorker sample_mapped))) = int p + 1
         \<and> FileName (snd (the (HandleWorker sample_mapped))) = map (\<lambda>j. inter_name (j + 1) (p + 1)) [0..<length [''f'']])"
  using reduce_after_maps [OF sample_reach(3), of "fst (the (HandleWorker sample_mapped))" "snd (the (HandleWorker sample_mapped))"]
  by (simp add: sample_job_simps)

text \<open>
  C20. No task is lost: in every reachable state each running task still has its timer, so the
  task returns to \<open>NOTRUN\<close> if its worker crashes, and whatever workers did so far the job can be
  brought to a state where \<open>Done\<close> returns true.
\<close>

theorem no_task_lost:
  assumes "coord_reach files nReduce c"
  shows "(\<forall>i<length files. map_status c i = Some 1 \<longrightarrow> MapTimer i \<in> set (timers c))
    \<and> (\<forall>i<nat nReduce. reduce_status c i = Some 1 \<longrightarrow> ReduceTimer i \<in> set (timers c))
    \<and> (\<exists>c'. coord_step\<^sup>*\<^sup>* c c' \<and> coord_Done c' = Some True)"
proof -
  note inv = coord_reach_inv [OF assms]
  from coord_complete [OF inv] obtain c' where c': "coord_step\<^sup>*\<^sup>* c c'" "unfinished files nReduce c' = 0" by blast
  have "coord_inv files nReduce c'" using c'(1) inv by (induction rule: rtranclp_induct) (auto intro: coord_step_inv)
  then have "coord_Done c' = Some (\<forall>i<nat nReduce. reduce_status c' i = Some 2)"
    by (intro Done_shape [of files]) (simp add: coord_inv_def)
  moreover have "\<forall>i<nat nReduce. reduce_status c' i = Some 2" using c'(2) by (auto simp: unfinished_def)
  ultimately show ?thesis using inv c'(1) by (auto simp: coord_inv_def coord_progress_def)
qed

theorem no_task_lost_witness:
  "map_status sample_asked 0 = Some 1 \<and> MapTimer 0 \<in> set (timers sample_asked)
    \<and> (\<exists>c'. coord_step\<^sup>*\<^sup>* sample_asked c' \<and> coord_Done c' = Some True)"
  using no_task_lost [OF sample_reach(2)] by (simp add: sample_job_simps)

text \<open>
  \<open>Done\<close> never panics and returns true exactly when every reduce task is finished; it then
  stays true, and if there is a reduce task all maps are finished as well.
\<close>

theorem Done_final:
  assumes "coord_reach files nReduce c" and "coord_step c c'"
  shows "coord_Done c = Some (\<forall>i<nat nReduce. reduce_status c i = Some 2)
    \<and> (coord_Done c = Some True \<longrightarrow> coord_Done c' = Some True \<and> (0 < nReduce \<longrightarrow> (\<forall>i<length files. map_status c i = Some 2)))"
proof -
  note inv = coord_reach_inv [OF assms(1)]
  have "coord_shape files nReduce c" "coord_shape files nReduce c'"
    using inv coord_step_inv [OF assms(2) inv] by (simp_all add: coord_inv_def)
  note d = this [THEN Done_shape]
  have "\<forall>i<length files. map_status c i = Some 2" if "0 < nReduce" "\<forall>i<nat nReduce. reduce_status c i = Some 2"
  proof -
    from that have "reduce_status c 0 = Some 2" by simp
    with that(1) inv show ?thesis unfolding coord_inv_def coord_progress_def
      by (metis option.inject zero_less_nat_eq zero_neq_numeral)
  qed
  with d finished_stable(2) [OF assms(2) inv] show ?thesis by auto
qed

theorem Done_final_witness:
  "coord_Done sample_job = Some (\<forall>i<nat 1. reduce_status sample_job i = Some 2)"
proof -
  have "coord_step sample_job sample_asked"
    by (rule coord_step.ask [of _ _ "snd (the (HandleWorker sample_job))"]) (simp add: sample_job_simps)
  from Done_final [OF sample_reach(1) this] show ?thesis by blast
qed

text \<open>
  C25. Invariant of the coordinator: in every reachable state the tables hold exactly the tasks of
  the job, every status is one of the three, and a reduce task has been started only if all map
  tasks are finished.
\<close>

theorem coordinator_invariant:
  assumes "coord_reach files nReduce c"
  shows "ActiveMapTasks c = [0..<length files] \<and> ActiveReduceTasks c = [0..<nat nReduce]
    \<and> (\<forall>i<length files. map_status c i \<in> {Some 0, Some 1, Some 2})
    \<and> (\<forall>i<nat nReduce. reduce_status c i \<in> {Some 0, Some 1, Some 2}
         \<and> (reduce_status c i \<noteq> Some 0 \<longrightarrow> (\<forall>j<length files. map_status c j = Some 2)))"
  using coord_reach_inv [OF assms] by (simp add: coord_inv_def coord_shape_def coord_progress_def)

theorem coordinator_invariant_witness:
  "ActiveMapTasks sample_mapped = [0..<1] \<and> map_status sample_mapped 0 \<in> {Some 0, Some 1, Some 2}"
  using coordinator_invariant [OF sample_reach(3)] by simp

text \<open>
  A finish message for a task number the job does not have is a nil dereference that panics
  the coordinator; for any other message of a reachable state the handler returns.
\<close>

theorem HandleFinish_panics:
  assumes "coord_reach files nReduce c"
  shows "HandleFinish args c = None \<longleftrightarrow>
    (fin_TaskType args = ''MAP'' \<and> fin_Id args \<notin> {1..int (length files)}
     \<or> fin_TaskType args = ''REDUCE'' \<and> fin_Id args \<notin> {1..int (nat nReduce)})"
proof -
  note inv = coord_reach_inv [OF assms]
  have "dom (MapTaskMap c) = {1..int (length files)}" "dom (ReduceTaskMap c) = {1..int (nat nReduce)}"
    using inv by (simp_all add: coord_inv_def coord_shape_def)
  then have doms: "fin_Id args \<notin> {1..int (length files)} \<longleftrightarrow> MapTaskMap c (fin_Id args) = None"
    "fin_Id args \<notin> {1..int (nat nReduce)} \<longleftrightarrow> ReduceTaskMap c (fin_Id args) = None"
    by (metis domIff)+
  have heaps: "MapTaskMap c (fin_Id args) = Some p \<Longrightarrow> \<exists>t. map_heap c p = Some t"
    "ReduceTaskMap c (fin_Id args) = Some p \<Longrightarrow> \<exists>t. reduce_heap c p = Some t" for p
    using MapTaskMap_bound [OF inv] ReduceTaskMap_bound [OF inv] inv_status [OF inv] by blast+
  show ?thesis unfolding doms HandleFinish_def
    using heaps(1) [of "the (MapTaskMap c (fin_Id args))"] heaps(2) [of "the (ReduceTaskMap c (fin_Id args))"]
    by (cases "MapTaskMap c (fin_Id args)"; cases "ReduceTaskMap c (fin_Id args)") auto
qed

theorem HandleFinish_panics_witness:
  "HandleFinish \<lparr>fin_Id = 7, fin_TaskType = ''MAP''\<rparr> sample_asked = None"
  using HandleFinish_panics [OF sample_reach(2), of "\<lparr>fin_Id = 7, fin_TaskType = ''MAP''\<rparr>"] by simp

end
