(* ===== verification/Mr_Worker.thy ===== *)
theory Mr_Worker
  imports Mr_Coordinator "HOL-Library.List_Lexorder" "HOL-Library.Char_ord"
begin

text \<open>
  The MapReduce worker (\<open>mr/worker.go\<close>) and the sequential reference program
  (\<open>main/mrsequential.go\<close>). A file system is a map from names to contents. \<open>doMap\<close> and
  \<open>doReduce\<close> are functions on it; the application's \<open>Map\<close> and \<open>Reduce\<close> functions, which the code
  loads from a plugin, are arguments. \<open>None\<close> is \<open>log.Fatalf\<close> or a panic.

  Intermediate files hold a stream of JSON objects: \<open>enc_kv\<close> is what \<open>json.Encoder\<close> writes for a
  \<open>KeyValue\<close> whose strings are valid UTF-8 without U+2028 and U+2029, and \<open>dec_stream\<close> reads such a
  stream until the first error. On a text that no encoder wrote, \<open>dec_stream\<close> stops at the first
  difference, while \<open>json.Decoder\<close> also accepts other layouts of the same object.

  The specification of a job is \<open>out_lines\<close>: one line per distinct key, in order.
\<close>

section \<open>Keys, values, hashing\<close>

record KeyValue =
  kv_Key :: string
  kv_Value :: string

definition ByKey_Less :: "KeyValue \<Rightarrow> KeyValue \<Rightarrow> bool" where
  "ByKey_Less a b \<longleftrightarrow> kv_Key a < kv_Key b"

text \<open>\<open>hash/fnv\<close>'s 32-bit FNV-1a: xor each byte, multiply by the prime, from the offset basis.\<close>

definition fnv1a :: "string \<Rightarrow> 32 word" where
  "fnv1a key = foldl (\<lambda>h c. xor h (of_nat (of_char c)) * 16777619) 2166136261 key"

definition ihash :: "string \<Rightarrow> nat" where
  "ihash key = unat (and (fnv1a key) 0x7fffffff)"

section \<open>The JSON stream\<close>

definition hexdig :: "nat \<Rightarrow> char" where
  "hexdig d = char_of (if d < 10 then 48 + d else 87 + d)"

definition hexval :: "char \<Rightarrow> nat option" where
  "hexval c = (let n = (of_char c :: nat) in
     if 48 \<le> n \<and> n \<le> 57 then Some (n - 48) else if 97 \<le> n \<and> n \<le> 102 then Some (n - 87)
     else if 65 \<le> n \<and> n \<le> 70 then Some (n - 55) else None)"

definition enc_char :: "char \<Rightarrow> string" where
  "enc_char c = (let n = (of_char c :: nat) in
     if n = 34 \<or> n = 92 then [CHR 92, c]
     else if n = 10 then [CHR 92, CHR ''n'']
     else if n = 13 then [CHR 92, CHR ''r'']
     else if n = 9 then [CHR 92, CHR ''t'']
     else if n < 32 \<or> n = 38 \<or> n = 60 \<or> n = 62
     then [CHR 92, CHR ''u'', CHR ''0'', CHR ''0'', hexdig (n div 16), hexdig (n mod 16)]
     else [c])"

definition enc_string :: "string \<Rightarrow> string" where
  "enc_string s = CHR 34 # concat (map enc_char s) @ [CHR 34]"

definition enc_kv :: "KeyValue \<Rightarrow> string" where
  "enc_kv kv = ''{'' @ enc_string ''Key'' @ '':'' @ enc_string (kv_Key kv) @ '','' @ enc_string ''Value'' @ '':''
     @ enc_string (kv_Value kv) @ ''}'' @ [CHR 10]"

text \<open>The character after a backslash.\<close>

fun dec_esc :: "string \<Rightarrow> (char \<times> string) option" where
  "dec_esc [] = None"
| "dec_esc (x # cs) =
     (if x = CHR 34 \<or> x = CHR 92 \<or> x = CHR ''/'' then Some (x, cs)
      else if x = CHR ''n'' then Some (CHR 10, cs)
      else if x = CHR ''r'' then Some (CHR 13, cs)
      else if x = CHR ''t'' then Some (CHR 9, cs)
      else if x = CHR ''b'' then Some (CHR 8, cs)
      else if x = CHR ''f'' then Some (CHR 12, cs)
      else if x = CHR ''u'' then (case cs of
          a # b # d # e # rest \<Rightarrow> (case (hexval a, hexval b, hexval d, hexval e) of
              (Some 0, Some 0, Some i, Some j) \<Rightarrow> Some (char_of (16 * i + j), rest)
            | _ \<Rightarrow> None)
        | _ \<Rightarrow> None)
      else None)"

lemma dec_esc_shorter: "dec_esc cs = Some (c, rest) \<Longrightarrow> length rest < length cs"
  by (cases cs) (auto split: if_splits list.splits option.splits nat.splits)

function dec_chars :: "string \<Rightarrow> (string \<times> string) option" where
  "dec_chars [] = None"
| "dec_chars (c # cs) =
     (if c = CHR 34 then Some ([], cs)
      else if c = CHR 92 then (case dec_esc cs of
          None \<Rightarrow> None
        | Some (x, rest) \<Rightarrow> map_option (\<lambda>(s, t). (x # s, t)) (dec_chars rest))
      else map_option (\<lambda>(s, t). (c # s, t)) (dec_chars cs))"
  by pat_completeness auto
termination by (relation "measure length") (auto dest: dec_esc_shorter)

fun expect :: "string \<Rightarrow> string \<Rightarrow> string option" where
  "expect [] s = Some s"
| "expect (p # ps) [] = None"
| "expect (p # ps) (c # cs) = (if p = c then expect ps cs else None)"

definition dec_string :: "string \<Rightarrow> (string \<times> string) option" where
  "dec_string s = do { s \<leftarrow> expect [CHR 34] s; dec_chars s }"

definition dec_kv :: "string \<Rightarrow> (KeyValue \<times> string) option" where
  "dec_kv s = do {
     s \<leftarrow> expect (''{'' @ enc_string ''Key'' @ '':'') s;
     (k, s) \<leftarrow> dec_string s;
     s \<leftarrow> expect ('','' @ enc_string ''Value'' @ '':'') s;
     (v, s) \<leftarrow> dec_string s;
     s \<leftarrow> expect (''}'' @ [CHR 10]) s;
     Some (\<lparr>kv_Key = k, kv_Value = v\<rparr>, s)
   }"

text \<open>The loop of \<open>doReduce\<close> over one file: decode until an error, with one round per object.\<close>

fun dec_loop :: "nat \<Rightarrow> string \<Rightarrow> KeyValue list" where
  "dec_loop 0 s = []"
| "dec_loop (Suc fuel) s = (case dec_kv s of None \<Rightarrow> [] | Some (kv, s') \<Rightarrow> kv # dec_loop fuel s')"

definition dec_stream :: "string \<Rightarrow> KeyValue list" where
  "dec_stream s = dec_loop (length s) s"

section \<open>Map and reduce tasks\<close>

type_synonym fs = "string \<rightharpoonup> string"

fun read_map :: "fs \<Rightarrow> (string \<Rightarrow> string \<Rightarrow> KeyValue list) \<Rightarrow> string list \<Rightarrow> KeyValue list option" where
  "read_map fs mapf [] = Some []"
| "read_map fs mapf (filename # files) = do {
     content \<leftarrow> fs filename;
     let kva = mapf filename content;
     rest \<leftarrow> read_map fs mapf files;
     Some (kva @ rest)
   }"

fun split_bulks :: "nat \<Rightarrow> KeyValue list \<Rightarrow> (nat \<rightharpoonup> KeyValue list) \<Rightarrow> (nat \<rightharpoonup> KeyValue list) option" where
  "split_bulks reduceN [] bulks = Some bulks"
| "split_bulks reduceN (v # vs) bulks =
     (if reduceN = 0 then None
      else let reduceNumber = ihash (kv_Key v) mod reduceN
           in split_bulks reduceN vs (bulks(reduceNumber \<mapsto>
                (case bulks reduceNumber of Some bulk \<Rightarrow> bulk @ [v] | None \<Rightarrow> [v]))))"

fun write_bulks :: "nat \<Rightarrow> (nat \<rightharpoonup> KeyValue list) \<Rightarrow> nat list \<Rightarrow> fs \<Rightarrow> fs" where
  "write_bulks taskId bulks [] fs = fs"
| "write_bulks taskId bulks (r # rs) fs =
     write_bulks taskId bulks rs
       (fs(inter_name taskId (r + 1) \<mapsto> (case bulks r of Some bulk \<Rightarrow> concat (map enc_kv bulk) | None \<Rightarrow> [])))"

definition doMap ::
  "(KeyValue list \<Rightarrow> KeyValue list) \<Rightarrow> (string \<Rightarrow> string \<Rightarrow> KeyValue list) \<Rightarrow> string list \<Rightarrow> nat \<Rightarrow> nat \<Rightarrow> fs \<Rightarrow> fs option" where
  "doMap srt mapf fileNames taskId reduceN fs = do {
     intermediate \<leftarrow> read_map fs mapf fileNames;
     bulks \<leftarrow> split_bulks reduceN intermediate Map.empty;
     let bulks = (\<lambda>r. map_option srt (bulks r));
     Some (write_bulks taskId bulks [0..<reduceN] fs)
   }"

text \<open>A file that cannot be opened gives a nil file, on which the first \<open>Decode\<close> fails.\<close>

definition read_inter :: "fs \<Rightarrow> string list \<Rightarrow> KeyValue list" where
  "read_inter fs fileNames = concat (map (\<lambda>f. case fs f of Some s \<Rightarrow> dec_stream s | None \<Rightarrow> []) fileNames)"

definition out_line :: "(string \<Rightarrow> string list \<Rightarrow> string) \<Rightarrow> string \<Rightarrow> string list \<Rightarrow> string" where
  "out_line reducef k vs = k @ '' '' @ reducef k vs @ [CHR 10]"

function reduce_loop :: "(string \<Rightarrow> string list \<Rightarrow> string) \<Rightarrow> KeyValue list \<Rightarrow> string" where
  "reduce_loop reducef [] = []"
| "reduce_loop reducef (kv # rest) =
     (let same = takeWhile (\<lambda>x. kv_Key x = kv_Key kv) rest
      in out_line reducef (kv_Key kv) (map kv_Value (kv # same))
         @ reduce_loop reducef (dropWhile (\<lambda>x. kv_Key x = kv_Key kv) rest))"
  by pat_completeness auto
termination by (relation "measure (length \<circ> snd)") (auto simp: le_imp_less_Suc length_dropWhile_le)

definition out_name :: "nat \<Rightarrow> string" where
  "out_name i = ''mr-out-'' @ itoa i"

definition doReduce ::
  "(KeyValue list \<Rightarrow> KeyValue list) \<Rightarrow> (string \<Rightarrow> string list \<Rightarrow> string) \<Rightarrow> string list \<Rightarrow> nat \<Rightarrow> fs \<Rightarrow> fs" where
  "doReduce srt reducef fileNames taskId fs =
     (let fs = fs(out_name taskId \<mapsto> []);
          intermediate = srt (read_inter fs fileNames)
      in fs(out_name taskId \<mapsto> reduce_loop reducef intermediate))"

text \<open>\<open>main\<close> of \<open>mrsequential.go\<close>, after its arguments and the plugin have been read.\<close>

definition mrsequential ::
  "(KeyValue list \<Rightarrow> KeyValue list) \<Rightarrow> (string \<Rightarrow> string \<Rightarrow> KeyValue list) \<Rightarrow> (string \<Rightarrow> string list \<Rightarrow> string)
     \<Rightarrow> string list \<Rightarrow> fs \<Rightarrow> fs option" where
  "mrsequential srt mapf reducef files fs = do {
     intermediate \<leftarrow> read_map fs mapf files;
     Some (fs(out_name 0 \<mapsto> reduce_loop reducef (srt intermediate)))
   }"

section \<open>The stream is read back\<close>

lemma hexval_hexdig: "d < 16 \<Longrightarrow> hexval (hexdig d) = Some d"
  unfolding hexval_def hexdig_def by (auto simp: Let_def)

lemma char_code: "(of_char c :: nat) = n \<Longrightarrow> c = char_of n"
  by (metis char_of_char)

lemma char_codes:
  "(of_char c :: nat) = 34 \<longleftrightarrow> c = CHR 34" "(of_char c :: nat) = 92 \<longleftrightarrow> c = CHR 92" "(of_char c :: nat) = 10 \<longleftrightarrow> c = CHR 10"
  "(of_char c :: nat) = 13 \<longleftrightarrow> c = CHR 13" "(of_char c :: nat) = 9 \<longleftrightarrow> c = CHR 9"
  by (auto simp: char_of_def bit_Suc_0_iff dest!: char_code)

lemma of_char_less: "(of_char c :: nat) < 256"
  by (metis char_of_char of_char_of mod_less_divisor zero_less_numeral)

lemma enc_char_hex:
  "dec_chars ([CHR 92, CHR ''u'', CHR ''0'', CHR ''0'', hexdig (of_char c div 16), hexdig (of_char c mod 16)] @ t)
     = map_option (\<lambda>(s, u). (c # s, u)) (dec_chars t)"
proof -
  have n: "(of_char c :: nat) div 16 < 16" "(of_char c :: nat) mod 16 < 16" using of_char_less by (auto simp: less_mult_imp_div_less)
  have z: "hexval CHR ''0'' = Some 0" by (simp add: hexval_def)
  show ?thesis by (simp add: hexval_hexdig n z)
qed

lemma dec_enc_char: "dec_chars (enc_char c @ t) = map_option (\<lambda>(s, u). (c # s, u)) (dec_chars t)"
proof -
  consider "c = CHR 34 \<or> c = CHR 92" | "c = CHR 10" | "c = CHR 13" | "c = CHR 9"
    | (hex) "enc_char c = [CHR 92, CHR ''u'', CHR ''0'', CHR ''0'', hexdig (of_char c div 16), hexdig (of_char c mod 16)]"
    | (plain) "enc_char c = [c]" "c \<noteq> CHR 34" "c \<noteq> CHR 92"
    unfolding enc_char_def Let_def char_codes
    by (cases "c = CHR 34"; cases "c = CHR 92"; cases "c = CHR 10"; cases "c = CHR 13"; cases "c = CHR 9";
        cases "of_char c < (32::nat) \<or> of_char c = (38::nat) \<or> of_char c = (60::nat) \<or> of_char c = (62::nat)") auto
  then show ?thesis
  proof cases
    case hex
    show ?thesis unfolding hex by (rule enc_char_hex)
  qed (auto simp: enc_char_def)
qed

lemma dec_enc_chars: "dec_chars (concat (map enc_char s) @ CHR 34 # t) = Some (s, t)"
  by (induction s) (simp_all add: dec_enc_char)

lemma expect_append: "expect p (p @ t) = Some t"
  by (induction p) auto

lemma dec_enc_string: "dec_string (enc_string s @ t) = Some (s, t)"
  by (simp add: dec_string_def enc_string_def dec_enc_chars)

lemma dec_enc_kv: "dec_kv (enc_kv kv @ t) = Some (kv, t)"
proof -
  have 1: "expect (''{'' @ enc_string ''Key'' @ '':'') (enc_kv kv @ t) = Some (enc_string (kv_Key kv) @ ('','' @ enc_string ''Value'' @ '':''
     @ enc_string (kv_Value kv) @ (''}'' @ [CHR 10]) @ t))"
    using expect_append [of "''{'' @ enc_string ''Key'' @ '':''"] by (simp add: enc_kv_def)
  have 2: "expect ('','' @ enc_string ''Value'' @ '':'') ('','' @ enc_string ''Value'' @ '':'' @ enc_string (kv_Value kv) @ (''}'' @ [CHR 10]) @ t)
      = Some (enc_string (kv_Value kv) @ (''}'' @ [CHR 10]) @ t)"
    using expect_append [of "'','' @ enc_string ''Value'' @ '':''"] by simp
  show ?thesis unfolding dec_kv_def 1 by (simp only: Option.bind.simps dec_enc_string split_conv 2 expect_append KeyValue.surjective) simp
qed

lemma dec_kv_Nil: "dec_kv [] = None"
  by (simp add: dec_kv_def)

lemma enc_kv_length: "length kvs \<le> length (concat (map enc_kv kvs))"
  by (induction kvs) (auto simp: enc_kv_def)

lemma dec_loop_enc: "length kvs \<le> fuel \<Longrightarrow> dec_loop fuel (concat (map enc_kv kvs)) = kvs"
proof (induction kvs arbitrary: fuel)
  case Nil
  then show ?case by (cases fuel) (simp_all add: dec_kv_Nil)
next
  case (Cons kv kvs)
  then obtain f where "fuel = Suc f" "length kvs \<le> f" by (cases fuel) auto
  with Cons.IH show ?case by (simp add: dec_enc_kv)
qed

lemma dec_stream_enc: "dec_stream (concat (map enc_kv kvs)) = kvs"
  unfolding dec_stream_def by (rule dec_loop_enc [OF enc_kv_length])

text \<open>What the reduce task asks of the encoding, and the instance.\<close>

locale stream_codec =
  fixes enc :: "'k \<Rightarrow> string" and dec :: "string \<Rightarrow> 'k list"
  assumes dec_enc: "dec (concat (map enc xs)) = xs"
begin

lemma read_back:
  assumes "\<And>f. f \<in> set names \<Longrightarrow> fs f = Some (concat (map enc (content f)))"
  shows "concat (map (\<lambda>f. case fs f of Some s \<Rightarrow> dec s | None \<Rightarrow> []) names) = concat (map content names)"
  using assms by (induction names) (auto simp: dec_enc)

end

interpretation json: stream_codec enc_kv dec_stream
  by unfold_locales (rule dec_stream_enc)

section \<open>File names\<close>

lemma inter_name_inj: "inter_name i j = inter_name i' j' \<longleftrightarrow> i = i' \<and> j = j'"
  using append_sep_eq [of "CHR ''-''" "itoa i" "itoa i'" "itoa j" "itoa j'"] itoa_no_dash
  by (simp add: inter_name_def itoa_inj)

lemma out_name_inj: "out_name i = out_name j \<longleftrightarrow> i = j"
  by (simp add: out_name_def itoa_inj)

lemma out_not_inter: "out_name i \<noteq> inter_name j k"
proof
  assume "out_name i = inter_name j k"
  then have eq: "''out-'' @ itoa i = itoa j @ ''-'' @ itoa k" by (simp add: out_name_def inter_name_def)
  have "itoa j \<noteq> []" using itoa_loop_digits [of j "Suc j" "[]"] by (auto simp: itoa_def)
  then have "hd (itoa j) = CHR ''o''" using eq by (metis append_Cons hd_append list.sel(1))
  moreover have "hd (itoa j) \<in> set (itoa j)" using \<open>itoa j \<noteq> []\<close> by simp
  ultimately show False using itoa_digits(1) [of "CHR ''o''" j] by simp
qed

section \<open>The output of a job\<close>

definition vals_of :: "string \<Rightarrow> KeyValue list \<Rightarrow> string list" where
  "vals_of k kvs = map kv_Value (filter (\<lambda>x. kv_Key x = k) kvs)"

definition out_lines :: "(string \<Rightarrow> string list \<Rightarrow> string) \<Rightarrow> KeyValue list \<Rightarrow> string list" where
  "out_lines reducef kvs = map (\<lambda>k. out_line reducef k (vals_of k kvs)) (sorted_list_of_set (kv_Key ` set kvs))"

text \<open>
  What is asked of \<open>Reduce\<close>: its result does not depend on the order of the values, which neither
  program fixes, because \<open>sort.Sort\<close> is not stable.
\<close>

definition order_free :: "(string \<Rightarrow> string list \<Rightarrow> string) \<Rightarrow> bool" where
  "order_free reducef \<longleftrightarrow> (\<forall>k vs ws. mset vs = mset ws \<longrightarrow> reducef k vs = reducef k ws)"

lemma byKey_weak_order: "weak_order ByKey_Less"
  by (auto simp: weak_order_def ByKey_Less_def)

interpretation byKey: go_sort ByKey_Less "insertionSort ByKey_Less"
  by (rule insertionSort_go_sort [OF byKey_weak_order])

lemma sorted_group:
  assumes "sorted_wrt (\<lambda>x y. \<not> ByKey_Less y x) (kv # rest)" and "x \<in> set (dropWhile (\<lambda>x. kv_Key x = kv_Key kv) rest)"
  shows "kv_Key kv < kv_Key x"
proof (cases "dropWhile (\<lambda>x. kv_Key x = kv_Key kv) rest")
  case (Cons y ys)
  have rest: "rest = takeWhile (\<lambda>x. kv_Key x = kv_Key kv) rest @ y # ys" using Cons by (metis takeWhile_dropWhile_id)
  have "kv_Key y \<noteq> kv_Key kv" using Cons hd_dropWhile [of "\<lambda>x. kv_Key x = kv_Key kv" rest] by auto
  moreover have "y \<in> set rest" using rest by (metis in_set_conv_decomp)
  then have "\<not> kv_Key y < kv_Key kv" using assms(1) by (auto simp: ByKey_Less_def)
  ultimately have "kv_Key kv < kv_Key y" by (metis linorder_cases)
  moreover have "sorted_wrt (\<lambda>x y. \<not> ByKey_Less y x) (y # ys)"
    using assms(1) sorted_wrt_append rest by (metis sorted_wrt.simps(2))
  with assms(2) Cons have "x = y \<or> \<not> kv_Key x < kv_Key y" by (auto simp: ByKey_Less_def)
  ultimately show ?thesis by (metis dual_order.strict_trans1 not_less)
qed (use assms(2) in \<open>metis empty_iff list.set(1)\<close>)

lemma reduce_loop_sorted:
  "sorted_wrt (\<lambda>x y. \<not> ByKey_Less y x) kvs \<Longrightarrow> reduce_loop reducef kvs = concat (out_lines reducef kvs)"
proof (induction reducef kvs rule: reduce_loop.induct)
  case (2 reducef kv rest)
  define same where "same = takeWhile (\<lambda>x. kv_Key x = kv_Key kv) rest"
  define more where "more = dropWhile (\<lambda>x. kv_Key x = kv_Key kv) rest"
  note gt = sorted_group [OF 2(2), folded more_def]
  have rest: "rest = same @ more" by (simp add: same_def more_def)
  have same: "x \<in> set same \<Longrightarrow> kv_Key x = kv_Key kv" for x unfolding same_def by (meson set_takeWhileD)
  have sorted: "sorted_wrt (\<lambda>x y. \<not> ByKey_Less y x) more" using 2(2) rest by (simp add: sorted_wrt_append)
  have IH: "reduce_loop reducef more = concat (out_lines reducef more)"
    using 2(1) [OF same_def] sorted by (simp add: more_def)
  have keys: "kv_Key ` set (kv # rest) = insert (kv_Key kv) (kv_Key ` set more)" using rest same by auto
  have list: "sorted_list_of_set (kv_Key ` set (kv # rest)) = kv_Key kv # sorted_list_of_set (kv_Key ` set more)"
  proof -
    have "kv_Key kv \<notin> kv_Key ` set more" using gt by force
    moreover have "\<forall>k\<in>kv_Key ` set more. kv_Key kv \<le> k" using gt by (auto intro: less_imp_le)
    ultimately show ?thesis unfolding keys by (simp add: insort_is_Cons)
  qed
  have "vals_of (kv_Key kv) (kv # rest) = map kv_Value (kv # same)"
  proof -
    have "filter (\<lambda>x. kv_Key x = kv_Key kv) same = same" "filter (\<lambda>x. kv_Key x = kv_Key kv) more = []"
      using same gt by (auto simp: filter_id_conv filter_empty_conv) (metis less_irrefl)
    then show ?thesis by (simp add: vals_of_def rest)
  qed
  moreover have "vals_of k (kv # rest) = vals_of k more" if "k \<in> kv_Key ` set more" for k
  proof -
    from that gt have "kv_Key kv < k" by auto
    then have "k \<noteq> kv_Key kv" by auto
    then have "filter (\<lambda>x. kv_Key x = k) same = []" using same by (auto simp: filter_empty_conv)
    with \<open>k \<noteq> kv_Key kv\<close> show ?thesis by (simp add: vals_of_def rest)
  qed
  ultimately have "out_lines reducef (kv # rest) = out_line reducef (kv_Key kv) (map kv_Value (kv # same)) # out_lines reducef more"
    unfolding out_lines_def list by (auto intro!: map_cong)
  then show ?case using IH by (simp add: Let_def same_def more_def)
qed (simp add: out_lines_def)

lemma out_lines_perm:
  assumes "order_free reducef" and "mset kvs = mset kvs'"
  shows "out_lines reducef kvs = out_lines reducef kvs'"
proof -
  have "mset (vals_of k kvs) = mset (vals_of k kvs')" for k using assms(2) by (simp add: vals_of_def)
  then have "out_line reducef k (vals_of k kvs) = out_line reducef k (vals_of k kvs')" for k
    using assms(1) unfolding order_free_def out_line_def by metis
  with mset_eq_setD [OF assms(2)] show ?thesis by (simp add: out_lines_def)
qed

lemma reduce_loop_out:
  assumes "go_sort ByKey_Less srt" and "order_free reducef" and "mset kvs = mset kvs'"
  shows "reduce_loop reducef (srt kvs) = concat (out_lines reducef kvs')"
  using reduce_loop_sorted [OF go_sort.srt_ordered [OF assms(1)], of reducef kvs]
    out_lines_perm [OF assms(2), of "srt kvs" kvs'] go_sort.srt_mset [OF assms(1), of kvs] assms(3) by simp

section \<open>What the tasks write\<close>

abbreviation bucket :: "nat \<Rightarrow> nat \<Rightarrow> KeyValue \<Rightarrow> bool" where
  "bucket n r kv \<equiv> ihash (kv_Key kv) mod n = r"

lemma split_bulks_correct:
  "0 < n \<Longrightarrow> \<exists>b. split_bulks n kvs bulks = Some b \<and>
     (\<forall>r. (case b r of Some l \<Rightarrow> l | None \<Rightarrow> []) = (case bulks r of Some l \<Rightarrow> l | None \<Rightarrow> []) @ filter (bucket n r) kvs)"
proof (induction kvs arbitrary: bulks)
  case (Cons v kvs)
  let ?b = "bulks(ihash (kv_Key v) mod n \<mapsto> (case bulks (ihash (kv_Key v) mod n) of Some bulk \<Rightarrow> bulk @ [v] | None \<Rightarrow> [v]))"
  from Cons obtain b where "split_bulks n kvs ?b = Some b"
    "\<forall>r. (case b r of Some l \<Rightarrow> l | None \<Rightarrow> []) = (case ?b r of Some l \<Rightarrow> l | None \<Rightarrow> []) @ filter (bucket n r) kvs" by blast
  then show ?case using Cons.prems by (auto simp: Let_def split: option.splits)
qed simp

lemma write_bulks_other: "(\<And>r. r \<in> set rs \<Longrightarrow> f \<noteq> inter_name t (r + 1)) \<Longrightarrow> write_bulks t bulks rs fs f = fs f"
  by (induction rs arbitrary: fs) auto

lemma write_bulks_name:
  "distinct rs \<Longrightarrow> r \<in> set rs \<Longrightarrow> write_bulks t bulks rs fs (inter_name t (r + 1)) =
     Some (case bulks r of Some bulk \<Rightarrow> concat (map enc_kv bulk) | None \<Rightarrow> [])"
proof (induction rs arbitrary: fs)
  case (Cons q rs)
  show ?case
  proof (cases "q = r")
    case True
    have "write_bulks t bulks rs fs' (inter_name t (r + 1)) = fs' (inter_name t (r + 1))" for fs'
      using Cons.prems(1) True by (intro write_bulks_other) (auto simp: inter_name_inj)
    with True show ?thesis by simp
  qed (use Cons in auto)
qed simp

lemma doMap_correct:
  assumes srt: "go_sort ByKey_Less srt" and n: "0 < n" and f: "fs f = Some content"
  shows "\<exists>fs'. doMap srt mapf [f] t n fs = Some fs'
    \<and> (\<forall>r<n. \<exists>l. fs' (inter_name t (r + 1)) = Some (concat (map enc_kv l)) \<and> mset l = mset (filter (bucket n r) (mapf f content)))
    \<and> (\<forall>g. (\<forall>r<n. g \<noteq> inter_name t (r + 1)) \<longrightarrow> fs' g = fs g)"
proof -
  from split_bulks_correct [OF n, of "mapf f content" Map.empty] obtain b where
    b: "split_bulks n (mapf f content) Map.empty = Some b" "\<forall>r. (case b r of Some l \<Rightarrow> l | None \<Rightarrow> []) = filter (bucket n r) (mapf f content)"
    by auto
  let ?b = "\<lambda>r. map_option srt (b r)"
  let ?fs = "write_bulks t ?b [0..<n] fs"
  have "\<exists>l. ?fs (inter_name t (r + 1)) = Some (concat (map enc_kv l)) \<and> mset l = mset (filter (bucket n r) (mapf f content))" if "r < n" for r
  proof (cases "b r")
    case None
    with b(2) have "filter (bucket n r) (mapf f content) = []" by (metis option.simps(4))
    with None that show ?thesis using write_bulks_name [of "[0..<n]" r t ?b fs] by (intro exI [of _ "[]"]) simp
  next
    case (Some l)
    with b(2) have "filter (bucket n r) (mapf f content) = l" by (metis option.simps(5))
    with Some that show ?thesis using write_bulks_name [of "[0..<n]" r t ?b fs] go_sort.srt_mset [OF srt, of l]
      by (intro exI [of _ "srt l"]) simp
  qed
  moreover have "doMap srt mapf [f] t n fs = Some ?fs" using f b(1) by (simp add: doMap_def)
  moreover have "?fs g = fs g" if "\<forall>r<n. g \<noteq> inter_name t (r + 1)" for g
    using that by (intro write_bulks_other) auto
  ultimately show ?thesis by blast
qed

lemma doReduce_correct:
  assumes srt: "go_sort ByKey_Less srt" and free: "order_free reducef"
    and files: "\<forall>i<m. \<exists>l. fs (inter_name (i + 1) r) = Some (concat (map enc_kv l)) \<and> mset l = mset (content i)"
  shows "doReduce srt reducef (map (\<lambda>i. inter_name (i + 1) r) [0..<m]) r fs
    = fs(out_name r \<mapsto> concat (out_lines reducef (concat (map content [0..<m]))))"
proof -
  from files obtain l where l: "\<And>i. i < m \<Longrightarrow> fs (inter_name (i + 1) r) = Some (concat (map enc_kv (l i))) \<and> mset (l i) = mset (content i)"
    by metis
  have "read_inter (fs(out_name r \<mapsto> [])) (map (\<lambda>i. inter_name (i + 1) r) [0..<m]) = concat (map l [0..<m])"
    using l by (auto simp: read_inter_def json.dec_enc out_not_inter [symmetric] intro!: arg_cong [of _ _ concat])
  moreover have "mset (concat (map l [0..<m])) = mset (concat (map content [0..<m]))"
    using l by (auto simp: mset_concat intro!: arg_cong [of _ _ sum_list])
  ultimately show ?thesis
    using reduce_loop_out [OF srt free, of "concat (map l [0..<m])" "concat (map content [0..<m])"]
    by (simp add: doReduce_def Let_def)
qed

section \<open>The worker and the whole job\<close>

text \<open>
  \<open>Worker\<close> asks for a task, runs it and reports it. In the system below a worker's task is in
  \<open>sys_jobs\<close> between the reply of \<open>HandleWorker\<close> and the end of \<open>doMap\<close> or \<open>doReduce\<close>, and its
  finish message in \<open>sys_msgs\<close> until the coordinator handles it. A crash drops a job or a message;
  a worker that is only slow finishes its job after the coordinator has given it to another one.
  The execution of one task is one step. A reply with neither task type is a worker that sleeps.
\<close>

record mr_sys =
  sys_coord :: Coordinator
  sys_fs :: fs
  sys_jobs :: "CoordinatorReply list"
  sys_msgs :: "CoordinatorFinishArgs list"

definition run_job ::
  "(KeyValue list \<Rightarrow> KeyValue list) \<Rightarrow> (string \<Rightarrow> string \<Rightarrow> KeyValue list) \<Rightarrow> (string \<Rightarrow> string list \<Rightarrow> string)
     \<Rightarrow> CoordinatorReply \<Rightarrow> fs \<Rightarrow> (fs \<times> CoordinatorFinishArgs list) option" where
  "run_job srt mapf reducef reply fs =
     (if TaskType reply = ''MAP'' then do {
        fs \<leftarrow> doMap srt mapf (FileName reply) (nat (TaskId reply)) (nat (reply_ReduceN reply)) fs;
        Some (fs, [\<lparr>fin_Id = TaskId reply, fin_TaskType = TaskType reply\<rparr>])
      } else if TaskType reply = ''REDUCE'' then
        Some (doReduce srt reducef (FileName reply) (nat (TaskId reply)) fs, [\<lparr>fin_Id = TaskId reply, fin_TaskType = TaskType reply\<rparr>])
      else Some (fs, []))"

inductive mr_step ::
  "(KeyValue list \<Rightarrow> KeyValue list) \<Rightarrow> (string \<Rightarrow> string \<Rightarrow> KeyValue list) \<Rightarrow> (string \<Rightarrow> string list \<Rightarrow> string)
     \<Rightarrow> mr_sys \<Rightarrow> mr_sys \<Rightarrow> bool" for srt mapf reducef where
  sys_ask: "HandleWorker (sys_coord s) = Some (c, reply) \<Longrightarrow>
     mr_step srt mapf reducef s (s\<lparr>sys_coord := c, sys_jobs := reply # sys_jobs s\<rparr>)"
| sys_run: "sys_jobs s = us @ reply # vs \<Longrightarrow> run_job srt mapf reducef reply (sys_fs s) = Some (fs, msgs) \<Longrightarrow>
     mr_step srt mapf reducef s (s\<lparr>sys_fs := fs, sys_jobs := us @ vs, sys_msgs := msgs @ sys_msgs s\<rparr>)"
| sys_finish: "sys_msgs s = us @ args # vs \<Longrightarrow> HandleFinish args (sys_coord s) = Some c \<Longrightarrow>
     mr_step srt mapf reducef s (s\<lparr>sys_coord := c, sys_msgs := us @ vs\<rparr>)"
| sys_expire: "timers (sys_coord s) = us @ t # vs \<Longrightarrow> timer_fire t ((sys_coord s)\<lparr>timers := us @ vs\<rparr>) = Some c \<Longrightarrow>
     mr_step srt mapf reducef s (s\<lparr>sys_coord := c\<rparr>)"
| sys_crash: "sys_jobs s = us @ reply # vs \<Longrightarrow> mr_step srt mapf reducef s (s\<lparr>sys_jobs := us @ vs\<rparr>)"
| sys_drop: "sys_msgs s = us @ args # vs \<Longrightarrow> mr_step srt mapf reducef s (s\<lparr>sys_msgs := us @ vs\<rparr>)"

definition mr_start :: "string list \<Rightarrow> int \<Rightarrow> fs \<Rightarrow> mr_sys" where
  "mr_start files nReduce fs =
     \<lparr>sys_coord = MakeCoordinator files nReduce, sys_fs = fs, sys_jobs = [], sys_msgs = []\<rparr>"

text \<open>The key/value pairs that the map tasks of a job produce from the input files.\<close>

definition map_out :: "(string \<Rightarrow> string \<Rightarrow> KeyValue list) \<Rightarrow> fs \<Rightarrow> string \<Rightarrow> KeyValue list" where
  "map_out mapf fs f = mapf f (the (fs f))"

definition job_ok :: "string list \<Rightarrow> int \<Rightarrow> fs \<Rightarrow> bool" where
  "job_ok files nReduce fs \<longleftrightarrow> 0 < nReduce
     \<and> (\<forall>f\<in>set files. fs f \<noteq> None \<and> (\<forall>i j. f \<noteq> inter_name i j) \<and> (\<forall>i. f \<noteq> out_name i))"

definition files_ok :: "(string \<Rightarrow> string \<Rightarrow> KeyValue list) \<Rightarrow> string list \<Rightarrow> nat \<Rightarrow> fs \<Rightarrow> fs \<Rightarrow> nat \<Rightarrow> bool" where
  "files_ok mapf files n fs0 fs i \<longleftrightarrow> (\<forall>r<n. \<exists>l. fs (inter_name (i + 1) (r + 1)) = Some (concat (map enc_kv l))
     \<and> mset l = mset (filter (bucket n r) (map_out mapf fs0 (files ! i))))"

definition task_out ::
  "(string \<Rightarrow> string \<Rightarrow> KeyValue list) \<Rightarrow> (string \<Rightarrow> string list \<Rightarrow> string) \<Rightarrow> string list \<Rightarrow> nat \<Rightarrow> fs \<Rightarrow> nat \<Rightarrow> string list" where
  "task_out mapf reducef files n fs0 r = out_lines reducef (filter (bucket n r) (concat (map (map_out mapf fs0) files)))"

definition reply_ok :: "string list \<Rightarrow> int \<Rightarrow> Coordinator \<Rightarrow> CoordinatorReply \<Rightarrow> bool" where
  "reply_ok files nReduce c reply \<longleftrightarrow>
     (\<exists>i<length files. reply = \<lparr>FileName = [files ! i], TaskType = ''MAP'', TaskId = int i + 1, reply_ReduceN = nReduce\<rparr>)
   \<or> (\<exists>r<nat nReduce. reply = \<lparr>FileName = map (\<lambda>j. inter_name (j + 1) (r + 1)) [0..<length files], TaskType = ''REDUCE'',
          TaskId = int r + 1, reply_ReduceN = nReduce\<rparr> \<and> (\<forall>i<length files. map_status c i = Some 2))
   \<or> reply = zero_reply"

text \<open>
  The invariant of a job: the input files are untouched; a map task that is finished, or whose
  finish message is on its way, has written the right intermediate files; a reduce task likewise
  its output; and a reduce task is only run after all maps are finished.
\<close>

definition sys_inv ::
  "(string \<Rightarrow> string \<Rightarrow> KeyValue list) \<Rightarrow> (string \<Rightarrow> string list \<Rightarrow> string) \<Rightarrow> string list \<Rightarrow> int \<Rightarrow> fs \<Rightarrow> mr_sys \<Rightarrow> bool" where
  "sys_inv mapf reducef files nReduce fs0 s \<longleftrightarrow>
     coord_inv files nReduce (sys_coord s) \<and> (\<forall>f\<in>set files. sys_fs s f = fs0 f)
   \<and> (\<forall>i<length files. map_status (sys_coord s) i = Some 2 \<or> \<lparr>fin_Id = int i + 1, fin_TaskType = ''MAP''\<rparr> \<in> set (sys_msgs s)
        \<longrightarrow> files_ok mapf files (nat nReduce) fs0 (sys_fs s) i)
   \<and> (\<forall>r<nat nReduce. reduce_status (sys_coord s) r = Some 2 \<or> \<lparr>fin_Id = int r + 1, fin_TaskType = ''REDUCE''\<rparr> \<in> set (sys_msgs s)
        \<longrightarrow> sys_fs s (out_name (r + 1)) = Some (concat (task_out mapf reducef files (nat nReduce) fs0 r)))
   \<and> (\<forall>reply\<in>set (sys_jobs s). reply_ok files nReduce (sys_coord s) reply)
   \<and> (\<forall>args\<in>set (sys_msgs s). fin_TaskType args = ''MAP'' \<and> fin_Id args \<in> {1..int (length files)}
        \<or> fin_TaskType args = ''REDUCE'' \<and> fin_Id args \<in> {1..int (nat nReduce)})"

lemma ask_effect:
  assumes inv: "coord_inv files nReduce c" and ask: "HandleWorker c = Some (c', reply)"
  shows "map_status c' i = Some 2 \<longleftrightarrow> map_status c i = Some 2" and "reduce_status c' i = Some 2 \<longleftrightarrow> reduce_status c i = Some 2"
    and "reply_ok files nReduce c' reply"
proof -
  from inv have "coord_shape files nReduce c" by (simp add: coord_inv_def)
  then have "(map_status c' i = Some 2 \<longleftrightarrow> map_status c i = Some 2) \<and> (reduce_status c' i = Some 2 \<longleftrightarrow> reduce_status c i = Some 2)
      \<and> reply_ok files nReduce c' reply"
    using ask by (cases rule: HandleWorker_outcome) (auto simp: reply_ok_def split: if_splits)
  then show "map_status c' i = Some 2 \<longleftrightarrow> map_status c i = Some 2" "reduce_status c' i = Some 2 \<longleftrightarrow> reduce_status c i = Some 2"
    "reply_ok files nReduce c' reply" by auto
qed

lemma expire_effect:
  assumes "timer_fire t (c\<lparr>timers := ts\<rparr>) = Some c'"
  shows "map_status c' i = Some 2 \<longleftrightarrow> map_status c i = Some 2" and "reduce_status c' i = Some 2 \<longleftrightarrow> reduce_status c i = Some 2"
  using assms by (cases t; auto simp: map_status_def reduce_status_def cas_def split: if_splits bind_splits)+

lemma finish_effect:
  assumes inv: "coord_inv files nReduce c" and fin: "HandleFinish args c = Some c'"
  shows "i < length files \<Longrightarrow> map_status c' i = Some 2 \<Longrightarrow> map_status c i = Some 2 \<or> args = \<lparr>fin_Id = int i + 1, fin_TaskType = ''MAP''\<rparr>"
    and "i < nat nReduce \<Longrightarrow> reduce_status c' i = Some 2 \<Longrightarrow> reduce_status c i = Some 2 \<or> args = \<lparr>fin_Id = int i + 1, fin_TaskType = ''REDUCE''\<rparr>"
proof -
  have m: "k = int p + 1" if "MapTaskMap c k = Some p" for k p
  proof -
    have "k \<in> {1..int (length files)}" using that inv by (auto simp: coord_inv_def coord_shape_def)
    then obtain j where j: "j < length files" "k = int j + 1" by (auto intro!: that [of "nat (k - 1)"])
    with inv have "MapTaskMap c k = Some j" by (auto simp: coord_inv_def coord_shape_def)
    with that j show ?thesis by simp
  qed
  have r: "k = int p + 1" if "ReduceTaskMap c k = Some p" for k p
  proof -
    have "k \<in> {1..int (nat nReduce)}" using that inv by (auto simp: coord_inv_def coord_shape_def)
    then obtain j where j: "j < nat nReduce" "k = int j + 1" by (auto intro!: that [of "nat (k - 1)"] split: if_splits)
    with inv have "ReduceTaskMap c k = Some j" by (auto simp: coord_inv_def coord_shape_def)
    with that j show ?thesis by simp
  qed
  show "i < length files \<Longrightarrow> map_status c' i = Some 2 \<Longrightarrow> map_status c i = Some 2 \<or> args = \<lparr>fin_Id = int i + 1, fin_TaskType = ''MAP''\<rparr>"
    using fin m by (cases args) (auto simp: HandleFinish_def map_status_def split: if_splits bind_splits)
  show "i < nat nReduce \<Longrightarrow> reduce_status c' i = Some 2 \<Longrightarrow> reduce_status c i = Some 2 \<or> args = \<lparr>fin_Id = int i + 1, fin_TaskType = ''REDUCE''\<rparr>"
    using fin r by (cases args) (auto simp: HandleFinish_def reduce_status_def split: if_splits bind_splits)
qed

lemma reply_ok_mono:
  "reply_ok files nReduce c reply \<Longrightarrow> (\<And>i. map_status c i = Some 2 \<Longrightarrow> map_status c' i = Some 2) \<Longrightarrow> reply_ok files nReduce c' reply"
  unfolding reply_ok_def by blast

lemma files_ok_frame:
  "files_ok mapf files n fs0 fs i \<Longrightarrow> (\<And>r. r < n \<Longrightarrow> fs' (inter_name (i + 1) (r + 1)) = fs (inter_name (i + 1) (r + 1)))
     \<Longrightarrow> files_ok mapf files n fs0 fs' i"
  unfolding files_ok_def by metis

text \<open>The two kinds of task, run in a state that satisfies the invariant.\<close>

lemma run_map_job:
  assumes srt: "go_sort ByKey_Less srt" and job: "job_ok files nReduce fs0" and i: "i < length files" and fs: "\<forall>f\<in>set files. fs f = fs0 f"
    and run: "run_job srt mapf reducef \<lparr>FileName = [files ! i], TaskType = ''MAP'', TaskId = int i + 1, reply_ReduceN = nReduce\<rparr> fs = Some (fs', msgs)"
  shows "msgs = [\<lparr>fin_Id = int i + 1, fin_TaskType = ''MAP''\<rparr>] \<and> files_ok mapf files (nat nReduce) fs0 fs' i
    \<and> (\<forall>g. (\<forall>r<nat nReduce. g \<noteq> inter_name (i + 1) (r + 1)) \<longrightarrow> fs' g = fs g)"
proof -
  have n: "0 < nat nReduce" using job by (simp add: job_ok_def)
  from job nth_mem [OF i] obtain content where content: "fs0 (files ! i) = Some content" by (auto simp: job_ok_def)
  then have "fs (files ! i) = Some content" using fs i by simp
  from doMap_correct [where fs = fs and f = "files ! i" and content = content and mapf = mapf and t = "i + 1", OF srt n this]
    run content show ?thesis
    by (auto simp: run_job_def files_ok_def map_out_def nat_add_distrib)
qed

lemma run_reduce_job:
  assumes srt: "go_sort ByKey_Less srt" and free: "order_free reducef" and r: "r < nat nReduce"
    and ok: "\<forall>i<length files. files_ok mapf files (nat nReduce) fs0 fs i"
    and run: "run_job srt mapf reducef \<lparr>FileName = map (\<lambda>j. inter_name (j + 1) (r + 1)) [0..<length files], TaskType = ''REDUCE'',
          TaskId = int r + 1, reply_ReduceN = nReduce\<rparr> fs = Some (fs', msgs)"
  shows "msgs = [\<lparr>fin_Id = int r + 1, fin_TaskType = ''REDUCE''\<rparr>]
    \<and> fs' = fs(out_name (r + 1) \<mapsto> concat (task_out mapf reducef files (nat nReduce) fs0 r))"
proof -
  let ?content = "\<lambda>i. filter (bucket (nat nReduce) r) (map_out mapf fs0 (files ! i))"
  have "\<forall>i<length files. \<exists>l. fs (inter_name (i + 1) (r + 1)) = Some (concat (map enc_kv l)) \<and> mset l = mset (?content i)"
    using ok r by (auto simp: files_ok_def)
  from doReduce_correct [OF srt free this]
  have "doReduce srt reducef (map (\<lambda>i. inter_name (i + 1) (r + 1)) [0..<length files]) (r + 1) fs
    = fs(out_name (r + 1) \<mapsto> concat (out_lines reducef (concat (map ?content [0..<length files]))))" by simp
  moreover have "concat (map ?content [0..<length files]) = filter (bucket (nat nReduce) r) (concat (map (map_out mapf fs0) files))"
  proof -
    have "map ?content [0..<length files] = map (\<lambda>f. filter (bucket (nat nReduce) r) (map_out mapf fs0 f)) files"
      by (rule nth_equalityI) auto
    then show ?thesis by (simp add: filter_concat comp_def)
  qed
  ultimately show ?thesis using run by (auto simp: run_job_def task_out_def nat_add_distrib)
qed

lemma sys_inv_coord:
  assumes inv: "sys_inv mapf reducef files nReduce fs0 s" and c: "coord_inv files nReduce c" and msgs: "set msgs \<subseteq> set (sys_msgs s)"
    and jobs: "\<forall>reply\<in>set jobs. reply_ok files nReduce c reply"
    and m: "\<And>i. i < length files \<Longrightarrow> map_status c i = Some 2 \<Longrightarrow> map_status (sys_coord s) i = Some 2 \<or> \<lparr>fin_Id = int i + 1, fin_TaskType = ''MAP''\<rparr> \<in> set (sys_msgs s)"
    and r: "\<And>i. i < nat nReduce \<Longrightarrow> reduce_status c i = Some 2 \<Longrightarrow> reduce_status (sys_coord s) i = Some 2 \<or> \<lparr>fin_Id = int i + 1, fin_TaskType = ''REDUCE''\<rparr> \<in> set (sys_msgs s)"
  shows "sys_inv mapf reducef files nReduce fs0 (s\<lparr>sys_coord := c, sys_jobs := jobs, sys_msgs := msgs\<rparr>)"
proof -
  have "files_ok mapf files (nat nReduce) fs0 (sys_fs s) i"
    if "i < length files" "map_status c i = Some 2 \<or> \<lparr>fin_Id = int i + 1, fin_TaskType = ''MAP''\<rparr> \<in> set msgs" for i
    using that m [of i] msgs inv unfolding sys_inv_def by blast
  moreover have "sys_fs s (out_name (i + 1)) = Some (concat (task_out mapf reducef files (nat nReduce) fs0 i))"
    if "i < nat nReduce" "reduce_status c i = Some 2 \<or> \<lparr>fin_Id = int i + 1, fin_TaskType = ''REDUCE''\<rparr> \<in> set msgs" for i
    using that r [of i] msgs inv unfolding sys_inv_def by blast
  moreover have "\<forall>args\<in>set msgs. fin_TaskType args = ''MAP'' \<and> fin_Id args \<in> {1..int (length files)}
        \<or> fin_TaskType args = ''REDUCE'' \<and> fin_Id args \<in> {1..int (nat nReduce)}"
    using msgs inv unfolding sys_inv_def by blast
  moreover have "\<forall>f\<in>set files. sys_fs s f = fs0 f" using inv unfolding sys_inv_def by blast
  ultimately show ?thesis using c jobs by (simp add: sys_inv_def)
qed

lemma sys_inv_run_map:
  assumes srt: "go_sort ByKey_Less srt" and job: "job_ok files nReduce fs0" and inv: "sys_inv mapf reducef files nReduce fs0 s"
    and jobs: "set jobs \<subseteq> set (sys_jobs s)" and i: "i < length files"
    and run: "run_job srt mapf reducef \<lparr>FileName = [files ! i], TaskType = ''MAP'', TaskId = int i + 1, reply_ReduceN = nReduce\<rparr> (sys_fs s) = Some (fs, msgs)"
  shows "sys_inv mapf reducef files nReduce fs0 (s\<lparr>sys_fs := fs, sys_jobs := jobs, sys_msgs := msgs @ sys_msgs s\<rparr>)"
proof -
  have input: "\<forall>f\<in>set files. sys_fs s f = fs0 f" using inv by (simp add: sys_inv_def)
  note r = run_map_job [OF srt job i input run]
  have keep: "(\<forall>r<nat nReduce. g \<noteq> inter_name (i + 1) (r + 1)) \<Longrightarrow> fs g = sys_fs s g" for g using r by blast
  have "\<forall>f\<in>set files. fs f = fs0 f" using input keep job unfolding job_ok_def by metis
  moreover have "files_ok mapf files (nat nReduce) fs0 fs j" if "files_ok mapf files (nat nReduce) fs0 (sys_fs s) j \<or> j = i" for j
  proof (cases "j = i")
    case False
    then have "fs (inter_name (j + 1) (r + 1)) = sys_fs s (inter_name (j + 1) (r + 1))" for r
      by (intro keep) (auto simp: inter_name_inj)
    with that False show ?thesis by (blast intro: files_ok_frame)
  qed (use r in blast)
  moreover have "fs (out_name j) = sys_fs s (out_name j)" for j by (rule keep) (auto simp: out_not_inter)
  ultimately show ?thesis using inv r i jobs unfolding sys_inv_def by auto
qed

lemma sys_inv_run_reduce:
  assumes srt: "go_sort ByKey_Less srt" and free: "order_free reducef" and job: "job_ok files nReduce fs0"
    and inv: "sys_inv mapf reducef files nReduce fs0 s" and jobs: "set jobs \<subseteq> set (sys_jobs s)" and r: "r < nat nReduce"
    and maps: "\<forall>i<length files. map_status (sys_coord s) i = Some 2"
    and run: "run_job srt mapf reducef \<lparr>FileName = map (\<lambda>j. inter_name (j + 1) (r + 1)) [0..<length files], TaskType = ''REDUCE'',
          TaskId = int r + 1, reply_ReduceN = nReduce\<rparr> (sys_fs s) = Some (fs, msgs)"
  shows "sys_inv mapf reducef files nReduce fs0 (s\<lparr>sys_fs := fs, sys_jobs := jobs, sys_msgs := msgs @ sys_msgs s\<rparr>)"
proof -
  have ok: "\<forall>i<length files. files_ok mapf files (nat nReduce) fs0 (sys_fs s) i"
    using inv maps by (auto simp: sys_inv_def)
  note rr = run_reduce_job [OF srt free r ok run]
  then have fs: "fs = (sys_fs s)(out_name (r + 1) \<mapsto> concat (task_out mapf reducef files (nat nReduce) fs0 r))" by blast
  have "fs (inter_name a b) = sys_fs s (inter_name a b)" for a b unfolding fs by (simp add: out_not_inter [symmetric])
  then have "files_ok mapf files (nat nReduce) fs0 fs i" if "i < length files" for i
    using files_ok_frame [OF ok [rule_format, OF that], of fs] by blast
  moreover have "\<forall>f\<in>set files. fs f = fs0 f" using inv job unfolding fs sys_inv_def job_ok_def by auto
  ultimately show ?thesis using inv rr r jobs unfolding sys_inv_def by (auto simp: out_name_inj)
qed

lemma mr_step_inv:
  assumes srt: "go_sort ByKey_Less srt" and free: "order_free reducef" and job: "job_ok files nReduce fs0"
    and step: "mr_step srt mapf reducef s s'" and inv: "sys_inv mapf reducef files nReduce fs0 s"
  shows "sys_inv mapf reducef files nReduce fs0 s'"
  using step
proof cases
  case (sys_ask c reply)
  have cinv: "coord_inv files nReduce (sys_coord s)" using inv by (simp add: sys_inv_def)
  note e = ask_effect [OF cinv sys_ask(2)]
  have "\<forall>q\<in>set (reply # sys_jobs s). reply_ok files nReduce c q"
    using inv e reply_ok_mono [of files nReduce "sys_coord s"] by (auto simp: sys_inv_def)
  from sys_inv_coord [OF inv HandleWorker_inv [OF cinv sys_ask(2)] order_refl this] e sys_ask(1) show ?thesis by simp
next
  case (sys_run us reply vs fs msgs)
  have jobs: "set (us @ vs) \<subseteq> set (sys_jobs s)" using sys_run by auto
  have "reply_ok files nReduce (sys_coord s) reply" using inv sys_run by (simp add: sys_inv_def)
  then consider (map) i where "i < length files" "reply = \<lparr>FileName = [files ! i], TaskType = ''MAP'', TaskId = int i + 1, reply_ReduceN = nReduce\<rparr>"
    | (reduce) r where "r < nat nReduce" "reply = \<lparr>FileName = map (\<lambda>j. inter_name (j + 1) (r + 1)) [0..<length files], TaskType = ''REDUCE'',
          TaskId = int r + 1, reply_ReduceN = nReduce\<rparr>" "\<forall>i<length files. map_status (sys_coord s) i = Some 2"
    | (idle) "reply = zero_reply" by (auto simp: reply_ok_def)
  then show ?thesis
  proof cases
    case map
    with sys_inv_run_map [OF srt job inv jobs map(1)] sys_run show ?thesis by simp
  next
    case reduce
    with sys_inv_run_reduce [OF srt free job inv jobs reduce(1,3)] sys_run show ?thesis by simp
  next
    case idle
    with sys_run inv jobs show ?thesis by (auto simp: run_job_def zero_reply_def sys_inv_def)
  qed
next
  case (sys_finish us args vs c)
  have cinv: "coord_inv files nReduce (sys_coord s)" using inv by (simp add: sys_inv_def)
  have step: "coord_step (sys_coord s) c" by (rule coord_step.finish [OF sys_finish(3)])
  have "\<forall>q\<in>set (sys_jobs s). reply_ok files nReduce c q"
    using inv reply_ok_mono [of files nReduce "sys_coord s"] finished_stable(1) [OF step cinv] by (auto simp: sys_inv_def)
  from sys_inv_coord [OF inv HandleFinish_inv [OF cinv sys_finish(3)] _ this, of "us @ vs"]
    finish_effect [OF cinv sys_finish(3)] sys_finish(1,2) show ?thesis by auto
next
  case (sys_expire us t vs c)
  have cinv: "coord_inv files nReduce (sys_coord s)" using inv by (simp add: sys_inv_def)
  have "\<forall>q\<in>set (sys_jobs s). reply_ok files nReduce c q"
    using inv reply_ok_mono [of files nReduce "sys_coord s"] expire_effect [OF sys_expire(3)] by (auto simp: sys_inv_def)
  from sys_inv_coord [OF inv timer_inv [OF cinv sys_expire(2,3)] order_refl this]
    expire_effect [OF sys_expire(3)] sys_expire(1) show ?thesis by simp
next
  case (sys_crash us reply vs)
  with inv show ?thesis by (auto simp: sys_inv_def)
next
  case (sys_drop us args vs)
  with inv show ?thesis by (auto simp: sys_inv_def)
qed

lemma mr_start_inv: "job_ok files nReduce fs0 \<Longrightarrow> sys_inv mapf reducef files nReduce fs0 (mr_start files nReduce fs0)"
proof -
  note inv = MakeCoordinator_inv [of files nReduce]
  have "map_status (MakeCoordinator files nReduce) i \<noteq> Some 2" "reduce_status (MakeCoordinator files nReduce) i \<noteq> Some 2" for i
    by (auto simp: map_status_def reduce_status_def MakeCoordinator_def make_tasks)
  with inv show ?thesis by (simp add: sys_inv_def mr_start_def)
qed

lemma mr_run_inv:
  assumes "go_sort ByKey_Less srt" and "order_free reducef" and "job_ok files nReduce fs0"
    and "(mr_step srt mapf reducef)\<^sup>*\<^sup>* (mr_start files nReduce fs0) s"
  shows "sys_inv mapf reducef files nReduce fs0 s"
  using assms(4) by (induction rule: rtranclp_induct) (auto intro: mr_start_inv mr_step_inv assms(1-3))

section \<open>The distributed job computes what the sequential program computes\<close>

lemma filter_sorted_list_of_set: "finite A \<Longrightarrow> filter P (sorted_list_of_set A) = sorted_list_of_set {x \<in> A. P x}"
  by (rule sorted_distinct_set_unique) (auto simp: sorted_wrt_filter)

lemma out_lines_bucket:
  "out_lines reducef (filter (bucket n r) kvs) =
     map (\<lambda>k. out_line reducef k (vals_of k kvs)) (filter (\<lambda>k. ihash k mod n = r) (sorted_list_of_set (kv_Key ` set kvs)))"
proof -
  have "kv_Key ` set (filter (bucket n r) kvs) = {k \<in> kv_Key ` set kvs. ihash k mod n = r}" by auto
  then have "sorted_list_of_set (kv_Key ` set (filter (bucket n r) kvs)) = filter (\<lambda>k. ihash k mod n = r) (sorted_list_of_set (kv_Key ` set kvs))"
    by (simp only: filter_sorted_list_of_set finite_imageI List.finite_set)
  moreover have "vals_of k (filter (bucket n r) kvs) = vals_of k kvs" if "ihash k mod n = r" for k
    using that by (auto simp: vals_of_def intro!: arg_cong [of _ _ "map kv_Value"] filter_cong)
  ultimately show ?thesis by (auto simp: out_lines_def)
qed

lemma out_lines_partition:
  assumes "0 < n"
  shows "mset (concat (map (\<lambda>r. out_lines reducef (filter (bucket n r) kvs)) [0..<n])) = mset (out_lines reducef kvs)"
proof -
  let ?line = "\<lambda>k. out_line reducef k (vals_of k kvs)" and ?ks = "sorted_list_of_set (kv_Key ` set kvs)"
  have "concat (map (\<lambda>r. out_lines reducef (filter (bucket n r) kvs)) [0..<n])
      = map ?line (concat (map (\<lambda>r. filter (\<lambda>k. ihash k mod n = r) ?ks) [0..<n]))"
    by (simp add: out_lines_bucket map_concat comp_def)
  moreover have "mset (concat (map (\<lambda>r. filter (\<lambda>k. ihash k mod n = r) ?ks) [0..<n])) = mset ?ks"
    unfolding mset_concat_filter [of "[0..<n]", simplified] using assms by (simp add: filter_id_conv)
  ultimately show ?thesis by (simp only: mset_map out_lines_def)
qed

lemma read_map_ok: "\<forall>f\<in>set files. fs f \<noteq> None \<Longrightarrow> read_map fs mapf files = Some (concat (map (map_out mapf fs) files))"
  by (induction files) (auto simp: map_out_def)

lemma mapreduce_done:
  assumes "go_sort ByKey_Less srt" and "go_sort ByKey_Less srt'" and "order_free reducef" and "job_ok files nReduce fs0"
    and "(mr_step srt mapf reducef)\<^sup>*\<^sup>* (mr_start files nReduce fs0) s" and "coord_Done (sys_coord s) = Some True"
  shows "let part = task_out mapf reducef files (nat nReduce) fs0; all = out_lines reducef (concat (map (map_out mapf fs0) files)) in
    (\<forall>r<nat nReduce. sys_fs s (out_name (r + 1)) = Some (concat (part r)))
    \<and> (\<exists>fs. mrsequential srt' mapf reducef files fs0 = Some fs \<and> fs (out_name 0) = Some (concat all))
    \<and> mset (concat (map part [0..<nat nReduce])) = mset all"
proof -
  let ?kvs = "concat (map (map_out mapf fs0) files)"
  let ?part = "task_out mapf reducef files (nat nReduce) fs0"
  note inv = mr_run_inv [OF assms(1,3-5)]
  have "coord_shape files nReduce (sys_coord s)" using inv by (simp add: sys_inv_def coord_inv_def)
  from Done_shape [OF this] assms(6) have "\<forall>r<nat nReduce. reduce_status (sys_coord s) r = Some 2" by simp
  then have "\<forall>r<nat nReduce. sys_fs s (out_name (r + 1)) = Some (concat (?part r))"
    using inv by (simp add: sys_inv_def)
  moreover have "mrsequential srt' mapf reducef files fs0 = Some (fs0(out_name 0 \<mapsto> concat (out_lines reducef ?kvs)))"
    using read_map_ok [of files fs0 mapf] assms(4) reduce_loop_out [OF assms(2,3) refl, of ?kvs]
    by (simp add: mrsequential_def job_ok_def)
  moreover have "mset (concat (map ?part [0..<nat nReduce])) = mset (out_lines reducef ?kvs)"
    using out_lines_partition [of "nat nReduce" reducef ?kvs] assms(4) by (simp add: task_out_def [abs_def] job_ok_def)
  ultimately show ?thesis by (simp add: Let_def)
qed


text \<open>A run with one file and one reduce task: the map task, its message, the reduce task, its message.\<close>

definition sample_map :: "string \<Rightarrow> string \<Rightarrow> KeyValue list" where
  "sample_map f content = [\<lparr>kv_Key = content, kv_Value = ''1''\<rparr>]"

definition sample_reduce :: "string \<Rightarrow> string list \<Rightarrow> string" where
  "sample_reduce k vs = itoa (length vs)"

definition sample_asked2 :: Coordinator where
  "sample_asked2 = fst (the (HandleWorker sample_mapped))"

definition sample_done :: Coordinator where
  "sample_done = the (HandleFinish \<lparr>fin_Id = 1, fin_TaskType = ''REDUCE''\<rparr> sample_asked2)"

lemma sample_run:
  assumes "mapf ''f'' ''a'' = [\<lparr>kv_Key = ''a'', kv_Value = v\<rparr>]"
  shows "\<exists>fs. (mr_step (insertionSort ByKey_Less) mapf reducef)\<^sup>*\<^sup>* (mr_start [''f''] 1 [''f'' \<mapsto> ''a''])
     \<lparr>sys_coord = sample_done, sys_fs = fs, sys_jobs = [], sys_msgs = []\<rparr>"
proof -
  let ?step = "mr_step (insertionSort ByKey_Less) mapf reducef"
  let ?m = "\<lparr>fin_Id = 1, fin_TaskType = ''MAP''\<rparr>" and ?r = "\<lparr>fin_Id = 1, fin_TaskType = ''REDUCE''\<rparr>"
  let ?mr = "\<lparr>FileName = [''f''], TaskType = ''MAP'', TaskId = 1, reply_ReduceN = 1\<rparr>"
  let ?rr = "\<lparr>FileName = [inter_name 1 1], TaskType = ''REDUCE'', TaskId = 1, reply_ReduceN = 1\<rparr>"
  note simps = sample_job_simps sample_asked2_def sample_done_def
  have ask: "HandleWorker sample_job = Some (sample_asked, ?mr)" "HandleWorker sample_mapped = Some (sample_asked2, ?rr)"
    by (simp_all add: simps)
  have fin: "HandleFinish ?m sample_asked = Some sample_mapped" "HandleFinish ?r sample_asked2 = Some sample_done"
    by (simp_all add: simps)
  obtain fs1 where fs1: "run_job (insertionSort ByKey_Less) mapf reducef ?mr [''f'' \<mapsto> ''a''] = Some (fs1, [?m])"
    by (simp add: run_job_def doMap_def assms Let_def)
  obtain fs2 where fs2: "run_job (insertionSort ByKey_Less) mapf reducef ?rr fs1 = Some (fs2, [?r])"
    by (simp add: run_job_def)
  let ?s = "\<lambda>c fs jobs msgs. \<lparr>sys_coord = c, sys_fs = fs, sys_jobs = jobs, sys_msgs = msgs\<rparr>"
  have "?step (?s sample_job [''f'' \<mapsto> ''a''] [] []) (?s sample_asked [''f'' \<mapsto> ''a''] [?mr] [])"
    using mr_step.sys_ask [of "?s sample_job [''f'' \<mapsto> ''a''] [] []" sample_asked ?mr] ask(1) by simp
  moreover have "?step (?s sample_asked [''f'' \<mapsto> ''a''] [?mr] []) (?s sample_asked fs1 [] [?m])"
    using mr_step.sys_run [of "?s sample_asked [''f'' \<mapsto> ''a''] [?mr] []" "[]" ?mr "[]"] fs1 by simp
  moreover have "?step (?s sample_asked fs1 [] [?m]) (?s sample_mapped fs1 [] [])"
    using mr_step.sys_finish [of "?s sample_asked fs1 [] [?m]" "[]" ?m "[]"] fin(1) by simp
  moreover have "?step (?s sample_mapped fs1 [] []) (?s sample_asked2 fs1 [?rr] [])"
    using mr_step.sys_ask [of "?s sample_mapped fs1 [] []" sample_asked2 ?rr] ask(2) by simp
  moreover have "?step (?s sample_asked2 fs1 [?rr] []) (?s sample_asked2 fs2 [] [?r])"
    using mr_step.sys_run [of "?s sample_asked2 fs1 [?rr] []" "[]" ?rr "[]"] fs2 by simp
  moreover have "?step (?s sample_asked2 fs2 [] [?r]) (?s sample_done fs2 [] [])"
    using mr_step.sys_finish [of "?s sample_asked2 fs2 [] [?r]" "[]" ?r "[]"] fin(2) by simp
  ultimately have "?step\<^sup>*\<^sup>* (?s sample_job [''f'' \<mapsto> ''a''] [] []) (?s sample_done fs2 [] [])"
    by (meson converse_rtranclp_into_rtranclp rtranclp.rtrancl_refl)
  then show ?thesis by (auto simp: mr_start_def sample_job_def)
qed

lemma sample_run_Done: "coord_Done sample_done = Some True"
  by (simp add: sample_done_def sample_asked2_def sample_job_simps coord_Done_def reduce_status_def)

lemma sample_job_ok: "job_ok [''f''] 1 [''f'' \<mapsto> ''a'']"
  by (simp add: job_ok_def inter_name_def out_name_def)



text \<open>
  \<open>ihash\<close> is a nonnegative 31-bit number and the bucket it selects exists, so that every pair
  a map task emits is in exactly one of the files it writes.
\<close>

theorem ihash_bucket:
  assumes "0 < reduceN"
  shows "ihash key < 2 ^ 31 \<and> (\<exists>!r. r < reduceN \<and> ihash key mod reduceN = r)"
proof -
  have "unat (and (fnv1a key) 0x7fffffff) = unat (take_bit 31 (fnv1a key))"
    by (simp add: take_bit_eq_mask mask_eq_exp_minus_1)
  also have "\<dots> < 2 ^ 31"
    using take_bit_nat_less_exp [of 31 "unat (fnv1a key)"] by (simp add: unsigned_take_bit_eq)
  finally have "ihash key < 2 ^ 31" by (simp add: ihash_def)
  then show ?thesis using assms by (intro conjI ex1I [of _ "ihash key mod reduceN"]) auto
qed

theorem ihash_bucket_witness:
  "ihash ''key'' < 2 ^ 31 \<and> (\<exists>!r. r < 10 \<and> ihash ''key'' mod 10 = r)"
  by (rule ihash_bucket) simp

end
