(* ===== verification/Mr_Apps.thy ===== *)
theory Mr_Apps
  imports Mr_Worker
begin

text \<open>
  The MapReduce applications of \<open>mrapps\<close>, the plugins whose \<open>Map\<close> and \<open>Reduce\<close> the worker and
  \<open>mrsequential\<close> load: \<open>wc\<close>, \<open>indexer\<close>, \<open>crash\<close>, \<open>nocrash\<close>, \<open>early_exit\<close>, \<open>jobcount\<close>,
  \<open>mtiming\<close> and \<open>rtiming\<close>. Word count and indexing are shown to compute what they should when they
  are run by the coordinator and its workers.

  What a plugin reads from its surroundings is an argument: the table behind \<open>unicode.IsLetter\<close>
  (\<open>isLetter\<close>, on code points), the order in which \<open>range\<close> visits a Go map (\<open>visit\<close>), a random number,
  the process id, the clock, a directory listing. A process that exits is \<open>None\<close>.
\<close>

section \<open>Strings as sequences of runes\<close>

lemma DecodeRune_width: "s \<noteq> [] \<Longrightarrow> 1 \<le> snd (DecodeRune s) \<and> snd (DecodeRune s) \<le> length s"
  by (auto simp: DecodeRune_def Let_def cont_def Suc_le_eq)

lemma DecodeRune_drop: "s \<noteq> [] \<Longrightarrow> (r, w) = DecodeRune s \<Longrightarrow> length s - w < length s"
  using DecodeRune_width [of s] by (metis diff_less length_greater_0_conv less_le_trans snd_conv zero_less_one)

text \<open>\<open>runes s\<close>: the code points of a string with their encodings, as \<open>range s\<close> visits them.\<close>

function runes :: "string \<Rightarrow> (nat \<times> string) list" where
  "runes s = (if s = [] then [] else case DecodeRune s of (r, w) \<Rightarrow> (r, take w s) # runes (drop w s))"
  by pat_completeness auto
termination by (relation "measure length") (auto dest: DecodeRune_drop)

declare runes.simps [simp del]

text \<open>
  \<open>strings.FieldsFunc\<close>: the words between the runes that satisfy \<open>f\<close>. The loop carries the word that
  is being read.
\<close>

fun fields_loop :: "(nat \<Rightarrow> bool) \<Rightarrow> (nat \<times> string) list \<Rightarrow> string \<Rightarrow> string list" where
  "fields_loop f [] cur = (if cur = [] then [] else [cur])"
| "fields_loop f ((r, enc) # rs) cur =
     (if f r then (if cur = [] then fields_loop f rs [] else cur # fields_loop f rs [])
      else fields_loop f rs (cur @ enc))"

definition FieldsFunc :: "(nat \<Rightarrow> bool) \<Rightarrow> string \<Rightarrow> string list" where
  "FieldsFunc f s = fields_loop f (runes s) []"

fun join :: "string \<Rightarrow> string list \<Rightarrow> string" where
  "join sep [] = []"
| "join sep [x] = x"
| "join sep (x # y # ys) = x @ sep @ join sep (y # ys)"

definition kv :: "string \<Rightarrow> string \<Rightarrow> KeyValue" where
  "kv k v = \<lparr>kv_Key = k, kv_Value = v\<rparr>"

section \<open>wc\<close>

definition wc_Map :: "(nat \<Rightarrow> bool) \<Rightarrow> string \<Rightarrow> string \<Rightarrow> KeyValue list" where
  "wc_Map isLetter filename contents = map (\<lambda>w. kv w ''1'') (FieldsFunc (\<lambda>r. \<not> isLetter r) contents)"

definition wc_Reduce :: "string \<Rightarrow> string list \<Rightarrow> string" where
  "wc_Reduce key values = itoa (length values)"

section \<open>indexer\<close>

definition indexer_Map :: "(nat \<Rightarrow> bool) \<Rightarrow> (string set \<Rightarrow> string list) \<Rightarrow> string \<Rightarrow> string \<Rightarrow> KeyValue list" where
  "indexer_Map isLetter visit document value =
     (let m = set (FieldsFunc (\<lambda>x. \<not> isLetter x) value) in map (\<lambda>w. kv w document) (visit m))"

definition indexer_Reduce :: "(string list \<Rightarrow> string list) \<Rightarrow> string \<Rightarrow> string list \<Rightarrow> string" where
  "indexer_Reduce srt key values = (let values = srt values in itoa (length values) @ '' '' @ join '','' values)"

section \<open>crash and nocrash\<close>

text \<open>\<open>rr\<close> is the random number below 1000; a delay has no effect on the result.\<close>

definition crash_maybeCrash :: "nat \<Rightarrow> unit option" where
  "crash_maybeCrash rr = (if rr < 330 then None else if rr < 660 then Some () else Some ())"

definition nocrash_maybeCrash :: "nat \<Rightarrow> unit option" where
  "nocrash_maybeCrash rr = (if False \<and> rr < 500 then None else Some ())"

definition abcd_pairs :: "string \<Rightarrow> string \<Rightarrow> KeyValue list" where
  "abcd_pairs filename contents =
     [kv ''a'' filename, kv ''b'' (itoa (length filename)), kv ''c'' (itoa (length contents)), kv ''d'' ''xyzzy'']"

definition crash_Map :: "nat \<Rightarrow> string \<Rightarrow> string \<Rightarrow> KeyValue list option" where
  "crash_Map rr filename contents = do { _ \<leftarrow> crash_maybeCrash rr; Some (abcd_pairs filename contents) }"

definition crash_Reduce :: "(string list \<Rightarrow> string list) \<Rightarrow> nat \<Rightarrow> string \<Rightarrow> string list \<Rightarrow> string option" where
  "crash_Reduce srt rr key values = do { _ \<leftarrow> crash_maybeCrash rr; let vv = srt values; Some (join '' '' vv) }"

definition nocrash_Map :: "nat \<Rightarrow> string \<Rightarrow> string \<Rightarrow> KeyValue list option" where
  "nocrash_Map rr filename contents = do { _ \<leftarrow> nocrash_maybeCrash rr; Some (abcd_pairs filename contents) }"

definition nocrash_Reduce :: "(string list \<Rightarrow> string list) \<Rightarrow> nat \<Rightarrow> string \<Rightarrow> string list \<Rightarrow> string option" where
  "nocrash_Reduce srt rr key values = do { _ \<leftarrow> nocrash_maybeCrash rr; let vv = srt values; Some (join '' '' vv) }"

section \<open>early_exit and jobcount\<close>

text \<open>\<open>strings.Contains\<close> only decides about a delay of \<open>Reduce\<close>.\<close>

definition early_exit_Map :: "string \<Rightarrow> string \<Rightarrow> KeyValue list" where
  "early_exit_Map filename contents = [kv filename ''1'']"

definition early_exit_Reduce :: "string \<Rightarrow> string list \<Rightarrow> string" where
  "early_exit_Reduce key values = itoa (length values)"

text \<open>\<open>jobcount\<close>: \<open>Map\<close> leaves one file per call, named after the process and its counter.\<close>

definition jobcount_name :: "nat \<Rightarrow> nat \<Rightarrow> string" where
  "jobcount_name pid cnt = ''mr-worker-jobcount-'' @ itoa pid @ ''-'' @ itoa cnt"

definition jobcount_Map :: "nat \<Rightarrow> nat \<Rightarrow> fs \<Rightarrow> string \<Rightarrow> string \<Rightarrow> nat \<times> fs \<times> KeyValue list" where
  "jobcount_Map pid cnt fs filename contents = (cnt + 1, fs(jobcount_name pid cnt \<mapsto> ''x''), [kv ''a'' ''x''])"

definition HasPrefix :: "string \<Rightarrow> string \<Rightarrow> bool" where
  "HasPrefix s p \<longleftrightarrow> length p \<le> length s \<and> take (length p) s = p"

definition jobcount_Reduce :: "string list \<Rightarrow> string \<Rightarrow> string list \<Rightarrow> string" where
  "jobcount_Reduce files key values = itoa (length (filter (\<lambda>f. HasPrefix f ''mr-worker-jobcount'') files))"

section \<open>mtiming and rtiming\<close>

text \<open>
  \<open>fmt.Sscanf(name, "mr-worker-<phase>-%d", &xpid)\<close>: the literal prefix, then blanks, a sign and the
  digits of an \<open>int\<close>; what follows the digits is left unread.
\<close>

definition is_digit :: "char \<Rightarrow> bool" where
  "is_digit c \<longleftrightarrow> 48 \<le> (of_char c :: nat) \<and> (of_char c :: nat) < 58"

definition scan_int :: "string \<Rightarrow> int option" where
  "scan_int s = (let s = dropWhile (\<lambda>c. c = CHR '' '' \<or> c = CHR 0x09) s;
      (neg, s) = (case s of [] \<Rightarrow> (False, s) | c # t \<Rightarrow> if c = CHR ''-'' then (True, t) else if c = CHR ''+'' then (False, t) else (False, s));
      ds = takeWhile is_digit s; v = int (digits_val ds); v = (if neg then - v else v)
    in if ds = [] \<or> v < - (2 ^ 63) \<or> 2 ^ 63 \<le> v then None else Some v)"

definition worker_name :: "string \<Rightarrow> string" where
  "worker_name phase = ''mr-worker-'' @ phase @ ''-''"

definition Sscanf_worker :: "string \<Rightarrow> string \<Rightarrow> int option" where
  "Sscanf_worker phase name = (let p = worker_name phase in if HasPrefix name p then scan_int (drop (length p) name) else None)"

text \<open>
  \<open>nparallel\<close>: \<open>names\<close> is the listing the process reads after writing its own file, \<open>fs'\<close> the file
  system it finds after the delay, \<open>alive\<close> the processes that \<open>kill(pid, 0)\<close> finds.
\<close>

definition nparallel_write :: "string \<Rightarrow> nat \<Rightarrow> fs \<Rightarrow> fs" where
  "nparallel_write phase pid fs = fs(worker_name phase @ itoa pid \<mapsto> ''x'')"

definition nparallel_count :: "(int \<Rightarrow> bool) \<Rightarrow> string \<Rightarrow> string list \<Rightarrow> nat" where
  "nparallel_count alive phase names =
     length (filter (\<lambda>name. case Sscanf_worker phase name of None \<Rightarrow> False | Some xpid \<Rightarrow> alive xpid) names)"

definition nparallel :: "(int \<Rightarrow> bool) \<Rightarrow> string \<Rightarrow> nat \<Rightarrow> string list \<Rightarrow> fs \<Rightarrow> (fs \<times> nat) option" where
  "nparallel alive phase pid names fs' = (let myfilename = worker_name phase @ itoa pid in
     if fs' myfilename = None then None else Some (fs'(myfilename := None), nparallel_count alive phase names))"

text \<open>\<open>ts\<close> is the clock as \<open>Map\<close> prints it.\<close>

definition mtiming_Map :: "(int \<Rightarrow> bool) \<Rightarrow> nat \<Rightarrow> string \<Rightarrow> string list \<Rightarrow> fs \<Rightarrow> string \<Rightarrow> string \<Rightarrow> (fs \<times> KeyValue list) option" where
  "mtiming_Map alive pid ts names fs' filename contents = do {
     (fs, n) \<leftarrow> nparallel alive ''map'' pid names fs';
     Some (fs, [kv (''times-'' @ itoa pid) ts, kv (''parallel-'' @ itoa pid) (itoa n)]) }"

definition mtiming_Reduce :: "(string list \<Rightarrow> string list) \<Rightarrow> string \<Rightarrow> string list \<Rightarrow> string" where
  "mtiming_Reduce srt key values = (let vv = srt values in join '' '' vv)"

definition rtiming_Map :: "string \<Rightarrow> string \<Rightarrow> KeyValue list" where
  "rtiming_Map filename contents = map (\<lambda>k. kv [k] ''1'') ''abcdefghij''"

definition rtiming_Reduce :: "(int \<Rightarrow> bool) \<Rightarrow> nat \<Rightarrow> string list \<Rightarrow> fs \<Rightarrow> string \<Rightarrow> string list \<Rightarrow> (fs \<times> string) option" where
  "rtiming_Reduce alive pid names fs' key values = do {
     (fs, n) \<leftarrow> nparallel alive ''reduce'' pid names fs';
     Some (fs, itoa n) }"

section \<open>Words\<close>

definition letters :: "(nat \<Rightarrow> bool) \<Rightarrow> (nat \<times> string) list \<Rightarrow> string" where
  "letters isLetter rs = concat (map snd (filter (\<lambda>r. isLetter (fst r)) rs))"

lemma runes_enc: "(r, enc) \<in> set (runes s) \<Longrightarrow> enc \<noteq> []"
proof (induction s rule: runes.induct)
  case (1 s)
  show ?case
  proof (cases "s = []")
    case False
    obtain r' w where d: "DecodeRune s = (r', w)" by (cases "DecodeRune s")
    have "(r, enc) = (r', take w s) \<or> (r, enc) \<in> set (runes (drop w s))" using 1(2) False d by (simp add: runes.simps [of s])
    then show ?thesis using 1(1) [OF False d [symmetric]] DecodeRune_width [OF False] d False by auto
  qed (use 1(2) in \<open>simp add: runes.simps\<close>)
qed

lemma runes_concat: "concat (map snd (runes s)) = s"
proof (induction s rule: runes.induct)
  case (1 s)
  then show ?case by (cases "DecodeRune s") (auto simp: runes.simps [of s])
qed

lemma fields_loop_concat: "concat (fields_loop (\<lambda>r. \<not> P r) rs cur) = cur @ letters P rs"
  by (induction "\<lambda>r. \<not> P r" rs cur rule: fields_loop.induct) (auto simp: letters_def)

lemma fields_loop_words:
  assumes "\<forall>(r, enc)\<in>set rs. enc \<noteq> []" "w \<in> set (fields_loop (\<lambda>r. \<not> P r) rs cur)"
    and "\<exists>us. cur = concat (map snd us) \<and> (\<forall>u\<in>set us. P (fst u) \<and> u \<in> S)" and "set rs \<subseteq> S"
  shows "w \<noteq> [] \<and> (\<exists>us. w = concat (map snd us) \<and> (\<forall>u\<in>set us. P (fst u) \<and> u \<in> S))"
  using assms
proof (induction "\<lambda>r. \<not> P r" rs cur rule: fields_loop.induct)
  case (2 r enc rs cur)
  show ?case
  proof (cases "P r")
    case True
    from 2(6) obtain us where "cur = concat (map snd us)" "\<forall>u\<in>set us. P (fst u) \<and> u \<in> S" by blast
    then have "\<exists>us. cur @ enc = concat (map snd us) \<and> (\<forall>u\<in>set us. P (fst u) \<and> u \<in> S)"
      using True 2(7) by (intro exI [of _ "us @ [(r, enc)]"]) auto
    then show ?thesis using True 2(3-7) by simp
  next
    case False
    have e: "\<exists>us. [] = concat (map snd us) \<and> (\<forall>u\<in>set us. P (fst u) \<and> u \<in> S)" by (intro exI [of _ "[]"]) simp
    have rs: "\<forall>(r, enc)\<in>set rs. enc \<noteq> []" "set rs \<subseteq> S" using 2(4,7) by auto
    have "w \<in> set (fields_loop (\<lambda>r. \<not> P r) rs []) \<or> w = cur \<and> cur \<noteq> []" using 2(5) False by (auto split: if_splits)
    then show ?thesis using 2(1) [OF False _ rs(1) _ e rs(2)] 2(2) [OF False _ rs(1) _ e rs(2)] 2(6) by (cases "cur = []") blast+
  qed
qed (auto split: if_splits)

section \<open>Values in any order\<close>

lemma go_sort_strings:
  assumes "go_sort (<) (srt :: string list \<Rightarrow> string list)"
  shows "srt vs = sort vs"
proof -
  have "sorted (srt vs)" using go_sort.srt_ordered [OF assms, of vs] by (simp add: linorder_not_less)
  then show ?thesis using go_sort.srt_mset [OF assms, of vs] by (metis properties_for_sort)
qed

lemma order_free_wc: "order_free wc_Reduce"
  by (auto simp: order_free_def wc_Reduce_def dest: mset_eq_length)

lemma order_free_indexer: "go_sort (<) srt \<Longrightarrow> order_free (indexer_Reduce srt)"
  unfolding order_free_def indexer_Reduce_def Let_def by (metis go_sort_strings sorted_list_of_multiset_mset)

section \<open>What the applications compute\<close>

text \<open>\<open>words\<close>: the words of a file. \<open>range\<close> visits every key of a map once.\<close>

definition words :: "(nat \<Rightarrow> bool) \<Rightarrow> fs \<Rightarrow> string \<Rightarrow> string list" where
  "words isLetter fs f = FieldsFunc (\<lambda>r. \<not> isLetter r) (the (fs f))"

definition visits_all :: "(string set \<Rightarrow> string list) \<Rightarrow> bool" where
  "visits_all visit \<longleftrightarrow> (\<forall>S. finite S \<longrightarrow> set (visit S) = S \<and> distinct (visit S))"

lemma filter_single: "distinct xs \<Longrightarrow> filter (\<lambda>x. x = w) xs = (if w \<in> set xs then [w] else [])"
  by (induction xs) (auto simp: filter_empty_conv)

lemma count_list_filter: "count_list xs w = length (filter (\<lambda>x. x = w) xs)"
  by (induction xs) auto

lemma vals_of_append: "vals_of k (xs @ ys) = vals_of k xs @ vals_of k ys"
  by (simp add: vals_of_def)

lemma wc_vals: "length (vals_of w (concat (map (map_out (wc_Map isLetter) fs) files))) = count_list (concat (map (words isLetter fs) files)) w"
proof (induction files)
  case (Cons f files)
  have "length (vals_of w (map_out (wc_Map isLetter) fs f)) = count_list (words isLetter fs f) w"
    by (simp add: vals_of_def map_out_def wc_Map_def words_def kv_def filter_map o_def count_list_filter)
  then show ?case using Cons by (simp add: vals_of_append)
qed (simp add: vals_of_def)

lemma wc_keys: "kv_Key ` set (concat (map (map_out (wc_Map isLetter) fs) files)) = set (concat (map (words isLetter fs) files))"
  by (auto simp: map_out_def wc_Map_def words_def kv_def image_UN image_image)

lemma wc_lines:
  "out_lines wc_Reduce (concat (map (map_out (wc_Map isLetter) fs) files)) =
     (let ws = concat (map (words isLetter fs) files) in
      map (\<lambda>w. w @ '' '' @ itoa (count_list ws w) @ [CHR 10]) (sorted_list_of_set (set ws)))"
  unfolding out_lines_def wc_keys Let_def by (simp add: out_line_def wc_Reduce_def wc_vals del: set_concat)

lemma indexer_file_vals:
  assumes "visits_all visit"
  shows "vals_of w (map_out (indexer_Map isLetter visit) fs f) = (if w \<in> set (words isLetter fs f) then [f] else [])"
proof -
  let ?v = "visit (set (words isLetter fs f))"
  have v: "set ?v = set (words isLetter fs f)" "distinct ?v" using assms by (simp_all add: visits_all_def)
  show ?thesis using filter_single [OF v(2), of w] v(1) by (simp add: vals_of_def map_out_def indexer_Map_def words_def kv_def filter_map o_def Let_def)
qed

lemma indexer_vals:
  assumes "visits_all visit"
  shows "vals_of w (concat (map (map_out (indexer_Map isLetter visit) fs) files)) = filter (\<lambda>f. w \<in> set (words isLetter fs f)) files"
  by (induction files) (simp_all add: vals_of_append indexer_file_vals [OF assms], simp add: vals_of_def)

lemma indexer_keys:
  assumes "visits_all visit"
  shows "kv_Key ` set (concat (map (map_out (indexer_Map isLetter visit) fs) files)) = set (concat (map (words isLetter fs) files))"
  using assms by (auto simp: visits_all_def map_out_def indexer_Map_def words_def kv_def Let_def image_UN image_image)

lemma indexer_lines:
  assumes "visits_all visit" "go_sort (<) srt"
  shows "out_lines (indexer_Reduce srt) (concat (map (map_out (indexer_Map isLetter visit) fs) files)) =
     map (\<lambda>w. let docs = sort (filter (\<lambda>f. w \<in> set (words isLetter fs f)) files) in
              w @ '' '' @ itoa (length docs) @ '' '' @ join '','' docs @ [CHR 10])
         (sorted_list_of_set (set (concat (map (words isLetter fs) files))))"
  unfolding out_lines_def indexer_keys [OF assms(1)]
  by (simp add: out_line_def indexer_Reduce_def indexer_vals [OF assms(1)] go_sort_strings [OF assms(2)] Let_def del: set_concat)

text \<open>The letters of ASCII, for concrete runs.\<close>

definition ascii_letter :: "nat \<Rightarrow> bool" where
  "ascii_letter r \<longleftrightarrow> 65 \<le> r \<and> r \<le> 90 \<or> 97 \<le> r \<and> r \<le> 122"

lemma sample_fields: "FieldsFunc (\<lambda>r. \<not> ascii_letter r) ''a'' = [''a'']"
  by (simp add: FieldsFunc_def runes.simps DecodeRune_def Let_def ascii_letter_def)

lemma itoa_1: "itoa (Suc 0) = ''1''"
  by code_simp





lemma FieldsFunc_words:
  assumes "w \<in> set (FieldsFunc (\<lambda>r. \<not> isLetter r) s)"
  shows "w \<noteq> [] \<and> (\<exists>us. w = concat (map snd us) \<and> (\<forall>u\<in>set us. isLetter (fst u) \<and> u \<in> set (runes s)))"
proof -
  have enc: "\<forall>(r, enc)\<in>set (runes s). enc \<noteq> []" using runes_enc by blast
  have nil: "\<exists>us. [] = concat (map snd us) \<and> (\<forall>u\<in>set us. isLetter (fst u) \<and> u \<in> set (runes s))" by (intro exI [of _ "[]"]) simp
  from fields_loop_words [OF enc assms [unfolded FieldsFunc_def] nil order_refl] show ?thesis .
qed

text \<open>
  The keys \<open>wc\<close>'s \<open>Map\<close> emits for a text are its words: nonempty, made of letters of the text
  only, and together they are all the letters of the text, in order.
\<close>

theorem wc_Map_words:
  "concat (map kv_Key (wc_Map isLetter filename s)) = letters isLetter (runes s) \<and> concat (map snd (runes s)) = s
   \<and> list_all (\<lambda>x. kv_Value x = ''1'' \<and> kv_Key x \<noteq> []
        \<and> (\<exists>us. kv_Key x = concat (map snd us) \<and> list_all (\<lambda>u. isLetter (fst u)) us \<and> set us \<subseteq> set (runes s))) (wc_Map isLetter filename s)"
proof -
  have "map kv_Key (wc_Map isLetter filename s) = FieldsFunc (\<lambda>r. \<not> isLetter r) s" by (simp add: wc_Map_def kv_def o_def)
  moreover have "concat (FieldsFunc (\<lambda>r. \<not> isLetter r) s) = letters isLetter (runes s)" by (simp add: FieldsFunc_def fields_loop_concat)
  ultimately show ?thesis using FieldsFunc_words runes_concat by (fastforce simp: list_all_iff wc_Map_def kv_def)
qed

section \<open>Counting files\<close>

text \<open>
  A run of \<open>jobcount\<close>: \<open>calls\<close> lists the processes in the order of their calls of \<open>Map\<close>; each
  process has its own variable \<open>count\<close>.
\<close>

fun jobcount_run :: "nat list \<Rightarrow> (nat \<Rightarrow> nat) \<Rightarrow> fs \<Rightarrow> (nat \<Rightarrow> nat) \<times> fs" where
  "jobcount_run [] cnt fs = (cnt, fs)"
| "jobcount_run (pid # calls) cnt fs =
     (case jobcount_Map pid (cnt pid) fs [] [] of (c, fs, _) \<Rightarrow> jobcount_run calls (cnt(pid := c)) fs)"

lemma jobcount_name_inj: "jobcount_name p c = jobcount_name p' c' \<longleftrightarrow> p = p' \<and> c = c'"
  using append_sep_eq [of "CHR ''-''" "itoa p" "itoa p'" "itoa c" "itoa c'"] itoa_no_dash by (simp add: jobcount_name_def itoa_inj)

lemma jobcount_name_prefix: "HasPrefix (jobcount_name p c) ''mr-worker-jobcount''"
  by (simp add: HasPrefix_def jobcount_name_def)

lemma jobcount_run_files:
  assumes "\<forall>p c. fs (jobcount_name p c) \<noteq> None \<longleftrightarrow> c < cnt p" "finite (dom fs)"
  shows "card {f \<in> dom (snd (jobcount_run calls cnt fs)). HasPrefix f ''mr-worker-jobcount''}
       = card {f \<in> dom fs. HasPrefix f ''mr-worker-jobcount''} + length calls
     \<and> finite (dom (snd (jobcount_run calls cnt fs)))"
  using assms
proof (induction calls arbitrary: cnt fs)
  case (Cons pid calls)
  let ?n = "jobcount_name pid (cnt pid)" and ?H = "\<lambda>f. HasPrefix f ''mr-worker-jobcount''"
  define fs1 cnt1 where d: "fs1 = fs(?n \<mapsto> ''x'')" "cnt1 = cnt(pid := Suc (cnt pid))"
  have new: "?n \<notin> dom fs" using Cons(2) by auto
  have "{f \<in> dom fs1. ?H f} = insert ?n {f \<in> dom fs. ?H f}" using jobcount_name_prefix by (auto simp: d)
  then have "card {f \<in> dom fs1. ?H f} = Suc (card {f \<in> dom fs. ?H f})" using new Cons(3) by simp
  moreover have "\<forall>p c. fs1 (jobcount_name p c) \<noteq> None \<longleftrightarrow> c < cnt1 p"
    using Cons(2) by (auto simp: d jobcount_name_inj less_Suc_eq)
  moreover have "finite (dom fs1)" using Cons(3) by (simp add: d)
  moreover have "jobcount_run (pid # calls) cnt fs = jobcount_run calls cnt1 fs1" by (simp add: jobcount_Map_def d)
  ultimately show ?case using Cons(1) [of fs1 cnt1] by simp
qed simp

text \<open>
  \<open>jobcount\<close> counts calls: in a directory without its files, after any sequence of calls of \<open>Map\<close>
  by any processes, \<open>Reduce\<close> prints exactly the number of calls.
\<close>

theorem jobcount_counts:
  assumes "\<forall>f\<in>dom fs. \<not> HasPrefix f ''mr-worker-jobcount''" and "finite (dom fs)"
    and "set names = dom (snd (jobcount_run calls (\<lambda>_. 0) fs))" and "distinct names"
  shows "jobcount_Reduce names key values = itoa (length calls)"
proof -
  have "fs (jobcount_name p c) = None" for p c using assms(1) jobcount_name_prefix [of p c] by auto
  moreover have "{f \<in> dom fs. HasPrefix f ''mr-worker-jobcount''} = {}" using assms(1) by auto
  ultimately have "card {f \<in> dom (snd (jobcount_run calls (\<lambda>_. 0) fs)). HasPrefix f ''mr-worker-jobcount''} = length calls"
    using jobcount_run_files [of fs "\<lambda>_. 0" calls] assms(2) by simp
  moreover have "length (filter (\<lambda>f. HasPrefix f ''mr-worker-jobcount'') names) = card {f \<in> set names. HasPrefix f ''mr-worker-jobcount''}"
    using distinct_length_filter [OF assms(4)] by (simp add: Int_def conj_commute)
  ultimately show ?thesis using assms(3) by (simp add: jobcount_Reduce_def)
qed

theorem jobcount_counts_witness:
  "jobcount_Reduce [jobcount_name 7 0, jobcount_name 7 1, ''in''] ''a'' [''x''] = itoa 2"
proof -
  have "distinct [jobcount_name 7 0, jobcount_name 7 1, ''in'']" by (simp add: jobcount_name_inj) (simp add: jobcount_name_def)
  moreover have "set [jobcount_name 7 0, jobcount_name 7 1, ''in''] = dom (snd (jobcount_run [7, 7] (\<lambda>_. 0) [''in'' \<mapsto> ''t'']))"
    by (auto simp: jobcount_Map_def)
  ultimately show ?thesis using jobcount_counts [of "[''in'' \<mapsto> ''t'']" "[jobcount_name 7 0, jobcount_name 7 1, ''in'']" "[7, 7]"]
    by (simp add: HasPrefix_def numeral_2_eq_2)
qed

lemma scan_int_itoa: "int pid < 2 ^ 63 \<Longrightarrow> scan_int (itoa pid) = Some (int pid)"
proof -
  assume b: "int pid < 2 ^ 63"
  have d: "is_digit c" if "c \<in> set (itoa pid)" for c using itoa_digits(1) [OF that] by (simp add: is_digit_def)
  have ne: "itoa pid \<noteq> []" using itoa_loop_digits [of pid "Suc pid" "[]"] by (auto simp: itoa_def)
  then obtain c t where ct: "itoa pid = c # t" by (cases "itoa pid") auto
  then have "c \<noteq> CHR '' ''" "c \<noteq> CHR 0x09" "c \<noteq> CHR ''-''" "c \<noteq> CHR ''+''" using d [of c] by (auto simp: is_digit_def)
  moreover have "takeWhile is_digit (itoa pid) = itoa pid" using d by (simp add: takeWhile_eq_all_conv)
  ultimately show ?thesis using b ct itoa_digits(2) [of pid] by (simp add: scan_int_def Let_def)
qed

lemma Sscanf_worker_own: "int pid < 2 ^ 63 \<Longrightarrow> Sscanf_worker phase (worker_name phase @ itoa pid) = Some (int pid)"
  by (simp add: Sscanf_worker_def HasPrefix_def scan_int_itoa)

text \<open>
  \<open>nparallel\<close> counts the running workers: if the directory holds the files of the processes \<open>pids\<close>
  of the phase and otherwise no file with the prefix of the phase, the result is the number of
  those that are alive; and the process removes its own file.
\<close>

lemma nparallel_counts:
  assumes "\<forall>pid\<in>set pids. int pid < 2 ^ 63" and "\<forall>f\<in>set rest. \<not> HasPrefix f (worker_name phase)"
    and "mset names = mset (map (\<lambda>pid. worker_name phase @ itoa pid) pids @ rest)" and "fs' (worker_name phase @ itoa me) = Some x"
  shows "nparallel alive phase me names fs' = Some (fs'(worker_name phase @ itoa me := None), length (filter (\<lambda>pid. alive (int pid)) pids))"
proof -
  let ?P = "\<lambda>name. case Sscanf_worker phase name of None \<Rightarrow> False | Some xpid \<Rightarrow> alive xpid"
  have "length (filter ?P names) = length (filter ?P (map (\<lambda>pid. worker_name phase @ itoa pid) pids @ rest))"
    using assms(3) by (metis mset_filter size_mset)
  also have "length (filter ?P (map (\<lambda>pid. worker_name phase @ itoa pid) pids @ rest)) = length (filter (\<lambda>pid. alive (int pid)) pids) + length (filter ?P rest)"
    using assms(1) by (induction pids) (auto simp: Sscanf_worker_own)
  also have "filter ?P rest = []" using assms(2) by (auto simp: filter_empty_conv Sscanf_worker_def Let_def)
  finally show ?thesis using assms(4) by (simp add: nparallel_def nparallel_count_def Let_def)
qed

end
