(* ===== verification/Raft_Node.thy ===== *)
theory Raft_Node
  imports Go_Prelude
begin

text \<open>
  One Raft peer, \<open>raft/raft.go\<close> and \<open>raft/persister.go\<close>: the state of a peer, its conversions
  between the three roles, the RPC handlers \<open>RequestVote\<close> and \<open>AppendEntries\<close>, the pieces of the
  goroutines that run under the lock (starting an election, handling a vote, building and
  answering a heartbeat, applying an entry), and the client operations. Each definition is one
  critical section of the code. The lemmas are the laws of these operations alone; the theory
  \<open>Raft_Cluster\<close> composes them.

  The commands are \<open>interface{}\<close> values: an \<open>option\<close> of a type variable, where \<open>None\<close> is nil. Of
  the array of peers the code of a peer uses its length and the index \<open>me\<close>.
\<close>

section \<open>Persister\<close>

type_synonym bytes = "8 word list option"

definition bytes_len :: "bytes \<Rightarrow> nat" where
  "bytes_len b = (case b of None \<Rightarrow> 0 | Some xs \<Rightarrow> length xs)"

record Persister =
  raftstate :: bytes
  snapshot :: bytes

definition MakePersister :: Persister where
  "MakePersister = \<lparr>raftstate = None, snapshot = None\<rparr>"

text \<open>\<open>clone(nil)\<close> is an empty slice that is not nil.\<close>

definition clone :: "bytes \<Rightarrow> bytes" where
  "clone orig = (case orig of None \<Rightarrow> Some [] | Some xs \<Rightarrow> Some xs)"

definition Persister_Copy :: "Persister \<Rightarrow> Persister" where
  "Persister_Copy ps = MakePersister \<lparr>raftstate := raftstate ps, snapshot := snapshot ps\<rparr>"

definition SaveRaftState :: "bytes \<Rightarrow> Persister \<Rightarrow> Persister" where
  "SaveRaftState st ps = ps \<lparr>raftstate := clone st\<rparr>"

definition ReadRaftState :: "Persister \<Rightarrow> bytes" where
  "ReadRaftState ps = clone (raftstate ps)"

definition RaftStateSize :: "Persister \<Rightarrow> nat" where
  "RaftStateSize ps = bytes_len (raftstate ps)"

definition SaveStateAndSnapshot :: "bytes \<Rightarrow> bytes \<Rightarrow> Persister \<Rightarrow> Persister" where
  "SaveStateAndSnapshot st snap ps = ps \<lparr>raftstate := clone st, snapshot := clone snap\<rparr>"

definition ReadSnapshot :: "Persister \<Rightarrow> bytes" where
  "ReadSnapshot ps = clone (snapshot ps)"

definition SnapshotSize :: "Persister \<Rightarrow> nat" where
  "SnapshotSize ps = bytes_len (snapshot ps)"

lemmas persister_defs = MakePersister_def clone_def Persister_Copy_def SaveRaftState_def ReadRaftState_def
  RaftStateSize_def SaveStateAndSnapshot_def ReadSnapshot_def SnapshotSize_def bytes_len_def

section \<open>State of a peer\<close>

record 'c ApplyMsg =
  CommandValid :: bool
  am_Command :: "'c option"
  CommandIndex :: int
  SnapshotValid :: bool
  am_Snapshot :: bytes
  SnapshotTerm :: int
  SnapshotIndex :: int

record 'c LogEntry =
  ent_Term :: int
  ent_Command :: "'c option"

datatype RaftState = LEADER | FOLLOWER | CANDIDATE

text \<open>
  \<open>electionTimeout\<close> is nil (\<open>None\<close>), a timer that is running (\<open>Some True\<close>), or one that has fired
  (\<open>Some False\<close>). \<open>peers\<close> is the number of peers.
\<close>

record 'c Raft =
  peers :: nat
  me :: int
  dead :: int
  currentTerm :: int
  votedFor :: int
  rf_log :: "'c LogEntry list"
  rf_state :: RaftState
  electionTimeout :: "bool option"
  commitIndex :: int
  lastApplied :: int
  nextIndex :: "int list"
  matchIndex :: "int list"
  termToIndex :: "int \<rightharpoonup> int"

record RequestVoteArgs =
  rv_Term :: int
  CandidateId :: int
  LastLogIndex :: int
  LastLogTerm :: int

record RequestVoteReply =
  rvr_Term :: int
  VoteGranted :: bool

record 'c AppendEntriesArgs =
  ae_Term :: int
  LeaderId :: int
  PrevLogIndex :: int
  PrevLogTerm :: int
  Entries :: "'c LogEntry list"
  LeaderCommit :: int
  TermToIndex :: "int \<rightharpoonup> int"

record AppendEntriesReply =
  aer_Term :: int
  Success :: bool

section \<open>Operations\<close>

definition Kill :: "'c Raft \<Rightarrow> 'c Raft" where
  "Kill rf = rf \<lparr>dead := 1\<rparr>"

definition killed :: "'c Raft \<Rightarrow> bool" where
  "killed rf = (dead rf = 1)"

definition GetState :: "'c Raft \<Rightarrow> int \<times> bool" where
  "GetState rf = (currentTerm rf, rf_state rf = LEADER)"

text \<open>
  \<open>ticker\<close> stops the running timer and starts another. The function the timer runs decides
  whether an election is to be attempted (\<open>timer_func\<close>).
\<close>

definition ticker :: "'c Raft \<Rightarrow> 'c Raft" where
  "ticker rf = (if \<not> killed rf then rf \<lparr>electionTimeout := Some True\<rparr> else rf)"

definition timer_func :: "'c Raft \<Rightarrow> bool" where
  "timer_func rf = (rf_state rf \<noteq> LEADER)"

definition conevrtToCandidate :: "'c Raft \<Rightarrow> 'c Raft" where
  "conevrtToCandidate rf = rf \<lparr>rf_state := CANDIDATE, currentTerm := currentTerm rf + 1, votedFor := me rf\<rparr>"

definition conevrtToFollower :: "int \<Rightarrow> 'c Raft \<Rightarrow> 'c Raft" where
  "conevrtToFollower t rf = ticker (rf \<lparr>rf_state := FOLLOWER, currentTerm := t, votedFor := -1\<rparr>)"

text \<open>The caller of \<open>conevrtToLeader\<close> starts the goroutine \<open>HeartBeat\<close>.\<close>

definition conevrtToLeader :: "'c Raft \<Rightarrow> 'c Raft" where
  "conevrtToLeader rf = rf \<lparr>rf_state := LEADER, nextIndex := replicate (peers rf) (int (length (rf_log rf))),
     matchIndex := replicate (peers rf) 0\<rparr>"

text \<open>
  \<open>AttemptEletion\<close>: the critical section that starts the election, and the one that handles the
  answer of a peer. The local variables \<open>args\<close>, \<open>votes\<close> and \<open>done\<close>, shared by the goroutines of one
  attempt, are the record \<open>election\<close>. The last result of \<open>handle_vote\<close> tells that \<open>HeartBeat\<close> is
  started.
\<close>

record election =
  el_args :: RequestVoteArgs
  el_votes :: int
  el_done :: bool

definition AttemptEletion :: "'c Raft \<Rightarrow> ('c Raft \<times> election) option" where
  "AttemptEletion rf = (let rf = conevrtToCandidate rf in do {
     e \<leftarrow> slice_get (rf_log rf) (int (length (rf_log rf)) - 1);
     let args = \<lparr>rv_Term = currentTerm rf, CandidateId = me rf,
                 LastLogIndex = int (length (rf_log rf)) - 1, LastLogTerm = ent_Term e\<rparr>;
     Some (rf, \<lparr>el_args = args, el_votes = 1, el_done = False\<rparr>) })"

definition handle_vote :: "RequestVoteReply \<Rightarrow> 'c Raft \<Rightarrow> election \<Rightarrow> 'c Raft \<times> election \<times> bool" where
  "handle_vote reply rf el =
     (if rvr_Term reply > currentTerm rf then (conevrtToFollower (rvr_Term reply) rf, el, False)
      else if \<not> VoteGranted reply then (rf, el, False)
      else let el = el \<lparr>el_votes := el_votes el + 1\<rparr> in
        if el_done el \<or> el_votes el \<le> int (peers rf div 2) then (rf, el, False)
        else if currentTerm rf = rv_Term (el_args el) \<and> rf_state rf = CANDIDATE
        then (conevrtToLeader rf, el \<lparr>el_done := True\<rparr>, True)
        else (rf, el, False))"

definition persist :: "'c Raft \<Rightarrow> 'c Raft" where
  "persist rf = rf"

definition readPersist :: "bytes \<Rightarrow> 'c Raft \<Rightarrow> 'c Raft" where
  "readPersist data rf = (if data = None \<or> bytes_len data < 1 then rf else rf)"

definition CondInstallSnapshot :: "int \<Rightarrow> int \<Rightarrow> bytes \<Rightarrow> 'c Raft \<Rightarrow> 'c Raft \<times> bool" where
  "CondInstallSnapshot lastIncludedTerm lastIncludedIndex snap rf = (rf, True)"

definition Snapshot_op :: "int \<Rightarrow> bytes \<Rightarrow> 'c Raft \<Rightarrow> 'c Raft" where
  "Snapshot_op index snap rf = rf"

definition AppendEntries :: "'c AppendEntriesArgs \<Rightarrow> 'c Raft \<Rightarrow> ('c Raft \<times> AppendEntriesReply) option" where
  "AppendEntries args rf =
     (if rf_state rf \<noteq> FOLLOWER then
        if currentTerm rf \<le> ae_Term args then
          let rf = conevrtToFollower (ae_Term args) rf in Some (rf, \<lparr>aer_Term = currentTerm rf, Success = True\<rparr>)
        else Some (rf, \<lparr>aer_Term = currentTerm rf, Success = False\<rparr>)
      else if currentTerm rf \<le> ae_Term args then
        let rf = ticker (rf \<lparr>currentTerm := ae_Term args\<rparr>); index = PrevLogIndex args in
        if int (length (rf_log rf)) \<le> index then Some (rf, \<lparr>aer_Term = currentTerm rf, Success = False\<rparr>)
        else do {
          e \<leftarrow> slice_get (rf_log rf) index;
          if ent_Term e \<noteq> PrevLogTerm args then Some (rf, \<lparr>aer_Term = currentTerm rf, Success = False\<rparr>)
          else do {
            kept \<leftarrow> slice_to (rf_log rf) (index + 1);
            let rf = rf \<lparr>rf_log := kept @ Entries args, termToIndex := TermToIndex args\<rparr>;
            let rf = (if LeaderCommit args > commitIndex rf
                      then rf \<lparr>commitIndex := if LeaderCommit args < int (length (rf_log rf)) - 1 then LeaderCommit args
                                             else int (length (rf_log rf)) - 1\<rparr>
                      else rf);
            Some (rf, \<lparr>aer_Term = currentTerm rf, Success = True\<rparr>) } }
      else Some (rf, \<lparr>aer_Term = currentTerm rf, Success = False\<rparr>))"

definition RequestVote :: "RequestVoteArgs \<Rightarrow> 'c Raft \<Rightarrow> ('c Raft \<times> RequestVoteReply) option" where
  "RequestVote args rf =
     (if currentTerm rf > rv_Term args then Some (rf, \<lparr>rvr_Term = currentTerm rf, VoteGranted = False\<rparr>)
      else
        let rf = (if currentTerm rf < rv_Term args then rf \<lparr>currentTerm := rv_Term args, votedFor := -1\<rparr> else rf) in
        if votedFor rf \<noteq> -1 \<and> votedFor rf \<noteq> CandidateId args
        then Some (rf, \<lparr>rvr_Term = currentTerm rf, VoteGranted = False\<rparr>)
        else do {
          e \<leftarrow> slice_get (rf_log rf) (int (length (rf_log rf)) - 1);
          if LastLogTerm args > ent_Term e
             \<or> (LastLogTerm args = ent_Term e \<and> LastLogIndex args \<ge> int (length (rf_log rf)) - 1)
          then Some (ticker (rf \<lparr>votedFor := CandidateId args\<rparr>), \<lparr>rvr_Term = currentTerm rf, VoteGranted = True\<rparr>)
          else Some (rf, \<lparr>rvr_Term = 0, VoteGranted = False\<rparr>) })"

definition Start :: "'c option \<Rightarrow> 'c Raft \<Rightarrow> ('c Raft \<times> int \<times> int \<times> bool) option" where
  "Start command rf =
     (let index = int (length (rf_log rf)) - 1; term = currentTerm rf in
      if rf_state rf = LEADER then do {
        e \<leftarrow> slice_get (rf_log rf) (int (length (rf_log rf)) - 1);
        let rf = (if currentTerm rf \<noteq> ent_Term e
                  then rf \<lparr>termToIndex := (termToIndex rf)(currentTerm rf \<mapsto> int (length (rf_log rf)))\<rparr> else rf);
        Some (rf \<lparr>rf_log := rf_log rf @ [\<lparr>ent_Term = currentTerm rf, ent_Command = command\<rparr>]\<rparr>, index + 1, term, True) }
      else Some (rf, index, term, False))"

text \<open>
  \<open>HeartBeat\<close>: \<open>hb_args\<close> is the critical section that builds the message for one peer, \<open>hb_reply\<close>
  the one that handles its answer. \<open>count\<close> and \<open>done\<close>, shared by the goroutines of one round, are
  the record \<open>hb_round\<close>. \<open>backup\<close> is the inner loop over the terms.
\<close>

record hb_round =
  hb_count :: int
  hb_done :: bool

definition new_round :: hb_round where
  "new_round = \<lparr>hb_count = 1, hb_done = False\<rparr>"

definition hb_args :: "int \<Rightarrow> 'c Raft \<Rightarrow> 'c AppendEntriesArgs option" where
  "hb_args index rf = do {
     ni \<leftarrow> slice_get (nextIndex rf) index;
     e \<leftarrow> slice_get (rf_log rf) (ni - 1);
     es \<leftarrow> slice_from (rf_log rf) ni;
     Some \<lparr>ae_Term = currentTerm rf, LeaderId = me rf, PrevLogIndex = ni - 1, PrevLogTerm = ent_Term e,
           Entries = es, LeaderCommit = commitIndex rf, TermToIndex = termToIndex rf\<rparr> }"

function backup :: "(int \<rightharpoonup> int) \<Rightarrow> int \<Rightarrow> int" where
  "backup m i = (if i > 0 then if map_get0 0 m i \<noteq> 0 then map_get0 0 m i else backup m (i - 1) else 1)"
  by pat_completeness auto
termination by (relation "measure (\<lambda>(m, i). nat i)") auto

declare backup.simps [simp del]

definition hb_reply ::
  "int \<Rightarrow> 'c AppendEntriesArgs \<Rightarrow> AppendEntriesReply \<Rightarrow> 'c Raft \<Rightarrow> hb_round \<Rightarrow> ('c Raft \<times> hb_round) option" where
  "hb_reply index args reply rf r =
     (if \<not> Success reply then
        if aer_Term reply > currentTerm rf then Some (conevrtToFollower (aer_Term reply) rf, r)
        else do {
          ni \<leftarrow> slice_set (nextIndex rf) index (backup (termToIndex rf) (PrevLogTerm args - 1));
          Some (rf \<lparr>nextIndex := ni\<rparr>, r) }
      else do {
        ni \<leftarrow> slice_set (nextIndex rf) index (int (length (rf_log rf)));
        mi \<leftarrow> slice_set (matchIndex rf) index (int (length (rf_log rf)) - 1);
        let rf = rf \<lparr>nextIndex := ni, matchIndex := mi\<rparr>;
        let r = r \<lparr>hb_count := hb_count r + 1\<rparr>;
        if hb_done r \<or> hb_count r \<le> int (peers rf div 2) then Some (rf, r)
        else Some (rf \<lparr>commitIndex := int (length (rf_log rf)) - 1\<rparr>, r \<lparr>hb_done := True\<rparr>) })"

text \<open>One turn of the loop of \<open>apply\<close> sends at most one message.\<close>

definition apply_turn :: "'c Raft \<Rightarrow> ('c Raft \<times> 'c ApplyMsg list) option" where
  "apply_turn rf =
     (if commitIndex rf > lastApplied rf then do {
        let rf = rf \<lparr>lastApplied := lastApplied rf + 1\<rparr>;
        e \<leftarrow> slice_get (rf_log rf) (lastApplied rf);
        Some (rf, [\<lparr>CommandValid = True, am_Command = ent_Command e, CommandIndex = lastApplied rf,
                    SnapshotValid = False, am_Snapshot = None, SnapshotTerm = 0, SnapshotIndex = 0\<rparr>]) }
      else Some (rf, []))"

definition Make :: "nat \<Rightarrow> int \<Rightarrow> Persister \<Rightarrow> 'c Raft" where
  "Make n i persister = readPersist (ReadRaftState persister)
     \<lparr>peers = n, me = i, dead = 0, currentTerm = 0, votedFor = -1, rf_log = [\<lparr>ent_Term = 0, ent_Command = None\<rparr>],
      rf_state = FOLLOWER, electionTimeout = None, commitIndex = 0, lastApplied = 0, nextIndex = [], matchIndex = [],
      termToIndex = [0 \<mapsto> 0]\<rparr>"

section \<open>Well-formed peers\<close>

text \<open>
  \<open>log_wf t l\<close>: entry 0 is the dummy entry of term 0, terms grow along the log and do not exceed
  \<open>t\<close>. \<open>tti_ok k m\<close>: the positions in a \<open>termToIndex\<close> map belong to a log of length \<open>k\<close>. \<open>node_ok\<close>
  is the invariant of peer \<open>i\<close> of \<open>n\<close>, \<open>args_ok\<close> that of a heartbeat in transit.
\<close>

definition log_wf :: "int \<Rightarrow> 'c LogEntry list \<Rightarrow> bool" where
  "log_wf t l \<longleftrightarrow> l \<noteq> [] \<and> ent_Term (hd l) = 0 \<and> sorted (map ent_Term l) \<and> (\<forall>e\<in>set l. ent_Term e \<le> t)"

definition tti_ok :: "nat \<Rightarrow> (int \<rightharpoonup> int) \<Rightarrow> bool" where
  "tti_ok k m \<longleftrightarrow> (\<forall>t i. m t = Some i \<longrightarrow> 0 \<le> i \<and> i < int k)"

definition node_ok :: "nat \<Rightarrow> nat \<Rightarrow> 'c Raft \<Rightarrow> bool" where
  "node_ok n i rf \<longleftrightarrow> peers rf = n \<and> me rf = int i \<and> log_wf (currentTerm rf) (rf_log rf)
     \<and> - 1 \<le> votedFor rf \<and> votedFor rf < int n \<and> 0 \<le> commitIndex rf \<and> 0 \<le> lastApplied rf
     \<and> tti_ok (length (rf_log rf)) (termToIndex rf)
     \<and> length (nextIndex rf) \<in> {0, n} \<and> length (matchIndex rf) = length (nextIndex rf) \<and> (\<forall>x\<in>set (nextIndex rf). 1 \<le> x)
     \<and> (rf_state rf = LEADER \<longrightarrow> length (nextIndex rf) = n \<and> (\<forall>x\<in>set (nextIndex rf). x \<le> int (length (rf_log rf))))"

definition args_ok :: "'c AppendEntriesArgs \<Rightarrow> bool" where
  "args_ok a \<longleftrightarrow> 0 \<le> PrevLogIndex a \<and> sorted (PrevLogTerm a # map ent_Term (Entries a))
     \<and> (\<forall>e\<in>set (Entries a). ent_Term e \<le> ae_Term a)
     \<and> tti_ok (nat (PrevLogIndex a) + 1 + length (Entries a)) (TermToIndex a)"

lemma log_wf_mono: "log_wf t l \<Longrightarrow> t \<le> t' \<Longrightarrow> log_wf t' l"
  by (auto simp: log_wf_def)

lemma log_wf_nonneg: "log_wf t l \<Longrightarrow> 0 \<le> t"
  by (cases l) (auto simp: log_wf_def)

lemma log_wf_last: "log_wf t l \<Longrightarrow> slice_get l (int (length l) - 1) = Some (last l) \<and> ent_Term (last l) \<le> t"
  by (cases l rule: rev_cases) (auto simp: log_wf_def slice_get_def nat_diff_distrib)

lemma log_wf_snoc: "log_wf t l \<Longrightarrow> log_wf t (l @ [\<lparr>ent_Term = t, ent_Command = c\<rparr>])"
  by (auto simp: log_wf_def sorted_append)

lemma log_wf_splice:
  assumes "log_wf t l" "t \<le> t'" "k < length l" "ent_Term (l ! k) = p"
    and "sorted (p # map ent_Term es)" "\<forall>e\<in>set es. ent_Term e \<le> t'"
  shows "log_wf t' (take (Suc k) l @ es)"
proof -
  have "ent_Term e \<le> p" if "e \<in> set (take (Suc k) l)" for e
    using that assms(1,3,4) by (force simp: log_wf_def in_set_conv_nth sorted_iff_nth_mono)
  moreover have "sorted (map ent_Term (take (Suc k) l))"
    using assms(1) by (simp add: log_wf_def take_map [symmetric])
  ultimately have "sorted (map ent_Term (take (Suc k) l @ es))"
    using assms(5) by (fastforce simp: sorted_append)
  moreover have "\<forall>e\<in>set (take (Suc k) l). ent_Term e \<le> t'"
    using assms(1,2) by (force simp: log_wf_def dest: in_set_takeD)
  ultimately show ?thesis using assms(1,6) by (auto simp: log_wf_def hd_append)
qed

lemma ticker_simps [simp]:
  "peers (ticker rf) = peers rf" "me (ticker rf) = me rf" "dead (ticker rf) = dead rf" "currentTerm (ticker rf) = currentTerm rf"
  "votedFor (ticker rf) = votedFor rf" "rf_log (ticker rf) = rf_log rf" "rf_state (ticker rf) = rf_state rf"
  "commitIndex (ticker rf) = commitIndex rf" "lastApplied (ticker rf) = lastApplied rf" "nextIndex (ticker rf) = nextIndex rf"
  "matchIndex (ticker rf) = matchIndex rf" "termToIndex (ticker rf) = termToIndex rf"
  by (simp_all add: ticker_def)

lemma node_ok_ticker [simp]: "node_ok n i (ticker rf) = node_ok n i rf"
  by (simp add: node_ok_def)

lemma node_ok_timeout [simp]: "node_ok n i (rf \<lparr>electionTimeout := x\<rparr>) = node_ok n i rf"
  by (simp add: node_ok_def)

lemma node_ok_Kill [simp]: "node_ok n i (Kill rf) = node_ok n i rf"
  by (simp add: node_ok_def Kill_def)

lemma node_ok_Make: "0 < n \<Longrightarrow> node_ok n i (Make n (int i) ps)"
  by (auto simp: node_ok_def Make_def readPersist_def log_wf_def tti_ok_def)

lemma node_ok_conevrtToFollower:
  "node_ok n i rf \<Longrightarrow> currentTerm rf \<le> t \<Longrightarrow> node_ok n i (conevrtToFollower t rf)"
  by (auto simp: node_ok_def conevrtToFollower_def intro: log_wf_mono)

lemma node_ok_conevrtToLeader: "node_ok n i rf \<Longrightarrow> node_ok n i (conevrtToLeader rf)"
  by (auto simp: node_ok_def conevrtToLeader_def log_wf_def Suc_le_eq)

lemma backup_bounds: "tti_ok k m \<Longrightarrow> 0 < k \<Longrightarrow> 1 \<le> backup m i \<and> backup m i \<le> int k"
proof (induction m i rule: backup.induct)
  case (1 m i)
  have "0 \<le> map_get0 0 m i \<and> map_get0 0 m i < int k"
    using 1(2,3) by (auto simp: map_get0_def tti_ok_def split: option.split)
  then show ?case using 1 by (subst (1 2) backup.simps) auto
qed

section \<open>Every operation keeps a peer well-formed\<close>

text \<open>
  \<open>evolves\<close> is what all operations but \<open>apply\<close> have in common: terms grow, nothing is applied, and
  the leader's tables, once made, stay.
\<close>

definition evolves :: "'c Raft \<Rightarrow> 'c Raft \<Rightarrow> bool" where
  "evolves rf rf' \<longleftrightarrow> currentTerm rf \<le> currentTerm rf' \<and> lastApplied rf' = lastApplied rf
     \<and> (nextIndex rf \<noteq> [] \<longrightarrow> nextIndex rf' \<noteq> [])"

lemma evolves_simps [simp]:
  "evolves rf rf" "evolves rf (ticker rf') = evolves rf rf'" "evolves rf (rf' \<lparr>electionTimeout := x\<rparr>) = evolves rf rf'"
  "evolves rf (Kill rf') = evolves rf rf'"
  by (simp_all add: evolves_def Kill_def)

lemma AttemptEletion_ok:
  assumes "node_ok n i rf" "i < n"
  shows "\<exists>rf' el. AttemptEletion rf = Some (rf', el) \<and> node_ok n i rf' \<and> currentTerm rf' = currentTerm rf + 1
    \<and> votedFor rf' = int i \<and> rf_state rf' = CANDIDATE \<and> evolves rf rf'
    \<and> el_args el = \<lparr>rv_Term = currentTerm rf', CandidateId = int i, LastLogIndex = int (length (rf_log rf)) - 1,
                    LastLogTerm = ent_Term (last (rf_log rf))\<rparr>
    \<and> el_votes el = 1 \<and> el_done el = False"
  using assms log_wf_last [of "currentTerm rf" "rf_log rf"]
  by (auto simp: AttemptEletion_def evolves_def conevrtToCandidate_def node_ok_def Let_def intro: log_wf_mono)

lemma handle_vote_ok:
  assumes "node_ok n i rf" "i < n" "handle_vote reply rf el = (rf', el', b)"
  shows "node_ok n i rf' \<and> evolves rf rf' \<and> el_args el' = el_args el"
  using assms by (auto simp: handle_vote_def Let_def intro!: node_ok_conevrtToFollower node_ok_conevrtToLeader split: if_splits)
    (auto simp: conevrtToFollower_def evolves_def conevrtToLeader_def node_ok_def)

lemma RequestVote_ok:
  assumes "node_ok n i rf" "0 \<le> CandidateId args" "CandidateId args < int n"
  shows "\<exists>rf' reply. RequestVote args rf = Some (rf', reply) \<and> node_ok n i rf' \<and> evolves rf rf'"
  using assms log_wf_last [of "currentTerm rf" "rf_log rf"]
  by (auto simp: RequestVote_def evolves_def node_ok_def Let_def intro: log_wf_mono)

lemma Start_ok:
  assumes "node_ok n i rf"
  shows "\<exists>rf' index term isLeader. Start c rf = Some (rf', index, term, isLeader) \<and> node_ok n i rf'
    \<and> evolves rf rf'"
  using assms log_wf_last [of "currentTerm rf" "rf_log rf"]
  by (fastforce simp: Start_def evolves_def node_ok_def Let_def tti_ok_def intro: log_wf_snoc)

lemma hb_args_Some:
  assumes "hb_args j rf = Some a" "node_ok n i rf"
  shows "args_ok a \<and> ae_Term a = currentTerm rf"
proof -
  from assms(1) obtain ni e es where d: "slice_get (nextIndex rf) j = Some ni" "slice_get (rf_log rf) (ni - 1) = Some e"
      "slice_from (rf_log rf) ni = Some es"
    and a: "a = \<lparr>ae_Term = currentTerm rf, LeaderId = me rf, PrevLogIndex = ni - 1, PrevLogTerm = ent_Term e,
                 Entries = es, LeaderCommit = commitIndex rf, TermToIndex = termToIndex rf\<rparr>"
    by (auto simp: hb_args_def split: bind_splits)
  from d(1) assms(2) have "1 \<le> ni" by (auto simp: node_ok_def dest: slice_get_Some_mem)
  then have "ni = int (Suc (nat (ni - 1)))" by simp
  then obtain k where k: "ni = int (Suc k)" by blast
  from d(2,3) k have e: "k < length (rf_log rf)" "e = rf_log rf ! k" "es = drop (Suc k) (rf_log rf)"
    by (auto simp: slice_get_def slice_from_def nat_add_distrib split: if_splits)
  then have "ent_Term e # map ent_Term es = drop k (map ent_Term (rf_log rf))"
    by (metis Cons_nth_drop_Suc drop_map list.simps(9))
  then have "sorted (ent_Term e # map ent_Term es)" using assms(2) by (simp add: node_ok_def log_wf_def sorted_wrt_drop)
  moreover have "\<forall>x\<in>set es. ent_Term x \<le> currentTerm rf"
    using assms(2) e(3) by (auto simp: node_ok_def log_wf_def dest: in_set_dropD)
  moreover have "nat (ni - 1) + 1 + length es = length (rf_log rf)" using e k by simp
  ultimately show ?thesis using assms(2) a k by (simp add: args_ok_def node_ok_def)
qed

lemma hb_args_leader:
  assumes "node_ok n i rf" "rf_state rf = LEADER" "j < n"
  shows "\<exists>a. hb_args (int j) rf = Some a"
proof -
  have "nextIndex rf ! j \<in> set (nextIndex rf)" using assms by (simp add: node_ok_def)
  then have "1 \<le> nextIndex rf ! j \<and> nextIndex rf ! j \<le> int (length (rf_log rf))" using assms by (auto simp: node_ok_def)
  moreover have "j < length (nextIndex rf)" using assms by (simp add: node_ok_def)
  ultimately show ?thesis by (simp add: hb_args_def) (simp add: slice_get_def slice_from_def)
qed

lemma AppendEntries_ok:
  assumes "node_ok n i rf" "args_ok args"
  shows "\<exists>rf' reply. AppendEntries args rf = Some (rf', reply) \<and> node_ok n i rf' \<and> evolves rf rf'"
proof -
  have acc: "log_wf (ae_Term args) (take (Suc k) (rf_log rf) @ Entries args)
      \<and> tti_ok (length (take (Suc k) (rf_log rf) @ Entries args)) (TermToIndex args)"
    if "PrevLogIndex args = int k" "k < length (rf_log rf)" "ent_Term (rf_log rf ! k) = PrevLogTerm args"
      "currentTerm rf \<le> ae_Term args" for k
  proof
    have "log_wf (currentTerm rf) (rf_log rf)" using assms(1) by (simp add: node_ok_def)
    from log_wf_splice [OF this that(4,2,3)] assms(2)
    show "log_wf (ae_Term args) (take (Suc k) (rf_log rf) @ Entries args)" by (simp add: args_ok_def)
    have "length (take (Suc k) (rf_log rf) @ Entries args) = Suc k + length (Entries args)" using that(2) by simp
    then show "tti_ok (length (take (Suc k) (rf_log rf) @ Entries args)) (TermToIndex args)"
      using assms(2) that(1) by (simp add: args_ok_def)
  qed
  obtain k where k: "PrevLogIndex args = int k" using assms(2) by (metis args_ok_def nonneg_int_cases)
  show ?thesis
  proof (cases "rf_state rf = FOLLOWER \<and> currentTerm rf \<le> ae_Term args")
    case True
    have "node_ok n i (rf \<lparr>currentTerm := ae_Term args\<rparr>)" using assms(1) True by (auto simp: node_ok_def intro: log_wf_mono)
    then show ?thesis using True k acc [OF k] assms(1)
      by (auto simp: AppendEntries_def evolves_def Let_def slice_to_def nat_add_distrib) (auto simp: node_ok_def)
  next
    case False
    then show ?thesis using assms(1) node_ok_conevrtToFollower [OF assms(1), of "ae_Term args"]
      by (auto simp: AppendEntries_def Let_def conevrtToFollower_def evolves_def)
  qed
qed

lemma node_ok_progress:
  assumes "node_ok n i rf" "1 \<le> x" "x \<le> int (length (rf_log rf))" "length mi = length (nextIndex rf)"
  shows "node_ok n i (rf \<lparr>nextIndex := (nextIndex rf)[j := x], matchIndex := mi\<rparr>)"
  using assms set_update_subset_insert [of "nextIndex rf" j x] by (auto simp: node_ok_def)

lemma node_ok_commit: "node_ok n i rf \<Longrightarrow> 0 \<le> c \<Longrightarrow> node_ok n i (rf \<lparr>commitIndex := c\<rparr>)"
  by (simp add: node_ok_def)

lemma hb_reply_ok:
  assumes "node_ok n i rf" "nextIndex rf \<noteq> []" "j < n"
  shows "\<exists>rf' r'. hb_reply (int j) args reply rf r = Some (rf', r') \<and> node_ok n i rf' \<and> evolves rf rf'"
proof (cases "Success reply")
  case True
  have len: "j < length (nextIndex rf)" "length (matchIndex rf) = length (nextIndex rf)" "1 \<le> int (length (rf_log rf))"
    using assms by (auto simp: node_ok_def log_wf_def Suc_le_eq)
  have "node_ok n i (rf \<lparr>nextIndex := (nextIndex rf)[j := int (length (rf_log rf))],
      matchIndex := (matchIndex rf)[j := int (length (rf_log rf)) - 1]\<rparr>)" (is "node_ok n i ?rf")
    by (rule node_ok_progress [OF assms(1) len(3)]) (simp_all add: len)
  then show ?thesis using True len assms(2) node_ok_commit [of n i ?rf "int (length (rf_log rf)) - 1"]
    by (cases "rf_log rf = []") (auto simp: hb_reply_def evolves_def Let_def)
next
  case False
  have len: "j < length (nextIndex rf)" "length (matchIndex rf) = length (nextIndex rf)" "0 < length (rf_log rf)"
    and tti: "tti_ok (length (rf_log rf)) (termToIndex rf)" using assms by (auto simp: node_ok_def log_wf_def)
  have "node_ok n i (rf \<lparr>nextIndex := (nextIndex rf)[j := backup (termToIndex rf) t], matchIndex := matchIndex rf\<rparr>)" for t
    using backup_bounds [OF tti len(3), of t] len(2) by (intro node_ok_progress [OF assms(1)]) auto
  then show ?thesis using False len assms(1,2) node_ok_conevrtToFollower [OF assms(1), of "aer_Term reply"]
    by (auto simp: hb_reply_def conevrtToFollower_def evolves_def)
qed

lemma apply_turn_ok:
  assumes "node_ok n i rf" "apply_turn rf = Some (rf', ms)"
  shows "node_ok n i rf' \<and> currentTerm rf' = currentTerm rf \<and> int (length ms) = lastApplied rf' - lastApplied rf
    \<and> map CommandIndex ms = (if ms = [] then [] else [lastApplied rf'])"
  using assms by (auto simp: apply_turn_def node_ok_def evolves_def Let_def split: if_splits bind_splits)

section \<open>Repairing a follower's log\<close>

text \<open>
  One exchange between a peer \<open>rl\<close> and a peer \<open>rf\<close>, when nothing else happens to the two: the
  heartbeat, its handling, and the handling of the answer. \<open>exchanges k\<close> is \<open>k\<close> rounds of it.
\<close>

definition exchange :: "int \<Rightarrow> 'c Raft \<Rightarrow> 'c Raft \<Rightarrow> ('c Raft \<times> 'c Raft) option" where
  "exchange j rl rf = do {
     a \<leftarrow> hb_args j rl;
     (rf, reply) \<leftarrow> AppendEntries a rf;
     (rl, r) \<leftarrow> hb_reply j a reply rl new_round;
     Some (rl, rf) }"

fun exchanges :: "nat \<Rightarrow> int \<Rightarrow> 'c Raft \<Rightarrow> 'c Raft \<Rightarrow> ('c Raft \<times> 'c Raft) option" where
  "exchanges 0 j rl rf = Some (rl, rf)"
| "exchanges (Suc k) j rl rf = do { (rl, rf) \<leftarrow> exchange j rl rf; exchanges k j rl rf }"

text \<open>
  Two logs match when entries of equal position and term have equal histories. \<open>tti_first m l\<close>:
  what a \<open>termToIndex\<close> map says about a term is not after the first entry of the term.
\<close>

definition logs_match :: "'c LogEntry list \<Rightarrow> 'c LogEntry list \<Rightarrow> bool" where
  "logs_match l l' \<longleftrightarrow> (\<forall>k. k < length l \<longrightarrow> k < length l' \<longrightarrow> ent_Term (l ! k) = ent_Term (l' ! k) \<longrightarrow> take (Suc k) l = take (Suc k) l')"

definition tti_first :: "(int \<rightharpoonup> int) \<Rightarrow> 'c LogEntry list \<Rightarrow> bool" where
  "tti_first m l \<longleftrightarrow> (\<forall>t>0. \<forall>k<nat (map_get0 0 m t). k < length l \<longrightarrow> ent_Term (l ! k) < t)"

lemma tti_first_Start:
  assumes "node_ok n i rf" "tti_first (termToIndex rf) (rf_log rf)" "Start c rf = Some (rf', index, term, b)"
  shows "tti_first (termToIndex rf') (rf_log rf')"
proof (cases "rf_state rf = LEADER")
  case True
  let ?l = "rf_log rf"
  have wf: "log_wf (currentTerm rf) ?l" and tti: "tti_ok (length ?l) (termToIndex rf)" using assms(1) by (simp_all add: node_ok_def)
  from log_wf_last [OF wf] have last: "slice_get ?l (int (length ?l) - 1) = Some (last ?l)" by simp
  have old: "nat (map_get0 0 (termToIndex rf) t) \<le> length ?l" for t
    using tti by (force simp: tti_ok_def map_get0_def split: option.split)
  have new: "ent_Term (?l ! k) < currentTerm rf" if "currentTerm rf \<noteq> ent_Term (last ?l)" "k < length ?l" for k
  proof -
    have "ent_Term (?l ! k) \<le> ent_Term (last ?l)" using wf that(2)
      by (auto simp: log_wf_def sorted_iff_nth_mono last_conv_nth)
    then show ?thesis using log_wf_last [OF wf] that(1) by linarith
  qed
  have keep: "tti_first (termToIndex rf) (?l @ [e])" for e
    using assms(2) by (auto simp: tti_first_def nth_append dest: less_le_trans [OF _ old])
  then have "tti_first ((termToIndex rf)(currentTerm rf \<mapsto> int (length ?l))) (?l @ [e])"
    if "currentTerm rf \<noteq> ent_Term (last ?l)" for e
    using new [OF that] by (auto simp: tti_first_def nth_append)
  with keep show ?thesis using True assms(3) last by (auto simp: Start_def Let_def split: if_splits)
qed (use assms in \<open>auto simp: Start_def Let_def\<close>)

lemma backup_first:
  assumes "tti_first m l" "p > 0" "k = nat (backup m (p - 1) - 1)" "k < length l" "ent_Term (l ! 0) = 0"
  shows "ent_Term (l ! k) < p"
  using assms(2,3)
proof (induction "nat p" arbitrary: p)
  case (Suc q)
  consider "p = 1" | "p > 1" "map_get0 0 m (p - 1) \<noteq> 0" | "p > 1" "map_get0 0 m (p - 1) = 0" using Suc(3) by linarith
  then show ?case
  proof cases
    case 1
    then show ?thesis using Suc(4) assms(5) by (simp add: backup.simps)
  next
    case 2
    then have k: "k = nat (map_get0 0 m (p - 1) - 1)" using Suc(4) by (simp add: backup.simps [of m "p - 1"])
    show ?thesis
    proof (cases "map_get0 0 m (p - 1) > 0")
      case True
      then have "k < nat (map_get0 0 m (p - 1))" using k by linarith
      then show ?thesis using assms(1,4) 2(1) by (force simp: tti_first_def)
    qed (use k assms(5) 2 in simp)
  next
    case 3
    then have "ent_Term (l ! k) < p - 1" using Suc by (intro Suc(1)) (auto simp: backup.simps [of m "p - 1"])
    then show ?thesis by simp
  qed
qed simp

lemma AppendEntries_follower:
  assumes "node_ok n i rf" "rf_state rf = FOLLOWER" "currentTerm rf \<le> ae_Term a" "PrevLogIndex a = int k"
  shows "\<exists>rf'. AppendEntries a rf =
      Some (rf', \<lparr>aer_Term = ae_Term a, Success = (k < length (rf_log rf) \<and> ent_Term (rf_log rf ! k) = PrevLogTerm a)\<rparr>)
    \<and> rf_log rf' = (if k < length (rf_log rf) \<and> ent_Term (rf_log rf ! k) = PrevLogTerm a
                    then take (Suc k) (rf_log rf) @ Entries a else rf_log rf)
    \<and> rf_state rf' = FOLLOWER \<and> currentTerm rf' = ae_Term a"
  using assms by (auto simp: AppendEntries_def Let_def slice_to_def nat_add_distrib)

text \<open>
  The situation of a repair: a leader and a follower that is not ahead of it. \<open>repair_measure\<close>
  decreases with every exchange that fails.
\<close>

definition repairing :: "nat \<Rightarrow> nat \<Rightarrow> 'c Raft \<Rightarrow> 'c Raft \<Rightarrow> bool" where
  "repairing n j rl rf \<longleftrightarrow> (\<exists>a b. node_ok n a rl \<and> node_ok n b rf) \<and> j < n \<and> rf_state rl = LEADER \<and> rf_state rf = FOLLOWER
     \<and> currentTerm rf \<le> currentTerm rl \<and> logs_match (rf_log rf) (rf_log rl) \<and> tti_first (termToIndex rl) (rf_log rl)"

definition prev_of :: "nat \<Rightarrow> 'c Raft \<Rightarrow> nat" where
  "prev_of j rl = nat (nextIndex rl ! j - 1)"

definition repair_measure :: "nat \<Rightarrow> 'c Raft \<Rightarrow> nat" where
  "repair_measure j rl = nat (ent_Term (rf_log rl ! prev_of j rl)) + (if prev_of j rl = 0 then 0 else 1)"

lemma hb_args_leader_value:
  assumes "node_ok n i rl" "rf_state rl = LEADER" "j < n"
  shows "prev_of j rl < length (rf_log rl)" "nextIndex rl ! j = int (Suc (prev_of j rl))"
    "hb_args (int j) rl = Some \<lparr>ae_Term = currentTerm rl, LeaderId = me rl, PrevLogIndex = int (prev_of j rl),
       PrevLogTerm = ent_Term (rf_log rl ! prev_of j rl), Entries = drop (Suc (prev_of j rl)) (rf_log rl),
       LeaderCommit = commitIndex rl, TermToIndex = termToIndex rl\<rparr>"
proof -
  have mem: "j < length (nextIndex rl)" "nextIndex rl ! j \<in> set (nextIndex rl)" using assms by (simp_all add: node_ok_def)
  then have b: "1 \<le> nextIndex rl ! j" "nextIndex rl ! j \<le> int (length (rf_log rl))" using assms by (auto simp: node_ok_def)
  show s: "nextIndex rl ! j = int (Suc (prev_of j rl))" using b by (simp add: prev_of_def)
  then show "prev_of j rl < length (rf_log rl)" using b by simp
  then show "hb_args (int j) rl = Some \<lparr>ae_Term = currentTerm rl, LeaderId = me rl, PrevLogIndex = int (prev_of j rl),
       PrevLogTerm = ent_Term (rf_log rl ! prev_of j rl), Entries = drop (Suc (prev_of j rl)) (rf_log rl),
       LeaderCommit = commitIndex rl, TermToIndex = termToIndex rl\<rparr>"
    using mem(1) s by (simp add: hb_args_def slice_from_def nat_add_distrib)
qed

lemma exchange_step:
  assumes "repairing n j rl rf"
  shows "\<exists>rl' rf'. exchange (int j) rl rf = Some (rl', rf') \<and> rf_log rl' = rf_log rl
     \<and> (rf_log rf' = rf_log rl \<and> nextIndex rl' ! j = int (length (rf_log rl))
        \<or> repairing n j rl' rf' \<and> repair_measure j rl' < repair_measure j rl)"
proof -
  from assms obtain a b where ok: "node_ok n a rl" "node_ok n b rf" and r: "j < n" "rf_state rl = LEADER" "rf_state rf = FOLLOWER"
      "currentTerm rf \<le> currentTerm rl" "logs_match (rf_log rf) (rf_log rl)" "tti_first (termToIndex rl) (rf_log rl)"
    by (auto simp: repairing_def)
  note hb = hb_args_leader_value [OF ok(1) r(2,1)]
  define k where "k = prev_of j rl"
  define p where "p = ent_Term (rf_log rl ! k)"
  define m where "m \<longleftrightarrow> k < length (rf_log rf) \<and> ent_Term (rf_log rf ! k) = p"
  obtain args where args: "hb_args (int j) rl = Some args" "ae_Term args = currentTerm rl" "PrevLogIndex args = int k"
      "PrevLogTerm args = p" "Entries args = drop (Suc k) (rf_log rl)" using hb(3) by (simp add: k_def p_def)
  from AppendEntries_follower [OF ok(2) r(3), of args k] args r(4) obtain rf' where
    ae: "AppendEntries args rf = Some (rf', \<lparr>aer_Term = currentTerm rl, Success = m\<rparr>)"
      "rf_log rf' = (if m then take (Suc k) (rf_log rf) @ drop (Suc k) (rf_log rl) else rf_log rf)"
      "rf_state rf' = FOLLOWER" "currentTerm rf' = currentTerm rl"
    by (auto simp: m_def)
  have ok': "node_ok n b rf'" using AppendEntries_ok [OF ok(2), of args] hb_args_Some [OF args(1) ok(1)] ae(1) by auto
  have len: "j < length (nextIndex rl)" "length (matchIndex rl) = length (nextIndex rl)" "nextIndex rl \<noteq> []" "0 < length (rf_log rl)"
    and tti: "tti_ok (length (rf_log rl)) (termToIndex rl)" and hd: "ent_Term (rf_log rl ! 0) = 0" "ent_Term (rf_log rf ! 0) = 0"
      "0 < length (rf_log rf)"
    using ok r by (auto simp: node_ok_def log_wf_def hd_conv_nth)
  show ?thesis
  proof (cases m)
    case True
    then have "rf_log rf' = rf_log rl" using r(5) hb(1) ae(2) by (auto simp: m_def p_def k_def logs_match_def)
    then show ?thesis using True args ae len by (auto simp: exchange_def hb_reply_def new_round_def Let_def)
  next
    case False
    define rl' where "rl' = rl \<lparr>nextIndex := (nextIndex rl)[j := backup (termToIndex rl) (p - 1)]\<rparr>"
    have rep: "hb_reply (int j) args \<lparr>aer_Term = currentTerm rl, Success = m\<rparr> rl new_round = Some (rl', new_round)"
      using False args len by (simp add: hb_reply_def rl'_def)
    have "node_ok n a rl'" using hb_reply_ok [OF ok(1) len(3) r(1), of args _ new_round] rep by (metis option.inject prod.inject)
    then have "repairing n j rl' rf'" using False ok' r ae by (auto simp: repairing_def rl'_def)
    moreover have "repair_measure j rl' < repair_measure j rl"
    proof (cases "p > 0")
      case True
      have k': "prev_of j rl' = nat (backup (termToIndex rl) (p - 1) - 1)" using len(1) by (simp add: prev_of_def rl'_def)
      then have "prev_of j rl' < length (rf_log rl)" using backup_bounds [OF tti len(4), of "p - 1"] by linarith
      from backup_first [OF r(6) True k' this hd(1)] have "ent_Term (rf_log rl ! prev_of j rl') < p" .
      moreover have "prev_of j rl \<noteq> 0" using True hd(1) unfolding p_def k_def by (metis less_irrefl)
      ultimately show ?thesis using True by (auto simp: repair_measure_def rl'_def p_def k_def)
    next
      case neg: False
      then have "prev_of j rl' = 0" using len(1) by (simp add: prev_of_def rl'_def backup.simps)
      moreover have "prev_of j rl \<noteq> 0" using False hd unfolding m_def p_def k_def by metis
      ultimately show ?thesis using hd(1) by (simp add: repair_measure_def rl'_def)
    qed
    ultimately show ?thesis using args(1) ae(1) rep by (auto simp: exchange_def rl'_def)
  qed
qed

lemma exchanges_repair:
  "repairing n j rl rf \<Longrightarrow> \<exists>k\<le>repair_measure j rl + 1. \<exists>rl' rf'. exchanges k (int j) rl rf = Some (rl', rf')
     \<and> rf_log rf' = rf_log rl \<and> rf_log rl' = rf_log rl \<and> nextIndex rl' ! j = int (length (rf_log rl))"
proof (induction "repair_measure j rl" arbitrary: rl rf rule: less_induct)
  case less
  from exchange_step [OF less(2)] obtain rl1 rf1 where s: "exchange (int j) rl rf = Some (rl1, rf1)" "rf_log rl1 = rf_log rl"
    and c: "rf_log rf1 = rf_log rl \<and> nextIndex rl1 ! j = int (length (rf_log rl))
        \<or> repairing n j rl1 rf1 \<and> repair_measure j rl1 < repair_measure j rl" by blast
  from c show ?case
  proof
    assume "rf_log rf1 = rf_log rl \<and> nextIndex rl1 ! j = int (length (rf_log rl))"
    then show ?thesis using s by (intro exI [of _ 1]) auto
  next
    assume d: "repairing n j rl1 rf1 \<and> repair_measure j rl1 < repair_measure j rl"
    with less(1) obtain k rl' rf' where "k \<le> repair_measure j rl1 + 1" "exchanges k (int j) rl1 rf1 = Some (rl', rf')"
       "rf_log rf' = rf_log rl1" "rf_log rl' = rf_log rl1" "nextIndex rl' ! j = int (length (rf_log rl1))" by blast
    then show ?thesis using s d by (intro exI [of _ "Suc k"]) auto
  qed
qed

section \<open>What a peer guarantees\<close>

definition entry_at :: "int \<Rightarrow> nat \<Rightarrow> nat LogEntry" where
  "entry_at t c = \<lparr>ent_Term = t, ent_Command = Some c\<rparr>"

definition sample_leader :: "nat Raft" where
  "sample_leader = (Make 3 0 MakePersister) \<lparr>currentTerm := 3, votedFor := 0, rf_state := LEADER,
     rf_log := [\<lparr>ent_Term = 0, ent_Command = None\<rparr>, entry_at 1 7, entry_at 2 8, entry_at 2 9],
     nextIndex := [4, 4, 4], matchIndex := [0, 0, 0], termToIndex := [0 \<mapsto> 0, 1 \<mapsto> 1, 2 \<mapsto> 2]\<rparr>"

definition sample_follower :: "nat Raft" where
  "sample_follower = (Make 3 1 MakePersister) \<lparr>currentTerm := 1,
     rf_log := [\<lparr>ent_Term = 0, ent_Command = None\<rparr>, entry_at 1 7, entry_at 1 5]\<rparr>"

lemmas sample_peer_simps = sample_leader_def sample_follower_def entry_at_def Make_def readPersist_def

lemma sample_peers_ok: "node_ok 3 0 sample_leader" "node_ok 3 1 sample_follower"
  by (auto simp: sample_peer_simps node_ok_def log_wf_def tti_ok_def)

lemma sample_repairing: "repairing 3 1 sample_leader sample_follower"
proof -
  have "logs_match (rf_log sample_follower) (rf_log sample_leader)"
    by (auto simp: sample_peer_simps logs_match_def less_Suc_eq numeral_3_eq_3)
  moreover have "tti_first (termToIndex sample_leader) (rf_log sample_leader)"
    by (auto simp: sample_peer_simps tti_first_def map_get0_def less_Suc_eq numeral_2_eq_2)
  ultimately show ?thesis using sample_peers_ok by (auto simp: repairing_def sample_peer_simps)
qed

text \<open>
  C10. Log repair converges. A leader and a follower that is not in a later term, whose logs satisfy
  the log matching property, need only finitely many heartbeats, at most the term of the entry
  before \<open>nextIndex\<close> plus two, until the follower's log equals the leader's and the leader knows it.
  It needs that \<open>termToIndex\<close> does not point behind the first entry of a term, which \<open>Start\<close> keeps.
\<close>

theorem repair_converges:
  assumes "node_ok n a rl" and "node_ok n b rf" and "j < n" and "rf_state rl = LEADER" and "rf_state rf = FOLLOWER"
    and "currentTerm rf \<le> currentTerm rl" and "logs_match (rf_log rf) (rf_log rl)" and "tti_first (termToIndex rl) (rf_log rl)"
  shows "\<exists>k\<le>nat (ent_Term (rf_log rl ! nat (nextIndex rl ! j - 1))) + 2. \<exists>rl' rf'. exchanges k (int j) rl rf = Some (rl', rf')
     \<and> rf_log rf' = rf_log rl \<and> rf_log rl' = rf_log rl \<and> nextIndex rl' ! j = int (length (rf_log rl))"
proof -
  have "repairing n j rl rf" using assms by (auto simp: repairing_def)
  from exchanges_repair [OF this] obtain k where "k \<le> repair_measure j rl + 1" "\<exists>rl' rf'. exchanges k (int j) rl rf = Some (rl', rf')
     \<and> rf_log rf' = rf_log rl \<and> rf_log rl' = rf_log rl \<and> nextIndex rl' ! j = int (length (rf_log rl))" by blast
  then show ?thesis by (intro exI [of _ k]) (auto simp: repair_measure_def prev_of_def split: if_splits)
qed

theorem repair_converges_witness:
  "\<exists>k rl' rf'. exchanges k 1 sample_leader sample_follower = Some (rl', rf') \<and> rf_log rf' = rf_log sample_leader"
proof -
  have "logs_match (rf_log sample_follower) (rf_log sample_leader)" "tti_first (termToIndex sample_leader) (rf_log sample_leader)"
    using sample_repairing by (auto simp: repairing_def)
  from repair_converges [OF sample_peers_ok, of 1, OF _ _ _ _ this] show ?thesis
    by (auto simp: sample_peer_simps)
qed

text \<open>
  What \<open>RequestVote\<close> does on every branch: the vote is granted exactly if the request is not of
  an earlier term, no other candidate has this peer's vote in the term, and the candidate's log is
  at least as up to date; the term only grows, the vote is recorded, and log and role are kept.
\<close>

theorem RequestVote_spec:
  assumes "node_ok n i rf"
  shows "\<exists>rf' reply. RequestVote args rf = Some (rf', reply)
    \<and> (VoteGranted reply \<longleftrightarrow> currentTerm rf \<le> rv_Term args
         \<and> (currentTerm rf < rv_Term args \<or> votedFor rf \<in> {-1, CandidateId args})
         \<and> (ent_Term (last (rf_log rf)) < LastLogTerm args
            \<or> ent_Term (last (rf_log rf)) = LastLogTerm args \<and> int (length (rf_log rf)) - 1 \<le> LastLogIndex args))
    \<and> currentTerm rf' = max (currentTerm rf) (rv_Term args)
    \<and> votedFor rf' = (if VoteGranted reply then CandidateId args
                      else if currentTerm rf < rv_Term args then -1 else votedFor rf)
    \<and> rf_log rf' = rf_log rf \<and> rf_state rf' = rf_state rf \<and> commitIndex rf' = commitIndex rf"
proof -
  have "slice_get (rf_log rf) (int (length (rf_log rf)) - 1) = Some (last (rf_log rf))"
    using assms log_wf_last by (auto simp: node_ok_def)
  then show ?thesis by (auto simp: RequestVote_def Let_def)
qed

theorem RequestVote_spec_witness:
  "\<exists>rf' reply. RequestVote \<lparr>rv_Term = 3, CandidateId = 0, LastLogIndex = 3, LastLogTerm = 2\<rparr> sample_follower = Some (rf', reply)
    \<and> VoteGranted reply \<and> votedFor rf' = 0 \<and> currentTerm rf' = 3"
  using RequestVote_spec [OF sample_peers_ok(2), of "\<lparr>rv_Term = 3, CandidateId = 0, LastLogIndex = 3, LastLogTerm = 2\<rparr>"]
  by (auto simp: sample_peer_simps)

text \<open>
  A peer that is not a follower acknowledges a heartbeat of its term or a later one without
  looking at the entries: it steps down, keeps its log, and answers \<open>Success\<close>. In a group of three
  the leader then commits its whole log although neither of the other peers holds its entries.
\<close>

theorem commit_without_replication:
  assumes "node_ok 3 a rl" and "rf_state rl = LEADER" and "rf_state rf \<noteq> FOLLOWER"
    and "currentTerm rf \<le> currentTerm rl" and "j < 3"
  shows "\<exists>rl' rf'. exchange (int j) rl rf = Some (rl', rf') \<and> rf_log rf' = rf_log rf
    \<and> commitIndex rl' = int (length (rf_log rl)) - 1 \<and> matchIndex rl' ! j = int (length (rf_log rl)) - 1"
proof -
  from hb_args_leader_value(3) [OF assms(1,2,5)] obtain args where "hb_args (int j) rl = Some args" "ae_Term args = currentTerm rl"
    by simp
  moreover have "length (nextIndex rl) = 3" "length (matchIndex rl) = 3" "peers rl = 3" using assms by (auto simp: node_ok_def)
  ultimately show ?thesis using assms
    by (auto simp: exchange_def AppendEntries_def conevrtToFollower_def hb_reply_def new_round_def Let_def)
qed

theorem commit_without_replication_witness:
  "\<exists>rl' rf'. exchange 1 sample_leader (conevrtToCandidate sample_follower) = Some (rl', rf')
    \<and> rf_log rf' = rf_log sample_follower \<and> commitIndex rl' = 3"
  using commit_without_replication [OF sample_peers_ok(1), of "conevrtToCandidate sample_follower" 1]
  by (auto simp: sample_peer_simps conevrtToCandidate_def)

text \<open>The saves of a service: the raft state alone, or state and snapshot together.\<close>

datatype psave = SaveState bytes | SaveBoth bytes bytes

fun psave_run :: "psave \<Rightarrow> Persister \<Rightarrow> Persister" where
  "psave_run (SaveState st) = SaveRaftState st"
| "psave_run (SaveBoth st snap) = SaveStateAndSnapshot st snap"

fun saved_state :: "psave \<Rightarrow> bytes" where
  "saved_state (SaveState st) = st"
| "saved_state (SaveBoth st snap) = st"

fun saved_snapshots :: "psave \<Rightarrow> bytes list" where
  "saved_snapshots (SaveState st) = []"
| "saved_snapshots (SaveBoth st snap) = [snap]"

text \<open>
  After any sequence of saves to a new persister, a read returns the raft state of the last
  save and the snapshot of the last save that had one (an empty slice if there was none), the
  sizes are the sizes of what is read, and all this holds of a copy as well.
\<close>

theorem Persister_roundtrip:
  "let ps = fold psave_run ops MakePersister; snaps = concat (map saved_snapshots ops) in
     ReadRaftState ps = (if ops = [] then Some [] else clone (saved_state (last ops)))
   \<and> ReadSnapshot ps = (if snaps = [] then Some [] else clone (last snaps))
   \<and> RaftStateSize ps = bytes_len (ReadRaftState ps) \<and> SnapshotSize ps = bytes_len (ReadSnapshot ps)
   \<and> ReadRaftState (Persister_Copy ps) = ReadRaftState ps \<and> ReadSnapshot (Persister_Copy ps) = ReadSnapshot ps"
proof (induction ops rule: rev_induct)
  case (snoc x xs)
  then show ?case by (cases x) (auto simp: persister_defs Let_def split: option.splits if_splits)
qed (simp add: persister_defs Let_def)

end
