(* ===== verification/Raft_Cluster.thy ===== *)
theory Raft_Cluster
  imports Raft_Node
begin

text \<open>
  A group of \<open>n\<close> Raft peers: the goroutines of \<open>raft/raft.go\<close> and the messages between peers as a
  step relation. A step is one critical section of one goroutine, so that every interleaving, loss
  and reordering of messages is a run. The state holds the peers, the local variables of the
  elections and heartbeat rounds in progress, and the multiset of goroutines and messages.

  Four fields record the history of the run and are not read by any step: which votes were granted
  (\<open>grants\<close>, voter, candidate, term), which peers counted them (\<open>counted\<close>), who became leader in
  which term (\<open>elected\<close>), and which peers had their vote reset in a term they had already reached
  (\<open>resets\<close>).
\<close>

section \<open>The step relation\<close>

text \<open>
  \<open>Tick i\<close> and \<open>Applier i\<close>: the goroutines \<open>Make\<close> starts. \<open>Elect i\<close>: an \<open>AttemptEletion\<close> that the
  timer started. \<open>Beat i\<close>: a \<open>HeartBeat\<close> loop. \<open>VReq e j\<close> and \<open>VRep e j r\<close>: the vote request of
  election \<open>e\<close> to peer \<open>j\<close> and its answer. \<open>HGo r j\<close>: a goroutine of heartbeat round \<open>r\<close> that has not
  built its message yet; \<open>HReq\<close> and \<open>HRep\<close> the message and the answer.
\<close>

datatype 'c proc = Tick nat | Applier nat | Elect nat | Beat nat
  | VReq nat nat | VRep nat nat RequestVoteReply
  | HGo nat nat | HReq nat nat "'c AppendEntriesArgs" | HRep nat nat "'c AppendEntriesArgs" AppendEntriesReply

record 'c cluster =
  nodes :: "nat \<Rightarrow> 'c Raft"
  elections :: "(nat \<times> election) list"
  rounds :: "(nat \<times> hb_round) list"
  procs :: "'c proc multiset"
  applied :: "nat \<Rightarrow> 'c ApplyMsg list"
  grants :: "(nat \<times> nat \<times> int) set"
  counted :: "nat \<Rightarrow> nat set"
  elected :: "(nat \<times> int) set"
  resets :: "(nat \<times> int) set"

definition others :: "nat \<Rightarrow> nat \<Rightarrow> nat list" where
  "others n i = filter (\<lambda>j. j \<noteq> i) [0..<n]"

fun is_message :: "'c proc \<Rightarrow> bool" where
  "is_message (VReq e j) = True"
| "is_message (VRep e j r) = True"
| "is_message (HReq r j a) = True"
| "is_message (HRep r j a p) = True"
| "is_message _ = False"

definition cl_start :: "nat \<Rightarrow> (nat \<Rightarrow> Persister) \<Rightarrow> 'c cluster" where
  "cl_start n ps = \<lparr>nodes = (\<lambda>i. Make n (int i) (ps i)), elections = [], rounds = [],
     procs = mset (map Tick [0..<n]) + mset (map Applier [0..<n]), applied = (\<lambda>_. []),
     grants = {}, counted = (\<lambda>_. {}), elected = {}, resets = {}\<rparr>"

inductive cl_step :: "nat \<Rightarrow> 'c cluster \<Rightarrow> 'c cluster \<Rightarrow> bool" for n where
  tick: "Tick i \<in># procs c \<Longrightarrow>
    cl_step n c (c \<lparr>nodes := (nodes c)(i := ticker (nodes c i)), procs := procs c - {#Tick i#}\<rparr>)"
| fire: "i < n \<Longrightarrow> electionTimeout (nodes c i) = Some True \<Longrightarrow>
    cl_step n c (c \<lparr>nodes := (nodes c)(i := (nodes c i) \<lparr>electionTimeout := Some False\<rparr>),
      procs := procs c + (if timer_func (nodes c i) then {#Elect i#} else {#})\<rparr>)"
| elect: "Elect i \<in># procs c \<Longrightarrow> AttemptEletion (nodes c i) = Some (rf, el) \<Longrightarrow>
    cl_step n c (c \<lparr>nodes := (nodes c)(i := ticker rf), elections := elections c @ [(i, el)],
      procs := procs c - {#Elect i#} + mset (map (VReq (length (elections c))) (others n i)),
      grants := insert (i, i, currentTerm rf) (grants c)\<rparr>)"
| vote: "VReq e j \<in># procs c \<Longrightarrow> e < length (elections c) \<Longrightarrow> elections c ! e = (i, el) \<Longrightarrow>
    RequestVote (el_args el) (nodes c j) = Some (rf, reply) \<Longrightarrow>
    cl_step n c (c \<lparr>nodes := (nodes c)(j := rf), procs := procs c - {#VReq e j#} + {#VRep e j reply#},
      grants := (if VoteGranted reply then insert (j, i, rv_Term (el_args el)) (grants c) else grants c)\<rparr>)"
| voted: "VRep e j reply \<in># procs c \<Longrightarrow> e < length (elections c) \<Longrightarrow> elections c ! e = (i, el) \<Longrightarrow>
    handle_vote reply (nodes c i) el = (rf, el', b) \<Longrightarrow>
    cl_step n c (c \<lparr>nodes := (nodes c)(i := rf), elections := (elections c)[e := (i, el')],
      procs := procs c - {#VRep e j reply#} + (if b then {#Beat i#} else {#}),
      counted := (if el_votes el' = el_votes el then counted c else (counted c)(e := insert j (counted c e))),
      elected := (if b then insert (i, currentTerm rf) (elected c) else elected c)\<rparr>)"
| beat: "Beat i \<in># procs c \<Longrightarrow> \<not> killed (nodes c i) \<Longrightarrow> rf_state (nodes c i) = LEADER \<Longrightarrow>
    cl_step n c (c \<lparr>rounds := rounds c @ [(i, new_round)],
      procs := procs c + mset (map (HGo (length (rounds c))) (others n i))\<rparr>)"
| beat_exit: "Beat i \<in># procs c \<Longrightarrow> killed (nodes c i) \<or> rf_state (nodes c i) \<noteq> LEADER \<Longrightarrow>
    cl_step n c (c \<lparr>procs := procs c - {#Beat i#}\<rparr>)"
| build: "HGo r j \<in># procs c \<Longrightarrow> r < length (rounds c) \<Longrightarrow> rounds c ! r = (i, rd) \<Longrightarrow> hb_args (int j) (nodes c i) = Some a \<Longrightarrow>
    cl_step n c (c \<lparr>procs := procs c - {#HGo r j#} + {#HReq r j a#}\<rparr>)"
| append: "HReq r j a \<in># procs c \<Longrightarrow> AppendEntries a (nodes c j) = Some (rf, reply) \<Longrightarrow>
    cl_step n c (c \<lparr>nodes := (nodes c)(j := rf), procs := procs c - {#HReq r j a#} + {#HRep r j a reply#},
      resets := (if rf_state (nodes c j) \<noteq> FOLLOWER \<and> currentTerm (nodes c j) = ae_Term a
                 then insert (j, ae_Term a) (resets c) else resets c)\<rparr>)"
| appended: "HRep r j a reply \<in># procs c \<Longrightarrow> r < length (rounds c) \<Longrightarrow> rounds c ! r = (i, rd) \<Longrightarrow>
    hb_reply (int j) a reply (nodes c i) rd = Some (rf, rd') \<Longrightarrow>
    cl_step n c (c \<lparr>nodes := (nodes c)(i := rf), rounds := (rounds c)[r := (i, rd')], procs := procs c - {#HRep r j a reply#}\<rparr>)"
| apply_: "Applier i \<in># procs c \<Longrightarrow> \<not> killed (nodes c i) \<Longrightarrow> apply_turn (nodes c i) = Some (rf, ms) \<Longrightarrow>
    cl_step n c (c \<lparr>nodes := (nodes c)(i := rf), applied := (applied c)(i := applied c i @ ms)\<rparr>)"
| apply_exit: "Applier i \<in># procs c \<Longrightarrow> killed (nodes c i) \<Longrightarrow> cl_step n c (c \<lparr>procs := procs c - {#Applier i#}\<rparr>)"
| client: "i < n \<Longrightarrow> Start cmd (nodes c i) = Some (rf, index, term, isLeader) \<Longrightarrow>
    cl_step n c (c \<lparr>nodes := (nodes c)(i := rf)\<rparr>)"
| kill: "i < n \<Longrightarrow> cl_step n c (c \<lparr>nodes := (nodes c)(i := Kill (nodes c i))\<rparr>)"
| lose: "p \<in># procs c \<Longrightarrow> is_message p \<Longrightarrow> cl_step n c (c \<lparr>procs := procs c - {#p#}\<rparr>)"

inductive cl_reach :: "nat \<Rightarrow> 'c cluster \<Rightarrow> bool" for n where
  start: "cl_reach n (cl_start n ps)"
| step: "cl_reach n c \<Longrightarrow> cl_step n c c' \<Longrightarrow> cl_reach n c'"

section \<open>Invariant of the peers and the messages\<close>

fun proc_ok :: "nat \<Rightarrow> 'c cluster \<Rightarrow> 'c proc \<Rightarrow> bool" where
  "proc_ok n c (Tick i) = (i < n)"
| "proc_ok n c (Applier i) = (i < n)"
| "proc_ok n c (Elect i) = (i < n)"
| "proc_ok n c (Beat i) = (i < n)"
| "proc_ok n c (VReq e j) = (j < n \<and> e < length (elections c) \<and> j \<noteq> fst (elections c ! e))"
| "proc_ok n c (VRep e j r) = (j < n \<and> e < length (elections c) \<and> j \<noteq> fst (elections c ! e))"
| "proc_ok n c (HGo r j) = (j < n \<and> r < length (rounds c))"
| "proc_ok n c (HReq r j a) = (j < n \<and> r < length (rounds c) \<and> args_ok a)"
| "proc_ok n c (HRep r j a p) = (j < n \<and> r < length (rounds c) \<and> args_ok a)"

definition cl_inv :: "nat \<Rightarrow> 'c cluster \<Rightarrow> bool" where
  "cl_inv n c \<longleftrightarrow> (\<forall>i<n. node_ok n i (nodes c i))
     \<and> (\<forall>(i, el)\<in>set (elections c). i < n \<and> CandidateId (el_args el) = int i)
     \<and> (\<forall>(i, rd)\<in>set (rounds c). i < n \<and> nextIndex (nodes c i) \<noteq> [])
     \<and> (\<forall>p\<in>#procs c. proc_ok n c p)"

lemma others_mem [simp]: "j \<in> set (others n i) \<longleftrightarrow> j < n \<and> j \<noteq> i"
  by (auto simp: others_def)

lemma others_distinct [simp]: "distinct (others n i)"
  by (simp add: others_def)

lemma cl_inv_nodeD: "cl_inv n c \<Longrightarrow> i < n \<Longrightarrow> node_ok n i (nodes c i)"
  by (simp add: cl_inv_def)

lemma cl_inv_procD: "cl_inv n c \<Longrightarrow> p \<in># procs c \<Longrightarrow> proc_ok n c p"
  by (simp add: cl_inv_def)

lemma cl_inv_electionD:
  "cl_inv n c \<Longrightarrow> e < length (elections c) \<Longrightarrow> elections c ! e = (i, el) \<Longrightarrow> i < n \<and> CandidateId (el_args el) = int i"
  using nth_mem [of e "elections c"] by (auto simp: cl_inv_def)

lemma cl_inv_roundD:
  "cl_inv n c \<Longrightarrow> r < length (rounds c) \<Longrightarrow> rounds c ! r = (i, rd) \<Longrightarrow> i < n \<and> nextIndex (nodes c i) \<noteq> []"
  using nth_mem [of r "rounds c"] by (auto simp: cl_inv_def)

lemma proc_ok_mono:
  assumes "proc_ok n c p" "length (elections c) \<le> length (elections c')" "length (rounds c) \<le> length (rounds c')"
    "\<forall>e<length (elections c). fst (elections c' ! e) = fst (elections c ! e)"
  shows "proc_ok n c' p"
  using assms by (cases p) auto

text \<open>
  What changes from one state to the next: terms grow, and a peer that sends messages to its
  service sends them in the order of the log.
\<close>

definition applies :: "'c Raft \<Rightarrow> 'c Raft \<Rightarrow> 'c ApplyMsg list \<Rightarrow> bool" where
  "applies rf rf' ms \<longleftrightarrow> int (length ms) = lastApplied rf' - lastApplied rf
     \<and> map CommandIndex ms = (if ms = [] then [] else [lastApplied rf'])"

definition cl_evolves :: "nat \<Rightarrow> 'c cluster \<Rightarrow> 'c cluster \<Rightarrow> bool" where
  "cl_evolves n c c' \<longleftrightarrow> (\<forall>i<n. currentTerm (nodes c i) \<le> currentTerm (nodes c' i)
     \<and> (\<exists>ms. applied c' i = applied c i @ ms \<and> applies (nodes c i) (nodes c' i) ms))"

lemma applies_Nil [simp]: "applies rf rf' [] = (lastApplied rf' = lastApplied rf)"
  by (auto simp: applies_def)

text \<open>How one step re-establishes the invariant: peer \<open>i\<close> changes to \<open>rf\<close>, the tables grow.\<close>

lemma cl_inv_update:
  assumes "cl_inv n c" "nodes c' = (nodes c)(i := rf)" "node_ok n i rf" "nextIndex (nodes c i) \<noteq> [] \<longrightarrow> nextIndex rf \<noteq> []"
    and "length (elections c) \<le> length (elections c')" "\<forall>e<length (elections c). fst (elections c' ! e) = fst (elections c ! e)"
    and "\<forall>(k, el)\<in>set (elections c'). k < n \<and> CandidateId (el_args el) = int k"
    and "length (rounds c) \<le> length (rounds c')"
    and "\<forall>(k, rd)\<in>set (rounds c'). (k, rd) \<in> set (rounds c) \<or> k < n \<and> nextIndex (nodes c k) \<noteq> []"
    and "\<forall>p\<in>#procs c'. p \<in># procs c \<or> proc_ok n c' p"
  shows "cl_inv n c'"
proof -
  have "proc_ok n c' p" if "p \<in># procs c'" for p
    using that assms(10) proc_ok_mono [OF cl_inv_procD [OF assms(1), of p] assms(5,8,6)] by auto
  moreover have "k < n \<and> nextIndex (nodes c' k) \<noteq> []" if "(k, rd) \<in> set (rounds c')" for k rd
    using bspec [OF assms(9) that] assms(1,2,4) by (auto simp: cl_inv_def)
  moreover have "\<forall>k<n. node_ok n k (nodes c' k)" using assms(1-3) by (simp add: cl_inv_def)
  ultimately show ?thesis using assms(7) by (auto simp: cl_inv_def)
qed

lemma in_minus_single: "p \<in># M - {#q#} \<Longrightarrow> p \<in># M"
  by (rule in_diffD)

lemma cl_inv_same:
  assumes "cl_inv n c" "nodes c' = (nodes c)(i := rf)" "node_ok n i rf" "nextIndex (nodes c i) \<noteq> [] \<longrightarrow> nextIndex rf \<noteq> []"
    and "elections c' = elections c" "rounds c' = rounds c" "\<forall>p\<in>#procs c'. p \<in># procs c \<or> proc_ok n c p"
  shows "cl_inv n c'"
proof (rule cl_inv_update [OF assms(1-4)])
  show "\<forall>(k, el)\<in>set (elections c'). k < n \<and> CandidateId (el_args el) = int k" using assms(1,5) by (simp add: cl_inv_def)
  show "\<forall>p\<in>#procs c'. p \<in># procs c \<or> proc_ok n c' p"
    using assms(5-7) proc_ok_mono [of n c _ c'] by auto
qed (use assms(5,6) in force)+

lemma cl_step_inv:
  assumes "cl_step n c c'" "cl_inv n c" "0 < n"
  shows "cl_inv n c' \<and> cl_evolves n c c'"
  using assms(1)
proof cases
  case (tick i)
  then have "node_ok n i (nodes c i)" using assms(2) cl_inv_procD [OF assms(2) tick(2)] cl_inv_nodeD by auto
  then show ?thesis using tick
    by (auto intro!: cl_inv_same [OF assms(2), of _ i "ticker (nodes c i)"] simp: cl_evolves_def dest: in_diffD)
next
  case (fire i)
  then show ?thesis using cl_inv_nodeD [OF assms(2)]
    by (auto intro!: cl_inv_same [OF assms(2), of _ i "(nodes c i) \<lparr>electionTimeout := Some False\<rparr>"] simp: cl_evolves_def)
next
  case (elect i rf el)
  have i: "i < n" using cl_inv_procD [OF assms(2) elect(2)] by simp
  from AttemptEletion_ok [OF cl_inv_nodeD [OF assms(2) i] i] elect(3)
  have rf: "node_ok n i (ticker rf)" "evolves (nodes c i) rf" "CandidateId (el_args el) = int i" by auto
  have "cl_inv n c'"
  proof (rule cl_inv_update [OF assms(2) _ rf(1)])
    show "\<forall>(k, el)\<in>set (elections c'). k < n \<and> CandidateId (el_args el) = int k"
      using elect(1) i rf(3) assms(2) by (auto simp: cl_inv_def)
  qed (use elect(1) rf i in \<open>auto simp: evolves_def nth_append dest: in_diffD\<close>)
  then show ?thesis using elect(1) rf by (auto simp: cl_evolves_def evolves_def)
next
  case (vote e j i el rf reply)
  have j: "proc_ok n c (VReq e j)" using cl_inv_procD [OF assms(2) vote(2)] .
  from RequestVote_ok [of n j "nodes c j" "el_args el"] cl_inv_electionD [OF assms(2) vote(3,4)] cl_inv_nodeD [OF assms(2)] j vote(5)
  have rf: "node_ok n j rf" "evolves (nodes c j) rf" by auto
  then show ?thesis using vote(1) j
    by (auto intro!: cl_inv_same [OF assms(2) _ rf(1)] simp: cl_evolves_def evolves_def dest: in_diffD)
next
  case (voted e j reply i el rf el' b)
  have i: "i < n" "CandidateId (el_args el) = int i" using cl_inv_electionD [OF assms(2) voted(3,4)] by auto
  from handle_vote_ok [OF cl_inv_nodeD [OF assms(2) i(1)] i(1) voted(5)]
  have rf: "node_ok n i rf" "evolves (nodes c i) rf" "el_args el' = el_args el" by auto
  have "cl_inv n c'"
  proof (rule cl_inv_update [OF assms(2) _ rf(1)])
    show "\<forall>(k, el)\<in>set (elections c'). k < n \<and> CandidateId (el_args el) = int k"
      using voted(1,3) i rf(3) assms(2) set_update_subset_insert [of "elections c" e "(i, el')"] by (fastforce simp: cl_inv_def)
  qed (use voted(1,3,4) rf i in \<open>auto simp: evolves_def nth_list_update split: if_splits dest: in_diffD\<close>)
  then show ?thesis using voted(1) rf by (auto simp: cl_evolves_def evolves_def)
next
  case (beat i)
  have i: "i < n" using cl_inv_procD [OF assms(2) beat(2)] by simp
  then have ok: "node_ok n i (nodes c i)" using cl_inv_nodeD [OF assms(2)] by simp
  then have ne: "nextIndex (nodes c i) \<noteq> []" using beat(4) assms(3) by (auto simp: node_ok_def)
  have "cl_inv n c'"
    by (rule cl_inv_update [OF assms(2) _ ok]) (use beat(1) i ne assms(2) in \<open>auto simp: cl_inv_def\<close>)
  then show ?thesis using beat(1) by (auto simp: cl_evolves_def)
next
  case (beat_exit i)
  then show ?thesis using cl_inv_nodeD [OF assms(2,3)]
    by (auto intro!: cl_inv_same [OF assms(2), of _ 0 "nodes c 0"] simp: cl_evolves_def dest: in_diffD)
next
  case (build r j i rd a)
  have "args_ok a" using hb_args_Some [OF build(5)] cl_inv_roundD [OF assms(2) build(3,4)] cl_inv_nodeD [OF assms(2)] by blast
  then show ?thesis using build cl_inv_nodeD [OF assms(2,3)] cl_inv_procD [OF assms(2) build(2)]
    by (auto intro!: cl_inv_same [OF assms(2), of _ 0 "nodes c 0"] simp: cl_evolves_def dest: in_diffD)
next
  case (append r j a rf reply)
  have j: "proc_ok n c (HReq r j a)" using cl_inv_procD [OF assms(2) append(2)] .
  from AppendEntries_ok [of n j "nodes c j" a] cl_inv_nodeD [OF assms(2)] j append(3)
  have rf: "node_ok n j rf" "evolves (nodes c j) rf" by auto
  then show ?thesis using append(1) j
    by (auto intro!: cl_inv_same [OF assms(2) _ rf(1)] simp: cl_evolves_def evolves_def dest: in_diffD)
next
  case (appended r j a reply i rd rf rd')
  have j: "j < n" using cl_inv_procD [OF assms(2) appended(2)] by simp
  have i: "i < n" "nextIndex (nodes c i) \<noteq> []" using cl_inv_roundD [OF assms(2) appended(3,4)] by auto
  from hb_reply_ok [OF cl_inv_nodeD [OF assms(2) i(1)] i(2) j, of a reply rd] appended(5)
  have rf: "node_ok n i rf" "evolves (nodes c i) rf" by auto
  have "cl_inv n c'"
    by (rule cl_inv_update [OF assms(2) _ rf(1)])
      (use appended(1) rf i assms(2) set_update_subset_insert [of "rounds c" r "(i, rd')"]
        in \<open>fastforce simp: cl_inv_def evolves_def dest: in_diffD\<close>)+
  then show ?thesis using appended(1) rf by (auto simp: cl_evolves_def evolves_def)
next
  case (apply_ i rf ms)
  have i: "i < n" using cl_inv_procD [OF assms(2) apply_(2)] by simp
  from apply_turn_ok [OF cl_inv_nodeD [OF assms(2) i] apply_(4)]
  have rf: "node_ok n i rf" "currentTerm rf = currentTerm (nodes c i)" "applies (nodes c i) rf ms" by (auto simp: applies_def)
  have "nextIndex rf = nextIndex (nodes c i)" using apply_(4) by (auto simp: apply_turn_def Let_def split: if_splits bind_splits)
  then show ?thesis using apply_(1) rf by (auto intro!: cl_inv_same [OF assms(2) _ rf(1)] simp: cl_evolves_def)
next
  case (apply_exit i)
  then show ?thesis using cl_inv_nodeD [OF assms(2,3)]
    by (auto intro!: cl_inv_same [OF assms(2), of _ 0 "nodes c 0"] simp: cl_evolves_def dest: in_diffD)
next
  case (client i cmd rf index tm isLeader)
  from Start_ok [OF cl_inv_nodeD [OF assms(2) client(2)], of cmd] client(3)
  have rf: "node_ok n i rf" "evolves (nodes c i) rf" by auto
  then show ?thesis using client(1) by (auto intro!: cl_inv_same [OF assms(2) _ rf(1)] simp: cl_evolves_def evolves_def)
next
  case (kill i)
  have "evolves (nodes c i) (Kill (nodes c i))" by simp
  with kill show ?thesis using cl_inv_nodeD [OF assms(2) kill(2)]
    by (auto intro!: cl_inv_same [OF assms(2), of _ i "Kill (nodes c i)"] simp: cl_evolves_def evolves_def)
next
  case (lose p)
  then show ?thesis using cl_inv_nodeD [OF assms(2,3)]
    by (auto intro!: cl_inv_same [OF assms(2), of _ 0 "nodes c 0"] simp: cl_evolves_def dest: in_diffD)
qed

lemma cl_start_inv: "0 < n \<Longrightarrow> cl_inv n (cl_start n ps)"
  by (auto simp: cl_inv_def cl_start_def intro: node_ok_Make)

lemma cl_reach_inv: "cl_reach n c \<Longrightarrow> 0 < n \<Longrightarrow> cl_inv n c"
  by (induction rule: cl_reach.induct) (auto simp: cl_start_inv dest: cl_step_inv)

lemma applied_in_order:
  assumes "cl_reach n c" "0 < n" "i < n"
  shows "map CommandIndex (applied c i) = map int [1..<Suc (nat (lastApplied (nodes c i)))]"
  using assms
proof (induction rule: cl_reach.induct)
  case (start ps)
  then show ?case by (simp add: cl_start_def Make_def readPersist_def)
next
  case (step c c')
  have inv: "cl_inv n c" using step cl_reach_inv by blast
  then have "0 \<le> lastApplied (nodes c i)" using step(5) by (simp add: cl_inv_def node_ok_def)
  moreover from cl_step_inv [OF step(2) inv step(4)] step(5) obtain ms where
    "applied c' i = applied c i @ ms" "applies (nodes c i) (nodes c' i) ms" by (auto simp: cl_evolves_def)
  moreover have "ms = [] \<or> (\<exists>m. ms = [m] \<and> CommandIndex m = lastApplied (nodes c' i) \<and> lastApplied (nodes c' i) = lastApplied (nodes c i) + 1)"
    using calculation by (cases ms) (auto simp: applies_def)
  ultimately show ?case using step by (auto simp: applies_def nat_add_distrib)
qed

section \<open>Votes\<close>

text \<open>
  \<open>keeps_vote\<close>: a peer enters a later term or stays in its term with its vote. Every operation
  keeps the vote but the granting of one and \<open>AppendEntries\<close> on a peer that is not a follower.
\<close>

definition keeps_vote :: "'c Raft \<Rightarrow> 'c Raft \<Rightarrow> bool" where
  "keeps_vote rf rf' \<longleftrightarrow> currentTerm rf < currentTerm rf' \<or> currentTerm rf' = currentTerm rf \<and> votedFor rf' = votedFor rf"

lemma keeps_vote_handle_vote: "handle_vote reply rf el = (rf', el', b) \<Longrightarrow> keeps_vote rf rf'"
  by (auto simp: handle_vote_def keeps_vote_def conevrtToFollower_def conevrtToLeader_def Let_def split: if_splits)

lemma keeps_vote_hb_reply: "hb_reply j a reply rf r = Some (rf', r') \<Longrightarrow> keeps_vote rf rf'"
  by (auto simp: hb_reply_def keeps_vote_def conevrtToFollower_def Let_def split: if_splits bind_splits)

lemma keeps_vote_apply: "apply_turn rf = Some (rf', ms) \<Longrightarrow> keeps_vote rf rf'"
  by (auto simp: apply_turn_def keeps_vote_def Let_def split: if_splits bind_splits)

lemma keeps_vote_Start: "Start cmd rf = Some (rf', r) \<Longrightarrow> keeps_vote rf rf'"
  by (auto simp: Start_def keeps_vote_def Let_def split: if_splits bind_splits)

lemma keeps_vote_AppendEntries:
  assumes "AppendEntries a rf = Some (rf', reply)" "\<not> (rf_state rf \<noteq> FOLLOWER \<and> currentTerm rf = ae_Term a)"
  shows "keeps_vote rf rf'"
  using assms by (auto simp: AppendEntries_def keeps_vote_def conevrtToFollower_def Let_def split: if_splits bind_splits)

lemma RequestVote_votes:
  assumes "RequestVote args rf = Some (rf', reply)"
  shows "if VoteGranted reply
    then votedFor rf' = CandidateId args \<and> currentTerm rf' = rv_Term args
      \<and> (currentTerm rf < rv_Term args \<or> currentTerm rf = rv_Term args \<and> votedFor rf \<in> {-1, CandidateId args})
    else keeps_vote rf rf'"
  using assms by (auto simp: RequestVote_def keeps_vote_def Let_def split: if_splits bind_splits)

definition vote_inv :: "nat \<Rightarrow> 'c cluster \<Rightarrow> bool" where
  "vote_inv n c \<longleftrightarrow>
     (\<forall>v k t. (v, k, t) \<in> grants c \<longrightarrow> v < n \<and> k < n \<and> t \<le> currentTerm (nodes c v)
        \<and> (t = currentTerm (nodes c v) \<longrightarrow> (v, t) \<notin> resets c \<longrightarrow> votedFor (nodes c v) = int k))
   \<and> (\<forall>v k k' t. (v, k, t) \<in> grants c \<longrightarrow> (v, k', t) \<in> grants c \<longrightarrow> (v, t) \<notin> resets c \<longrightarrow> k = k')"

lemma vote_inv_keep:
  assumes "vote_inv n c" "nodes c' = (nodes c)(i := rf)" "keeps_vote (nodes c i) rf" "grants c' = grants c" "resets c' = resets c"
  shows "vote_inv n c'"
  using assms unfolding vote_inv_def keeps_vote_def by (auto 0 4 split: if_splits)

lemma vote_inv_reset:
  assumes "vote_inv n c" "nodes c' = (nodes c)(i := rf)" "currentTerm rf = currentTerm (nodes c i)"
    "grants c' = grants c" "resets c' = insert (i, currentTerm rf) (resets c)"
  shows "vote_inv n c'"
  using assms unfolding vote_inv_def by (auto 0 4 split: if_splits)

lemma vote_inv_grant:
  assumes "vote_inv n c" "nodes c' = (nodes c)(i := rf)" "grants c' = insert (i, k, currentTerm rf) (grants c)" "resets c' = resets c"
    and "i < n" "k < n" "votedFor rf = int k"
    and "currentTerm (nodes c i) < currentTerm rf \<or> currentTerm (nodes c i) = currentTerm rf \<and> votedFor (nodes c i) \<in> {-1, int k}"
  shows "vote_inv n c'"
proof -
  have old: "v < n \<and> k' < n \<and> t \<le> currentTerm (nodes c v)
      \<and> (t = currentTerm (nodes c v) \<longrightarrow> (v, t) \<notin> resets c \<longrightarrow> votedFor (nodes c v) = int k')" if "(v, k', t) \<in> grants c" for v k' t
    using assms(1) that unfolding vote_inv_def by blast
  have same: "k' = k" if "(i, k', currentTerm rf) \<in> grants c" "(i, currentTerm rf) \<notin> resets c" for k'
    using old [OF that(1)] that(2) assms(8) by auto
  have bound: "t \<le> currentTerm rf" if "(i, k', t) \<in> grants c" for k' t using old [OF that] assms(8) by auto
  have "\<forall>v k t. (v, k, t) \<in> grants c' \<longrightarrow> v < n \<and> k < n \<and> t \<le> currentTerm (nodes c' v)
        \<and> (t = currentTerm (nodes c' v) \<longrightarrow> (v, t) \<notin> resets c' \<longrightarrow> votedFor (nodes c' v) = int k)"
    using assms(2-8) old same bound by (auto 0 3)
  moreover have "\<forall>v k k' t. (v, k, t) \<in> grants c' \<longrightarrow> (v, k', t) \<in> grants c' \<longrightarrow> (v, t) \<notin> resets c' \<longrightarrow> k = k'"
    using assms(1,3,4) same unfolding vote_inv_def by (auto 0 3)
  ultimately show ?thesis unfolding vote_inv_def by blast
qed

lemma keeps_vote_simps [simp]:
  "keeps_vote rf rf" "keeps_vote rf (ticker rf) " "keeps_vote rf (rf \<lparr>electionTimeout := x\<rparr>)" "keeps_vote rf (Kill rf)"
  by (simp_all add: keeps_vote_def Kill_def)

lemma cl_step_vote_inv:
  assumes "cl_step n c c'" "cl_inv n c" "vote_inv n c"
  shows "vote_inv n c'"
  using assms(1)
proof cases
  case (tick i)
  then show ?thesis by (intro vote_inv_keep [OF assms(3), of _ i "ticker (nodes c i)"]) auto
next
  case (fire i)
  then show ?thesis by (intro vote_inv_keep [OF assms(3), of _ i "(nodes c i) \<lparr>electionTimeout := Some False\<rparr>"]) auto
next
  case (elect i rf el)
  have i: "i < n" using cl_inv_procD [OF assms(2) elect(2)] by simp
  with AttemptEletion_ok [OF cl_inv_nodeD [OF assms(2) i] i] elect show ?thesis
    by (intro vote_inv_grant [OF assms(3), of _ i "ticker rf" i]) auto
next
  case (vote e j i el rf reply)
  have j: "j < n" "i < n" "CandidateId (el_args el) = int i"
    using cl_inv_procD [OF assms(2) vote(2)] cl_inv_electionD [OF assms(2) vote(3,4)] by auto
  show ?thesis
  proof (cases "VoteGranted reply")
    case True
    then show ?thesis using vote(1) j RequestVote_votes [OF vote(5)] by (intro vote_inv_grant [OF assms(3), of _ j rf i]) auto
  next
    case False
    then show ?thesis using vote(1) RequestVote_votes [OF vote(5)] by (intro vote_inv_keep [OF assms(3), of _ j rf]) auto
  qed
next
  case (voted e j reply i el rf el' b)
  then show ?thesis by (intro vote_inv_keep [OF assms(3), of _ i rf]) (auto dest: keeps_vote_handle_vote)
next
  case (append r j a rf reply)
  show ?thesis
  proof (cases "rf_state (nodes c j) \<noteq> FOLLOWER \<and> currentTerm (nodes c j) = ae_Term a")
    case True
    then have "currentTerm rf = ae_Term a" using append(3) by (auto simp: AppendEntries_def conevrtToFollower_def)
    then show ?thesis using True append(1) by (intro vote_inv_reset [OF assms(3), of _ j rf]) auto
  next
    case False
    then show ?thesis using append(1) keeps_vote_AppendEntries [OF append(3)] by (intro vote_inv_keep [OF assms(3), of _ j rf]) auto
  qed
next
  case (appended r j a reply i rd rf rd')
  then show ?thesis by (intro vote_inv_keep [OF assms(3), of _ i rf]) (auto dest: keeps_vote_hb_reply)
next
  case (apply_ i rf ms)
  then show ?thesis by (intro vote_inv_keep [OF assms(3), of _ i rf]) (auto dest: keeps_vote_apply)
next
  case (client i cmd rf index tm isLeader)
  then show ?thesis by (intro vote_inv_keep [OF assms(3), of _ i rf]) (auto dest: keeps_vote_Start)
next
  case (kill i)
  then show ?thesis by (intro vote_inv_keep [OF assms(3), of _ i "Kill (nodes c i)"]) auto
qed (use assms(3) in \<open>simp_all add: vote_inv_def\<close>)

text \<open>
  Counting: an election counts the vote of a peer at most once. \<open>about e j\<close> selects the messages of
  election \<open>e\<close> with peer \<open>j\<close>; there is at most one, and none once the vote of \<open>j\<close> is counted.
\<close>

fun about :: "nat \<Rightarrow> nat \<Rightarrow> 'c proc \<Rightarrow> bool" where
  "about e j (VReq e' j') = (e' = e \<and> j' = j)"
| "about e j (VRep e' j' r) = (e' = e \<and> j' = j)"
| "about e j _ = False"

definition pending :: "nat \<Rightarrow> nat \<Rightarrow> 'c proc multiset \<Rightarrow> nat" where
  "pending e j M = size (filter_mset (about e j) M)"

definition majority :: "nat \<Rightarrow> (nat \<times> nat \<times> int) set \<Rightarrow> nat \<Rightarrow> int \<Rightarrow> bool" where
  "majority n G i t \<longleftrightarrow> (\<exists>Q. Q \<subseteq> {..<n} \<and> n div 2 < card Q \<and> (\<forall>v\<in>Q. (v, i, t) \<in> G))"

definition election_ok :: "nat \<Rightarrow> (nat \<times> nat \<times> int) set \<Rightarrow> nat set \<Rightarrow> nat \<times> election \<Rightarrow> bool" where
  "election_ok n G vs ie \<longleftrightarrow> (case ie of (i, el) \<Rightarrow>
     (i, i, rv_Term (el_args el)) \<in> G \<and> el_votes el = 1 + int (card vs)
     \<and> vs \<subseteq> {..<n} - {i} \<and> (\<forall>v\<in>vs. (v, i, rv_Term (el_args el)) \<in> G))"

definition count_inv :: "nat \<Rightarrow> 'c cluster \<Rightarrow> bool" where
  "count_inv n c \<longleftrightarrow>
     (\<forall>e<length (elections c). election_ok n (grants c) (counted c e) (elections c ! e))
   \<and> (\<forall>e\<ge>length (elections c). counted c e = {})
   \<and> (\<forall>e j r. VRep e j r \<in># procs c \<longrightarrow> VoteGranted r \<longrightarrow>
        (j, fst (elections c ! e), rv_Term (el_args (snd (elections c ! e)))) \<in> grants c)
   \<and> (\<forall>e j. pending e j (procs c) + (if j \<in> counted c e then 1 else 0) \<le> 1)
   \<and> (\<forall>(i, t)\<in>elected c. majority n (grants c) i t)"

lemma pending_simps [simp]:
  "pending e j {#} = 0"
  "pending e j (add_mset p M) = (if about e j p then Suc (pending e j M) else pending e j M)"
  "pending e j (M + N) = pending e j M + pending e j N"
  by (auto simp: pending_def)

lemma pending_mono: "pending e j (M - {#p#}) \<le> pending e j M"
  by (simp add: pending_def multiset_filter_mono size_mset_mono)

lemma pending_0: "\<forall>p\<in>#M. \<not> about e j p \<Longrightarrow> pending e j M = 0"
  by (simp add: pending_def filter_mset_False [symmetric] cong: filter_mset_cong)

lemma pending_others: "pending e j (mset (map (VReq e') (others n i))) = (if e' = e \<and> j < n \<and> j \<noteq> i then 1 else 0)"
proof -
  have "pending e j (mset (map (VReq e') js)) = (if e' = e \<and> j \<in> set js then 1 else 0)" if "distinct js" for js
    using that by (induction js) auto
  from this [of "others n i"] show ?thesis by simp
qed

lemma pending_image [simp]:
  "pending e j (image_mset (HGo r) N) = 0" "pending e j (image_mset Tick N) = 0" "pending e j (image_mset Applier N) = 0"
  by (rule pending_0; auto)+

lemma majority_mono: "majority n G i t \<Longrightarrow> G \<subseteq> G' \<Longrightarrow> majority n G' i t"
  unfolding majority_def by blast

lemma election_ok_mono: "election_ok n G vs ie \<Longrightarrow> G \<subseteq> G' \<Longrightarrow> election_ok n G' vs ie"
  by (auto simp: election_ok_def split: prod.splits)

lemma count_invI:
  assumes "\<And>e. e < length (elections c) \<Longrightarrow> election_ok n (grants c) (counted c e) (elections c ! e)"
    and "\<And>e. length (elections c) \<le> e \<Longrightarrow> counted c e = {}"
    and "\<And>e j r. VRep e j r \<in># procs c \<Longrightarrow> VoteGranted r \<Longrightarrow>
      (j, fst (elections c ! e), rv_Term (el_args (snd (elections c ! e)))) \<in> grants c"
    and "\<And>e j. pending e j (procs c) + (if j \<in> counted c e then 1 else 0) \<le> 1"
    and "\<And>i t. (i, t) \<in> elected c \<Longrightarrow> majority n (grants c) i t"
  shows "count_inv n c"
  using assms unfolding count_inv_def by blast

lemma count_invD:
  assumes "count_inv n c"
  shows "e < length (elections c) \<Longrightarrow> election_ok n (grants c) (counted c e) (elections c ! e)"
    "length (elections c) \<le> e \<Longrightarrow> counted c e = {}"
    "VRep e j r \<in># procs c \<Longrightarrow> VoteGranted r \<Longrightarrow> (j, fst (elections c ! e), rv_Term (el_args (snd (elections c ! e)))) \<in> grants c"
    "pending e j (procs c) + (if j \<in> counted c e then 1 else 0) \<le> 1"
    "(i, t) \<in> elected c \<Longrightarrow> majority n (grants c) i t"
  using assms unfolding count_inv_def by (blast | force)+

text \<open>Steps that neither touch an election nor add one of its messages.\<close>

lemma count_inv_other:
  assumes "count_inv n c" "elections c' = elections c" "counted c' = counted c" "elected c' = elected c" "grants c' = grants c"
    and "\<And>e j. pending e j (procs c') \<le> pending e j (procs c)" "\<And>e j r. VRep e j r \<in># procs c' \<Longrightarrow> VRep e j r \<in># procs c"
  shows "count_inv n c'"
proof (rule count_invI)
  fix e j
  show "pending e j (procs c') + (if j \<in> counted c' e then 1 else 0) \<le> 1"
    using count_invD(4) [OF assms(1), of e j] assms(6) [of e j] unfolding assms(3) by linarith
next
  fix e j r assume "VRep e j r \<in># procs c'" "VoteGranted r"
  then show "(j, fst (elections c' ! e), rv_Term (el_args (snd (elections c' ! e)))) \<in> grants c'"
    using count_invD(3) [OF assms(1) assms(7)] assms(2,5) by simp
qed (use count_invD(1,2,5) [OF assms(1)] assms(2-5) in auto)

lemma no_pending_beyond:
  assumes "cl_inv n c" "length (elections c) \<le> e"
  shows "pending e j (procs c) = 0"
proof (rule pending_0, rule ballI)
  fix p assume "p \<in># procs c"
  then show "\<not> about e j p" using cl_inv_procD [OF assms(1), of p] assms(2) by (cases p) auto
qed

lemma count_inv_elect:
  assumes "count_inv n c" "cl_inv n c" "Elect i \<in># procs c" "AttemptEletion (nodes c i) = Some (rf, el)"
    and c': "c' = c \<lparr>nodes := (nodes c)(i := ticker rf), elections := elections c @ [(i, el)],
      procs := procs c - {#Elect i#} + mset (map (VReq (length (elections c))) (others n i)),
      grants := insert (i, i, currentTerm rf) (grants c)\<rparr>"
  shows "count_inv n c'"
proof -
  note D = count_invD [OF assms(1)]
  have i: "i < n" using cl_inv_procD [OF assms(2,3)] by simp
  from AttemptEletion_ok [OF cl_inv_nodeD [OF assms(2) i] i] assms(4)
  have el: "rv_Term (el_args el) = currentTerm rf" "el_votes el = 1" by auto
  obtain M where M: "procs c = add_mset (Elect i) M" using assms(3) by (metis multi_member_split)
  have "election_ok n (grants c') (counted c' e) (elections c' ! e)" if "e < length (elections c')" for e
    using that D(1) [of e] D(2) [of e] el unfolding c' by (auto simp: nth_append election_ok_def less_Suc_eq split: prod.splits)
  moreover have "pending e j (procs c') + (if j \<in> counted c' e then 1 else 0) \<le> 1" for e j
    using D(4) [of e j] D(2) [of e] no_pending_beyond [OF assms(2), of e j] pending_others [of e j "length (elections c)" n i]
    unfolding c' M by (cases "length (elections c) \<le> e") auto
  moreover have "(j, fst (elections c' ! e), rv_Term (el_args (snd (elections c' ! e)))) \<in> grants c'"
    if "VRep e j r \<in># procs c'" "VoteGranted r" for e j r
  proof -
    have "VRep e j r \<in># procs c" using that(1) unfolding c' M by auto
    then show ?thesis using D(3) that(2) cl_inv_procD [OF assms(2), of "VRep e j r"] unfolding c' by (auto simp: nth_append)
  qed
  moreover have "majority n (grants c') k t" if "(k, t) \<in> elected c'" for k t
    using that D(5) unfolding c' by (auto intro: majority_mono)
  moreover have "counted c' e = {}" if "length (elections c') \<le> e" for e using that D(2) unfolding c' by simp
  ultimately show ?thesis by (intro count_invI)
qed

lemma count_inv_vote:
  assumes "count_inv n c" "cl_inv n c" "VReq e j \<in># procs c" "elections c ! e = (i, el)"
    and c': "c' = c \<lparr>nodes := (nodes c)(j := rf), procs := procs c - {#VReq e j#} + {#VRep e j reply#},
      grants := (if VoteGranted reply then insert (j, i, rv_Term (el_args el)) (grants c) else grants c)\<rparr>"
  shows "count_inv n c'"
proof -
  note D = count_invD [OF assms(1)]
  obtain M where M: "procs c = add_mset (VReq e j) M" using assms(3) by (metis multi_member_split)
  have G: "grants c \<subseteq> grants c'" unfolding c' by auto
  have "election_ok n (grants c') (counted c' k) (elections c' ! k)" if "k < length (elections c')" for k
    using that D(1) [of k] election_ok_mono G unfolding c' by auto
  moreover have "pending k v (procs c') + (if v \<in> counted c' k then 1 else 0) \<le> 1" for k v
    using D(4) [of k v] unfolding c' M by auto
  moreover have "(v, fst (elections c' ! k), rv_Term (el_args (snd (elections c' ! k)))) \<in> grants c'"
    if "VRep k v r \<in># procs c'" "VoteGranted r" for k v r
    using that D(3) [of k v r] assms(4) unfolding c' M by auto
  moreover have "majority n (grants c') k t" if "(k, t) \<in> elected c'" for k t
    using that D(5) unfolding c' by (auto intro: majority_mono)
  moreover have "counted c' k = {}" if "length (elections c') \<le> k" for k using that D(2) unfolding c' by simp
  ultimately show ?thesis by (intro count_invI)
qed

lemma handle_vote_counts:
  assumes "handle_vote reply rf el = (rf', el', b)"
  shows "el_votes el' = el_votes el \<and> \<not> b \<or> el_votes el' = el_votes el + 1 \<and> VoteGranted reply"
    and "b \<Longrightarrow> int (peers rf div 2) < el_votes el' \<and> currentTerm rf' = rv_Term (el_args el)"
    and "el_args el' = el_args el"
  using assms by (auto simp: handle_vote_def conevrtToLeader_def Let_def split: if_splits)

lemma election_majority:
  assumes "election_ok n G vs (i, el)" "int (n div 2) < el_votes el" "i < n"
  shows "majority n G i (rv_Term (el_args el))"
proof -
  have "finite vs" "i \<notin> vs" using assms(1) finite_subset [of vs "{..<n} - {i}"] by (auto simp: election_ok_def)
  then have "n div 2 < card (insert i vs)" using assms(1,2) by (simp add: election_ok_def)
  then show ?thesis using assms(1,3) unfolding majority_def election_ok_def by (intro exI [of _ "insert i vs"]) auto
qed

lemma count_inv_voted:
  assumes "count_inv n c" "cl_inv n c" "VRep e j reply \<in># procs c" "e < length (elections c)" "elections c ! e = (i, el)"
    and hv: "handle_vote reply (nodes c i) el = (rf, el', b)"
    and c': "c' = c \<lparr>nodes := (nodes c)(i := rf), elections := (elections c)[e := (i, el')],
      procs := procs c - {#VRep e j reply#} + (if b then {#Beat i#} else {#}),
      counted := (if el_votes el' = el_votes el then counted c else (counted c)(e := insert j (counted c e))),
      elected := (if b then insert (i, currentTerm rf) (elected c) else elected c)\<rparr>"
  shows "count_inv n c'"
proof -
  note D = count_invD [OF assms(1)]
  note hc = handle_vote_counts [OF hv]
  obtain M where M: "procs c = add_mset (VRep e j reply) M" using assms(3) by (metis multi_member_split)
  have i: "i < n" "peers (nodes c i) = n"
    using cl_inv_electionD [OF assms(2,4,5)] cl_inv_nodeD [OF assms(2)] by (auto simp: node_ok_def)
  have j: "j < n" "j \<noteq> i" using cl_inv_procD [OF assms(2,3)] assms(5) by auto
  have new: "j \<notin> counted c e" using D(4) [of e j] unfolding M by (auto split: if_splits)
  have fin: "finite (counted c e)" using D(1) [OF assms(4)] assms(5) finite_subset [of "counted c e" "{..<n} - {i}"]
    by (auto simp: election_ok_def)
  have cur: "election_ok n (grants c) (counted c' e) (i, el')"
    using D(1) [OF assms(4)] D(3) [OF assms(3)] hc(1,3) assms(5) j new fin unfolding c' by (auto simp: election_ok_def)
  have "election_ok n (grants c') (counted c' k) (elections c' ! k)" if "k < length (elections c')" for k
    using that D(1) [of k] cur assms(4) unfolding c' by (cases "k = e") (auto simp: nth_list_update)
  moreover have "pending k v (procs c') + (if v \<in> counted c' k then 1 else 0) \<le> 1" for k v
    using D(4) [of k v] unfolding c' M by (auto split: if_splits)
  moreover have "(v, fst (elections c' ! k), rv_Term (el_args (snd (elections c' ! k)))) \<in> grants c'"
    if "VRep k v r \<in># procs c'" "VoteGranted r" for k v r
  proof -
    have "VRep k v r \<in># procs c" using that(1) unfolding c' M by (auto split: if_splits)
    then show ?thesis using D(3) [of k v r] that(2) assms(4,5) hc(3) unfolding c' by (auto simp: nth_list_update)
  qed
  moreover have "majority n (grants c') k t" if "(k, t) \<in> elected c'" for k t
    using that D(5) [of k t] election_majority [OF cur _ i(1)] hc(2,3) i(2) unfolding c' by (auto split: if_splits)
  moreover have "counted c' k = {}" if "length (elections c') \<le> k" for k using that D(2) assms(4) unfolding c' by auto
  ultimately show ?thesis by (intro count_invI)
qed

lemma cl_step_count_inv:
  assumes "cl_step n c c'" "cl_inv n c" "count_inv n c"
  shows "count_inv n c'"
  using assms(1)
proof cases
  case (elect i rf el)
  then show ?thesis using count_inv_elect [OF assms(3,2)] by blast
next
  case (vote e j i el rf reply)
  then show ?thesis using count_inv_vote [OF assms(3,2)] by blast
next
  case (voted e j reply i el rf el' b)
  then show ?thesis using count_inv_voted [OF assms(3,2)] by blast
qed (rule count_inv_other [OF assms(3)]; auto intro: order_trans [OF _ pending_mono] le_add_diff_inverse simp: pending_mono dest: in_diffD split: if_splits)+

section \<open>Reachable states\<close>

lemma cl_reach_votes:
  assumes "cl_reach n c" "0 < n"
  shows "vote_inv n c \<and> count_inv n c"
  using assms
proof (induction rule: cl_reach.induct)
  case (start ps)
  show ?case by (auto simp: vote_inv_def cl_start_def intro!: count_invI)
next
  case (step c c')
  then show ?case using cl_reach_inv cl_step_vote_inv cl_step_count_inv by blast
qed

lemma majority_intersect:
  assumes "majority n G a t" "majority n G b t"
  shows "\<exists>v. (v, a, t) \<in> G \<and> (v, b, t) \<in> G"
proof -
  from assms obtain Q R where Q: "Q \<subseteq> {..<n}" "n div 2 < card Q" "\<forall>v\<in>Q. (v, a, t) \<in> G"
    and R: "R \<subseteq> {..<n}" "n div 2 < card R" "\<forall>v\<in>R. (v, b, t) \<in> G" unfolding majority_def by blast
  have "Q \<inter> R \<noteq> {}"
  proof
    assume "Q \<inter> R = {}"
    then have "card Q + card R = card (Q \<union> R)" using Q(1) R(1) by (simp add: card_Un_disjoint finite_subset)
    also have "\<dots> \<le> n" using card_mono [of "{..<n}" "Q \<union> R"] Q(1) R(1) by simp
    finally show False using Q(2) R(2) by linarith
  qed
  then show ?thesis using Q(3) R(3) by blast
qed

section \<open>Executing a run\<close>

text \<open>
  An executable form of the steps, with the goroutines and messages in a list: \<open>proc_run\<close> runs one
  of them and returns what it starts; \<open>Run k\<close> runs the \<open>k\<close>-th, \<open>Fire i\<close> is the timer of peer \<open>i\<close>,
  and \<open>Client i c\<close> a call of \<open>Start\<close>.
\<close>

fun proc_run :: "nat \<Rightarrow> 'c proc \<Rightarrow> 'c cluster \<Rightarrow> ('c cluster \<times> 'c proc list) option" where
  "proc_run n (Tick i) c = Some (c \<lparr>nodes := (nodes c)(i := ticker (nodes c i))\<rparr>, [])"
| "proc_run n (Applier i) c = (if killed (nodes c i) then Some (c, []) else do {
     (rf, ms) \<leftarrow> apply_turn (nodes c i);
     Some (c \<lparr>nodes := (nodes c)(i := rf), applied := (applied c)(i := applied c i @ ms)\<rparr>, [Applier i]) })"
| "proc_run n (Elect i) c = do {
     (rf, el) \<leftarrow> AttemptEletion (nodes c i);
     Some (c \<lparr>nodes := (nodes c)(i := ticker rf), elections := elections c @ [(i, el)],
              grants := insert (i, i, currentTerm rf) (grants c)\<rparr>, map (VReq (length (elections c))) (others n i)) }"
| "proc_run n (Beat i) c =
     (if killed (nodes c i) \<or> rf_state (nodes c i) \<noteq> LEADER then Some (c, [])
      else Some (c \<lparr>rounds := rounds c @ [(i, new_round)]\<rparr>, Beat i # map (HGo (length (rounds c))) (others n i)))"
| "proc_run n (VReq e j) c = (if length (elections c) \<le> e then None else case elections c ! e of (i, el) \<Rightarrow> do {
     (rf, reply) \<leftarrow> RequestVote (el_args el) (nodes c j);
     Some (c \<lparr>nodes := (nodes c)(j := rf),
              grants := (if VoteGranted reply then insert (j, i, rv_Term (el_args el)) (grants c) else grants c)\<rparr>, [VRep e j reply]) })"
| "proc_run n (VRep e j reply) c = (if length (elections c) \<le> e then None else case elections c ! e of (i, el) \<Rightarrow>
     (case handle_vote reply (nodes c i) el of (rf, el', b) \<Rightarrow>
       Some (c \<lparr>nodes := (nodes c)(i := rf), elections := (elections c)[e := (i, el')],
                counted := (if el_votes el' = el_votes el then counted c else (counted c)(e := insert j (counted c e))),
                elected := (if b then insert (i, currentTerm rf) (elected c) else elected c)\<rparr>, if b then [Beat i] else [])))"
| "proc_run n (HGo r j) c = (if length (rounds c) \<le> r then None else case rounds c ! r of (i, rd) \<Rightarrow> do {
     a \<leftarrow> hb_args (int j) (nodes c i);
     Some (c, [HReq r j a]) })"
| "proc_run n (HReq r j a) c = do {
     (rf, reply) \<leftarrow> AppendEntries a (nodes c j);
     Some (c \<lparr>nodes := (nodes c)(j := rf),
              resets := (if rf_state (nodes c j) \<noteq> FOLLOWER \<and> currentTerm (nodes c j) = ae_Term a
                         then insert (j, ae_Term a) (resets c) else resets c)\<rparr>, [HRep r j a reply]) }"
| "proc_run n (HRep r j a reply) c = (if length (rounds c) \<le> r then None else case rounds c ! r of (i, rd) \<Rightarrow> do {
     (rf, rd') \<leftarrow> hb_reply (int j) a reply (nodes c i) rd;
     Some (c \<lparr>nodes := (nodes c)(i := rf), rounds := (rounds c)[r := (i, rd')]\<rparr>, []) })"

datatype 'c event = Run nat | Fire nat | Client nat "'c option"

fun ev_run :: "nat \<Rightarrow> 'c event \<Rightarrow> 'c cluster \<times> 'c proc list \<Rightarrow> ('c cluster \<times> 'c proc list) option" where
  "ev_run n (Run k) (c, ps) = (if k < length ps then do {
     (c, new) \<leftarrow> proc_run n (ps ! k) c; Some (c, take k ps @ drop (Suc k) ps @ new) } else None)"
| "ev_run n (Fire i) (c, ps) = (if i < n \<and> electionTimeout (nodes c i) = Some True
     then Some (c \<lparr>nodes := (nodes c)(i := (nodes c i) \<lparr>electionTimeout := Some False\<rparr>)\<rparr>,
                ps @ (if timer_func (nodes c i) then [Elect i] else []))
     else None)"
| "ev_run n (Client i cmd) (c, ps) = (if i < n then do {
     (rf, index, t, isLeader) \<leftarrow> Start cmd (nodes c i); Some (c \<lparr>nodes := (nodes c)(i := rf)\<rparr>, ps) } else None)"

fun evs_run :: "nat \<Rightarrow> 'c event list \<Rightarrow> 'c cluster \<times> 'c proc list \<Rightarrow> ('c cluster \<times> 'c proc list) option" where
  "evs_run n [] s = Some s"
| "evs_run n (ev # evs) s = do { s \<leftarrow> ev_run n ev s; evs_run n evs s }"

definition with_procs :: "'c cluster \<times> 'c proc list \<Rightarrow> 'c cluster" where
  "with_procs s = (fst s) \<lparr>procs := mset (snd s)\<rparr>"

lemma mset_remove_nth: "k < length ps \<Longrightarrow> mset ps = add_mset (ps ! k) (mset (take k ps @ drop (Suc k) ps))"
  by (metis id_take_nth_drop mset.simps(2) mset_append union_mset_add_mset_right)

lemma procs_upd_commute:
  "c \<lparr>applied := x1, procs := P\<rparr> = c \<lparr>procs := P, applied := x1\<rparr>"
  "c \<lparr>grants := x2, procs := P\<rparr> = c \<lparr>procs := P, grants := x2\<rparr>"
  "c \<lparr>counted := x3, procs := P\<rparr> = c \<lparr>procs := P, counted := x3\<rparr>"
  "c \<lparr>elected := x4, procs := P\<rparr> = c \<lparr>procs := P, elected := x4\<rparr>"
  "c \<lparr>resets := x5, procs := P\<rparr> = c \<lparr>procs := P, resets := x5\<rparr>"
  by simp_all

lemma proc_run_step:
  assumes "proc_run n p c = Some (c', new)" "procs c = add_mset p M"
  shows "cl_step n c (c' \<lparr>procs := M + mset new\<rparr>)"
proof -
  have mem: "p \<in># procs c" and rest: "M = procs c - {#p#}" using assms(2) by auto
  show ?thesis
  proof (cases p)
    case (Tick i)
    then show ?thesis using assms(1) mem cl_step.tick [of i c n] by (simp add: rest procs_upd_commute)
  next
    case (Applier i)
    then show ?thesis using assms(1) mem cl_step.apply_ [of i c _ _ n] cl_step.apply_exit [of i c n]
      by (auto simp: rest procs_upd_commute split: if_splits bind_splits)
  next
    case (Elect i)
    then show ?thesis using assms(1) mem cl_step.elect [of i c _ _ n] by (auto simp: rest procs_upd_commute split: bind_splits)
  next
    case (Beat i)
    then show ?thesis using assms(1) mem cl_step.beat [of i c n] cl_step.beat_exit [of i c n]
      by (auto simp: rest procs_upd_commute split: if_splits)
  next
    case (VReq e j)
    then show ?thesis using assms(1) mem cl_step.vote [of e j c _ _ _ _ n]
      by (auto simp: rest procs_upd_commute split: if_splits bind_splits prod.splits)
  next
    case (VRep e j r)
    obtain i el where ie: "elections c ! e = (i, el)" by (cases "elections c ! e")
    obtain rf el' b where hv: "handle_vote r (nodes c i) el = (rf, el', b)" by (cases "handle_vote r (nodes c i) el") auto
    have e: "e < length (elections c)" using assms(1) VRep by (auto split: if_splits)
    have eq: "c' = c \<lparr>nodes := (nodes c)(i := rf), elections := (elections c)[e := (i, el')],
        counted := (if el_votes el' = el_votes el then counted c else (counted c)(e := insert j (counted c e))),
        elected := (if b then insert (i, currentTerm rf) (elected c) else elected c)\<rparr>" "new = (if b then [Beat i] else [])"
      using assms(1) VRep e ie hv by simp_all
    have "mset new = (if b then {#Beat i#} else {#})" by (simp add: eq)
    note eq = eq(1) this
    show ?thesis using cl_step.voted [OF mem [unfolded VRep] e ie hv, of n]
      unfolding eq rest VRep procs_upd_commute by assumption
  next
    case (HGo r j)
    then show ?thesis using assms(1) mem cl_step.build [of r j c _ _ _ n]
      by (auto simp: rest procs_upd_commute split: if_splits bind_splits prod.splits)
  next
    case (HReq r j a)
    then show ?thesis using assms(1) mem cl_step.append [of r j a c _ _ n] by (auto simp: rest procs_upd_commute split: bind_splits)
  next
    case (HRep r j a q)
    then show ?thesis using assms(1) mem cl_step.appended [of r j a q c _ _ _ _ n]
      by (auto simp: rest procs_upd_commute split: if_splits bind_splits prod.splits)
  qed
qed

lemma proc_run_procs:
  "proc_run n p (c \<lparr>procs := P\<rparr>) = map_option (\<lambda>(c, new). (c \<lparr>procs := P\<rparr>, new)) (proc_run n p c)"
  by (cases c; cases p) (simp_all split: bind_split prod.split)

lemma ev_run_step:
  assumes "ev_run n ev s = Some s'"
  shows "cl_step n (with_procs s) (with_procs s')"
proof (cases s)
  case (Pair c ps)
  have nodes: "nodes (with_procs (c, ps)) = nodes c" "procs (with_procs (c, ps)) = mset ps" by (simp_all add: with_procs_def)
  show ?thesis
  proof (cases ev)
    case (Run k)
    then obtain c1 new where k: "k < length ps" and r: "proc_run n (ps ! k) c = Some (c1, new)"
      and s': "s' = (c1, take k ps @ drop (Suc k) ps @ new)" using assms Pair by (auto split: if_splits bind_splits)
    have "proc_run n (ps ! k) (with_procs s) = Some (c1 \<lparr>procs := mset ps\<rparr>, new)"
      using r Pair by (simp add: with_procs_def proc_run_procs)
    from proc_run_step [OF this] mset_remove_nth [OF k] Pair s' show ?thesis by (simp add: with_procs_def add.assoc)
  next
    case (Fire i)
    then show ?thesis using assms Pair cl_step.fire [of i n "with_procs s"]
      by (cases c) (auto simp: with_procs_def split: if_splits)
  next
    case (Client i cmd)
    then show ?thesis using assms Pair cl_step.client [of i n cmd "with_procs s"]
      by (cases c) (auto simp: with_procs_def split: if_splits bind_splits)
  qed
qed

lemma evs_run_reach: "cl_reach n (with_procs s) \<Longrightarrow> evs_run n evs s = Some s' \<Longrightarrow> cl_reach n (with_procs s')"
proof (induction evs arbitrary: s)
  case (Cons ev evs)
  then obtain s1 where "ev_run n ev s = Some s1" "evs_run n evs s1 = Some s'" by (auto split: bind_splits)
  then show ?case using Cons(1) cl_reach.step [OF Cons(2) ev_run_step] by blast
qed simp

definition init_run :: "nat \<Rightarrow> 'c cluster \<times> 'c proc list" where
  "init_run n = (cl_start n (\<lambda>_. MakePersister), map Tick [0..<n] @ map Applier [0..<n])"

lemma init_run_reach: "cl_reach n (with_procs (init_run n))"
proof -
  have "with_procs (init_run n) = cl_start n (\<lambda>_. MakePersister)" by (simp add: with_procs_def init_run_def cl_start_def)
  then show ?thesis by (metis cl_reach.start)
qed

text \<open>Four runs. \<open>run_leaders\<close>: peer 0 is elected in term 1, peer 2 in term 2. \<open>run_commit\<close> and
  \<open>run_panic\<close>: a leader's heartbeat reaches a candidate. \<open>run_votes\<close>: five peers, two elections in
  term 2.\<close>

definition run_leaders :: "nat event list" where
  "run_leaders = [Run 0, Fire 0, Run 5, Run 6, Run 6, Fire 2, Run 7, Run 7, Run 8]"

definition run_commit :: "nat event list" where
  "run_commit = [Run 0, Run 0, Fire 0, Run 4, Fire 1, Run 6, Run 5, Run 7, Client 0 (Some 7), Run 7, Run 8, Run 9, Run 9, Run
     1, Fire 2, Run 9, Run 10, Run 10, Client 2 (Some 8), Run 10, Run 12, Run 12, Run 12, Run 2]"

definition run_panic :: "nat event list" where
  "run_panic = [Run 0, Run 0, Fire 0, Run 4, Fire 1, Run 6, Run 5, Run 7, Client 0 (Some 7), Client 0 (Some 8), Run 7, Run 8,
     Run 9, Run 9, Fire 2, Run 9, Run 10, Run 10, Run 7, Run 9, Run 13, Run 14, Run 12, Run 15, Run 16]"

definition run_votes :: "nat event list" where
  "run_votes = [Run 0, Fire 0, Run 9, Run 9, Run 12, Run 9, Run 11, Fire 2, Run 12, Run 3, Fire 4, Run 15, Fire 4, Run 19,
     Run 11, Run 22, Run 11, Run 21, Run 21, Run 22, Run 25, Run 17, Run 25, Run 19, Run 24]"

lemma run_reach:
  assumes "case evs_run n evs (init_run n) of None \<Rightarrow> False | Some s \<Rightarrow> P (fst s) (snd s)"
  shows "\<exists>c ps. cl_reach n (with_procs (c, ps)) \<and> P c ps"
  using assms evs_run_reach [OF init_run_reach [of n], of evs] by (cases "evs_run n evs (init_run n)") (auto, blast)

lemma panic_run:
  "\<exists>(c :: nat cluster) r j. cl_reach 3 c \<and> HGo r j \<in># procs c \<and> proc_run 3 (HGo r j) c = None"
proof -
  have "case evs_run 3 run_panic (init_run 3) of None \<Rightarrow> False
      | Some s \<Rightarrow> 10 < length (snd s) \<and> (case snd s ! 10 of HGo r j \<Rightarrow> proc_run 3 (HGo r j) (fst s) = None | _ \<Rightarrow> False)" by code_simp
  from run_reach [where P = "\<lambda>c ps. 10 < length ps \<and> (case ps ! 10 of HGo r j \<Rightarrow> proc_run 3 (HGo r j) c = None | _ \<Rightarrow> False)", OF this]
  obtain c :: "nat cluster" and ps where r: "cl_reach 3 (with_procs (c, ps))" "10 < length ps"
    and c: "case ps ! 10 of HGo r j \<Rightarrow> proc_run 3 (HGo r j) c = None | _ \<Rightarrow> False" by blast
  from c obtain r j where g: "ps ! 10 = HGo r j" "proc_run 3 (HGo r j) c = None" by (cases "ps ! 10") simp_all
  with r have "HGo r j \<in># procs (with_procs (c, ps))" by (auto simp: with_procs_def in_set_conv_nth)
  moreover have "proc_run 3 (HGo r j) (with_procs (c, ps)) = None" using g(2) by (simp only: with_procs_def proc_run_procs fst_conv option.map)
  ultimately show ?thesis using r(1) by blast
qed

section \<open>What a group of peers guarantees\<close>

text \<open>
  C6. Election safety, as far as the code has it. Whoever becomes leader in a term was granted the
  votes of a majority in this term. If two different peers become leader in the same term, then a
  peer that voted for both had its vote erased by \<open>AppendEntries\<close>: it was candidate or leader and
  received a heartbeat of the term it was already in. Without such a reset a term has at most one
  elected leader, for every number of peers and every interleaving.
\<close>

theorem election_safety:
  assumes "cl_reach n c" and "0 < n" and "(a, t) \<in> elected c" and "(b, t) \<in> elected c"
  shows "majority n (grants c) a t
    \<and> (a = b \<or> (\<exists>v<n. (v, t) \<in> resets c \<and> (v, a, t) \<in> grants c \<and> (v, b, t) \<in> grants c))"
proof -
  have inv: "vote_inv n c" "count_inv n c" using cl_reach_votes [OF assms(1,2)] by auto
  from count_invD(5) [OF inv(2)] assms(3,4) have m: "majority n (grants c) a t" "majority n (grants c) b t" by auto
  from majority_intersect [OF this] obtain v where "(v, a, t) \<in> grants c" "(v, b, t) \<in> grants c" by blast
  then show ?thesis using inv(1) m(1) unfolding vote_inv_def by blast
qed

theorem election_safety_witness:
  "\<exists>c :: nat cluster. cl_reach 5 c \<and> (2, 2) \<in> elected c \<and> (4, 2) \<in> elected c
     \<and> (\<exists>v<5. (v, 2) \<in> resets c \<and> (v, 2, 2) \<in> grants c \<and> (v, 4, 2) \<in> grants c)"
proof -
  have "case evs_run 5 run_votes (init_run 5) of None \<Rightarrow> False | Some s \<Rightarrow> (2, 2) \<in> elected (fst s) \<and> (4, 2) \<in> elected (fst s)"
    by code_simp
  from run_reach [where P = "\<lambda>c ps. (2, 2) \<in> elected c \<and> (4, 2) \<in> elected c", OF this] obtain c :: "nat cluster" and ps where
    r: "cl_reach 5 (with_procs (c, ps))" "(2, 2) \<in> elected c" "(4, 2) \<in> elected c" by blast
  then have "(2, 2) \<in> elected (with_procs (c, ps))" "(4, 2) \<in> elected (with_procs (c, ps))" by (simp_all add: with_procs_def)
  with election_safety [OF r(1) _ this] r(1) show ?thesis by auto
qed

text \<open>
  C22. Invariant: in every reachable state every peer is well-formed: entry 0 is the dummy entry, the
  terms in the log do not decrease and do not exceed the current term, \<open>termToIndex\<close> points into the
  log, and a leader has a \<open>nextIndex\<close> inside its log for every peer. No step decreases a term.
\<close>

theorem raft_invariant:
  assumes "cl_reach n c" and "0 < n" and "i < n" and "cl_step n c c'"
  shows "node_ok n i (nodes c i) \<and> currentTerm (nodes c i) \<le> currentTerm (nodes c' i)"
  using cl_reach_inv [OF assms(1,2)] cl_step_inv [OF assms(4) _ assms(2)] assms(3) cl_inv_nodeD by (auto simp: cl_evolves_def)

theorem raft_invariant_witness:
  "node_ok 3 1 (nodes (cl_start 3 (\<lambda>_. MakePersister) :: nat cluster) 1)"
  using raft_invariant [OF cl_reach.start [of 3 "\<lambda>_. MakePersister"] _ _ cl_step.tick [of 0], of 1]
  by (simp add: cl_start_def)

text \<open>
  C23. Where a peer can panic. In every reachable state, every goroutine and message handler runs
  without a panic except in two places: a heartbeat goroutine whose peer is no longer the leader
  when it builds its message, and \<open>apply\<close> when the commit index lies beyond the end of the log.
\<close>

theorem only_panics:
  assumes "cl_reach n c" and "0 < n" and "p \<in># procs c" and "proc_run n p c = None"
  shows "(\<exists>r j. p = HGo r j \<and> rf_state (nodes c (fst (rounds c ! r))) \<noteq> LEADER)
    \<or> (\<exists>i. p = Applier i \<and> lastApplied (nodes c i) < commitIndex (nodes c i)
         \<and> int (length (rf_log (nodes c i))) \<le> lastApplied (nodes c i) + 1)"
proof -
  have inv: "cl_inv n c" using cl_reach_inv [OF assms(1,2)] .
  note ok = cl_inv_nodeD [OF inv] and p = cl_inv_procD [OF inv assms(3)]
  show ?thesis
  proof (cases p)
    case (Applier i)
    then show ?thesis using assms(4) ok [of i] p by (auto simp: apply_turn_def Let_def slice_get_def node_ok_def split: if_splits bind_splits)
  next
    case (HGo r j)
    then obtain i rd where "rounds c ! r = (i, rd)" "i < n" using p cl_inv_roundD [OF inv] by (cases "rounds c ! r") auto
    then show ?thesis using HGo assms(4) p hb_args_leader [OF ok, of i j] by (auto split: bind_splits)
  next
    case (Elect i)
    then show ?thesis using assms(4) p AttemptEletion_ok [OF ok, of i] by (auto split: bind_splits)
  next
    case (VReq e j)
    then obtain i el where ie: "elections c ! e = (i, el)" by (cases "elections c ! e")
    then show ?thesis using VReq assms(4) p cl_inv_electionD [OF inv _ ie] RequestVote_ok [OF ok, of j "el_args el"]
      by (auto split: bind_splits)
  next
    case (HReq r j a)
    then show ?thesis using assms(4) p AppendEntries_ok [OF ok, of j a] by (auto split: bind_splits)
  next
    case (HRep r j a q)
    then obtain i rd where ie: "rounds c ! r = (i, rd)" by (cases "rounds c ! r")
    then show ?thesis using HRep assms(4) p cl_inv_roundD [OF inv _ ie] hb_reply_ok [OF ok, of i j a q rd]
      by (auto split: bind_splits)
  qed (use assms(4) p in \<open>auto split: if_splits prod.splits\<close>)
qed

theorem only_panics_witness:
  "\<exists>(c :: nat cluster) r j. cl_reach 3 c \<and> proc_run 3 (HGo r j) c = None \<and> rf_state (nodes c (fst (rounds c ! r))) \<noteq> LEADER"
proof -
  obtain c :: "nat cluster" and r j where r: "cl_reach 3 c" "HGo r j \<in># procs c" "proc_run 3 (HGo r j) c = None"
    using panic_run by blast
  from only_panics [OF r(1) _ r(2,3)] have "rf_state (nodes c (fst (rounds c ! r))) \<noteq> LEADER" by simp
  with r(1,3) show ?thesis by blast
qed



text \<open>
  C37. \<open>RequestVote\<close> moves a leader to the later term of a candidate without making it step down.
  Three peers can reach a state in which two of them report at the same time that they are the
  leader of term 2.
\<close>

theorem two_leaders_in_a_term:
  "\<exists>c :: nat cluster. cl_reach 3 c \<and> GetState (nodes c 0) = (2, True) \<and> GetState (nodes c 2) = (2, True)"
proof -
  have "case evs_run 3 run_leaders (init_run 3) of None \<Rightarrow> False
      | Some s \<Rightarrow> GetState (nodes (fst s) 0) = (2, True) \<and> GetState (nodes (fst s) 2) = (2, True)" by code_simp
  from run_reach [where P = "\<lambda>c ps. GetState (nodes c 0) = (2, True) \<and> GetState (nodes c 2) = (2, True)", OF this]
  show ?thesis by (auto simp: with_procs_def)
qed

text \<open>
  C38. Because a candidate acknowledges entries it does not store, the services of two peers can be
  given different commands for the same index: state machine safety fails for three peers.
\<close>

theorem applied_divergence:
  "\<exists>c :: nat cluster. cl_reach 3 c \<and> map am_Command (applied c 0) = [Some 7] \<and> map am_Command (applied c 2) = [Some 8]
     \<and> map CommandIndex (applied c 0) = [1] \<and> map CommandIndex (applied c 2) = [1]"
proof -
  let ?P = "\<lambda>c. map am_Command (applied c 0) = [Some 7] \<and> map am_Command (applied c 2) = [Some 8]
     \<and> map CommandIndex (applied c 0) = [1] \<and> map CommandIndex (applied c 2) = [1]"
  have "case evs_run 3 run_commit (init_run 3) of None \<Rightarrow> False | Some s \<Rightarrow> ?P (fst s)" by code_simp
  from run_reach [where P = "\<lambda>c ps. ?P c", OF this] show ?thesis by (auto simp: with_procs_def)
qed

text \<open>
  C39. A heartbeat goroutine that runs after its peer stepped down uses the \<open>nextIndex\<close> of the old
  leadership on a log that may have become shorter: the index out of range is reachable.
\<close>

theorem stale_heartbeat_panics:
  "\<exists>(c :: nat cluster) r j. cl_reach 3 c \<and> HGo r j \<in># procs c \<and> proc_run 3 (HGo r j) c = None"
  by (rule panic_run)

end
