(* ===== verification/Lab_Rpc.thy ===== *)
theory Lab_Rpc
  imports Go_Prelude
begin

text \<open>
  The simulated network of \<open>labrpc/labrpc.go\<close>: services and their dispatch, the tables of the
  network, and the life of a call from \<open>ClientEnd.Call\<close> through \<open>processReq\<close> to its reply, as a step
  relation in which the calls, the handlers and the administration of the network interleave. The
  random choices of \<open>processReq\<close> are choices of the step relation.

  Type variables: \<open>'n\<close> the names of ends and servers, \<open>'w\<close> the state of the objects whose methods are
  called, \<open>'v\<close> the values of arguments and replies. Decoding and encoding (\<open>labgob\<close>) are the arguments
  \<open>dec\<close> and \<open>enc\<close>; a handler that panics returns \<open>None\<close>. A server is known by its address, since the
  code compares pointers.
\<close>

section \<open>Messages and services\<close>

type_synonym octets = "8 word list"

record 'n reqMsg =
  req_endname :: 'n
  svcMeth :: string
  argsType :: nat
  req_args :: octets

record replyMsg =
  rep_ok :: bool
  rep_reply :: octets

definition no_reply :: replyMsg where
  "no_reply = \<lparr>rep_ok = False, rep_reply = []\<rparr>"

record ('w, 'v) Method =
  m_Name :: string
  m_PkgPath :: string
  m_NumIn :: nat
  m_In2_Ptr :: bool
  m_NumOut :: nat
  m_Func :: "'w \<Rightarrow> 'v \<Rightarrow> ('w \<times> 'v) option"

record ('w, 'v) Service =
  svc_name :: string
  svc_methods :: "string \<rightharpoonup> ('w, 'v) Method"

definition MakeService :: "string \<Rightarrow> ('w, 'v) Method list \<Rightarrow> ('w, 'v) Service" where
  "MakeService typ_name typ_methods = \<lparr>svc_name = typ_name,
     svc_methods = foldl (\<lambda>ms m. if m_PkgPath m \<noteq> [] \<or> m_NumIn m \<noteq> 3 \<or> \<not> m_In2_Ptr m \<or> m_NumOut m \<noteq> 0 then ms
                                  else ms(m_Name m \<mapsto> m)) Map.empty typ_methods\<rparr>"

definition Service_dispatch :: "(nat \<Rightarrow> octets \<Rightarrow> 'v) \<Rightarrow> ('v \<Rightarrow> octets) \<Rightarrow> ('w, 'v) Service \<Rightarrow> string \<Rightarrow> 'n reqMsg \<Rightarrow> 'w
    \<Rightarrow> ('w \<times> replyMsg) option" where
  "Service_dispatch dec enc svc methname req w =
     (case svc_methods svc methname of
        Some method \<Rightarrow> do {
          let args = dec (argsType req) (req_args req);
          (w, replyv) \<leftarrow> m_Func method w args;
          Some (w, \<lparr>rep_ok = True, rep_reply = enc replyv\<rparr>) }
      | None \<Rightarrow> None)"

record ('w, 'v) Server =
  services :: "string \<rightharpoonup> ('w, 'v) Service"
  srv_count :: int

definition MakeServer :: "('w, 'v) Server" where
  "MakeServer = \<lparr>services = Map.empty, srv_count = 0\<rparr>"

definition AddService :: "('w, 'v) Service \<Rightarrow> ('w, 'v) Server \<Rightarrow> ('w, 'v) Server" where
  "AddService svc rs = rs \<lparr>services := (services rs)(svc_name svc \<mapsto> svc)\<rparr>"

text \<open>\<open>strings.LastIndex(s, ".")\<close>: the position of the last dot, or -1.\<close>

definition LastIndex_dot :: "string \<Rightarrow> int" where
  "LastIndex_dot s = int (length (dropWhile (\<lambda>c. c \<noteq> CHR ''.'') (rev s))) - 1"

definition Server_dispatch :: "(nat \<Rightarrow> octets \<Rightarrow> 'v) \<Rightarrow> ('v \<Rightarrow> octets) \<Rightarrow> 'n reqMsg \<Rightarrow> ('w, 'v) Server \<Rightarrow> 'w
    \<Rightarrow> (('w, 'v) Server \<times> 'w \<times> replyMsg) option" where
  "Server_dispatch dec enc req rs w =
     (let rs = rs \<lparr>srv_count := srv_count rs + 1\<rparr>; dot = LastIndex_dot (svcMeth req) in do {
        serviceName \<leftarrow> slice_to (svcMeth req) dot;
        methodName \<leftarrow> slice_from (svcMeth req) (dot + 1);
        service \<leftarrow> services rs serviceName;
        (w, reply) \<leftarrow> Service_dispatch dec enc service methodName req w;
        Some (rs, w, reply) })"

definition Server_GetCount :: "('w, 'v) Server \<Rightarrow> int" where
  "Server_GetCount rs = srv_count rs"

section \<open>The network\<close>

record 'n ClientEnd =
  ce_endname :: 'n

record 'n Network =
  reliable :: bool
  longDelays :: bool
  longReordering :: bool
  ends :: "'n \<rightharpoonup> 'n ClientEnd"
  enabled :: "'n \<rightharpoonup> bool"
  servers :: "'n \<rightharpoonup> nat option"
  connections :: "'n \<rightharpoonup> 'n option"
  net_done :: bool
  net_count :: "32 word"
  net_bytes :: "64 word"

definition MakeNetwork :: "'n Network" where
  "MakeNetwork = \<lparr>reliable = True, longDelays = False, longReordering = False, ends = Map.empty, enabled = Map.empty,
     servers = Map.empty, connections = Map.empty, net_done = False, net_count = 0, net_bytes = 0\<rparr>"

definition Cleanup :: "'n Network \<Rightarrow> 'n Network option" where
  "Cleanup rn = (if net_done rn then None else Some (rn \<lparr>net_done := True\<rparr>))"

definition Reliable :: "bool \<Rightarrow> 'n Network \<Rightarrow> 'n Network" where
  "Reliable yes rn = rn \<lparr>reliable := yes\<rparr>"

definition LongReordering :: "bool \<Rightarrow> 'n Network \<Rightarrow> 'n Network" where
  "LongReordering yes rn = rn \<lparr>longReordering := yes\<rparr>"

definition LongDelays :: "bool \<Rightarrow> 'n Network \<Rightarrow> 'n Network" where
  "LongDelays yes rn = rn \<lparr>longDelays := yes\<rparr>"

definition readEndnameInfo :: "'n \<Rightarrow> 'n Network \<Rightarrow> bool \<times> 'n option \<times> nat option \<times> bool \<times> bool" where
  "readEndnameInfo endname rn =
     (let en = map_get0 False (enabled rn) endname; servername = map_get0 None (connections rn) endname;
          server = (case servername of None \<Rightarrow> None | Some sn \<Rightarrow> map_get0 None (servers rn) sn)
      in (en, servername, server, reliable rn, longReordering rn))"

definition isServerDead :: "'n \<Rightarrow> 'n \<Rightarrow> nat \<Rightarrow> 'n Network \<Rightarrow> bool" where
  "isServerDead endname servername server rn =
     (if map_get0 False (enabled rn) endname = False \<or> map_get0 None (servers rn) servername \<noteq> Some server then True else False)"

definition MakeEnd :: "'n \<Rightarrow> 'n Network \<Rightarrow> ('n Network \<times> 'n ClientEnd) option" where
  "MakeEnd endname rn = (if ends rn endname \<noteq> None then None
     else let e = \<lparr>ce_endname = endname\<rparr> in
       Some (rn \<lparr>ends := (ends rn)(endname \<mapsto> e), enabled := (enabled rn)(endname \<mapsto> False),
                 connections := (connections rn)(endname \<mapsto> None)\<rparr>, e))"

definition AddServer :: "'n \<Rightarrow> nat \<Rightarrow> 'n Network \<Rightarrow> 'n Network" where
  "AddServer servername rs rn = rn \<lparr>servers := (servers rn)(servername \<mapsto> Some rs)\<rparr>"

definition DeleteServer :: "'n \<Rightarrow> 'n Network \<Rightarrow> 'n Network" where
  "DeleteServer servername rn = rn \<lparr>servers := (servers rn)(servername \<mapsto> None)\<rparr>"

definition Connect :: "'n \<Rightarrow> 'n \<Rightarrow> 'n Network \<Rightarrow> 'n Network" where
  "Connect endname servername rn = rn \<lparr>connections := (connections rn)(endname \<mapsto> Some servername)\<rparr>"

definition Enable :: "'n \<Rightarrow> bool \<Rightarrow> 'n Network \<Rightarrow> 'n Network" where
  "Enable endname en rn = rn \<lparr>enabled := (enabled rn)(endname \<mapsto> en)\<rparr>"

text \<open>The count of a server that does not exist, or was deleted, is a nil dereference.\<close>

definition GetCount :: "'n \<Rightarrow> 'n Network \<Rightarrow> (nat \<Rightarrow> ('w, 'v) Server) \<Rightarrow> int option" where
  "GetCount servername rn srv = (case map_get0 None (servers rn) servername of None \<Rightarrow> None | Some p \<Rightarrow> Some (Server_GetCount (srv p)))"

definition GetTotalCount :: "'n Network \<Rightarrow> int" where
  "GetTotalCount rn = sint (net_count rn)"

definition GetTotalBytes :: "'n Network \<Rightarrow> int" where
  "GetTotalBytes rn = sint (net_bytes rn)"

section \<open>Calls\<close>

text \<open>
  The stages of a call: \<open>Queued\<close>, received by the goroutine of \<open>MakeNetwork\<close>; \<open>Working\<close>, in
  \<open>processReq\<close> with what \<open>readEndnameInfo\<close> returned; \<open>Delayed\<close>, the reply waits for a timer;
  \<open>Returned\<close>. \<open>c_ran\<close> is what the goroutine that runs the handler sends on \<open>ech\<close>; it may run after
  the caller has stopped waiting.
\<close>

record 'n info =
  i_servername :: 'n
  i_server :: nat
  i_reliable :: bool
  i_longreordering :: bool

datatype stage = Queued | Working | Delayed replyMsg | Returned replyMsg

record 'n call =
  c_req :: "'n reqMsg"
  c_stage :: stage
  c_info :: "'n info option"
  c_ran :: "replyMsg option"

text \<open>\<open>sent\<close> and \<open>executed\<close> record the history: how many requests were received, which handlers ran.\<close>

record ('n, 'w, 'v) rpc =
  net :: "'n Network"
  serving :: bool
  srv :: "nat \<Rightarrow> ('w, 'v) Server"
  world :: 'w
  calls :: "'n call list"
  sent :: nat
  executed :: "nat list"

definition new_call :: "'n reqMsg \<Rightarrow> stage \<Rightarrow> 'n call" where
  "new_call req st = \<lparr>c_req = req, c_stage = st, c_info = None, c_ran = None\<rparr>"

definition accept :: "'n reqMsg \<Rightarrow> 'n Network \<Rightarrow> 'n Network" where
  "accept xreq rn = rn \<lparr>net_count := net_count rn + 1, net_bytes := net_bytes rn + of_nat (length (req_args xreq))\<rparr>"

definition add_reply_bytes :: "replyMsg \<Rightarrow> 'n Network \<Rightarrow> 'n Network" where
  "add_reply_bytes r rn = rn \<lparr>net_bytes := net_bytes rn + of_nat (length (rep_reply r))\<rparr>"

text \<open>The first part of \<open>processReq\<close>: the server to call, if the request gets that far.\<close>

definition reach_server :: "'n reqMsg \<Rightarrow> 'n Network \<Rightarrow> 'n info option" where
  "reach_server req rn = (case readEndnameInfo (req_endname req) rn of (en, servername, server, rel, lng) \<Rightarrow>
     if en \<and> servername \<noteq> None \<and> server \<noteq> None
     then Some \<lparr>i_servername = the servername, i_server = the server, i_reliable = rel, i_longreordering = lng\<rparr> else None)"

text \<open>The last part: the stages a call may get to when its reply is there.\<close>

definition outcomes :: "'n reqMsg \<Rightarrow> 'n info \<Rightarrow> replyMsg \<Rightarrow> 'n Network \<Rightarrow> stage set" where
  "outcomes req i reply rn =
     (if isServerDead (req_endname req) (i_servername i) (i_server i) rn then {Returned no_reply}
      else (if \<not> i_reliable i then {Returned no_reply} else {})
         \<union> (if i_longreordering i then {Delayed reply} else {}) \<union> {Returned reply})"

definition stage_bytes :: "stage \<Rightarrow> replyMsg \<Rightarrow> 'n Network \<Rightarrow> 'n Network" where
  "stage_bytes st reply rn = (if st = Returned reply \<and> rep_ok reply then add_reply_bytes reply rn else rn)"

inductive admin :: "'n Network \<Rightarrow> 'n Network \<Rightarrow> bool" where
  "admin rn (Reliable b rn)"
| "admin rn (LongReordering b rn)"
| "admin rn (LongDelays b rn)"
| "MakeEnd e rn = Some (rn', ce) \<Longrightarrow> admin rn rn'"
| "admin rn (AddServer sn p rn)"
| "admin rn (DeleteServer sn rn)"
| "admin rn (Connect e sn rn)"
| "admin rn (Enable e b rn)"
| "Cleanup rn = Some rn' \<Longrightarrow> admin rn rn'"

inductive rpc_step :: "(nat \<Rightarrow> octets \<Rightarrow> 'v) \<Rightarrow> ('v \<Rightarrow> octets) \<Rightarrow> ('n, 'w, 'v) rpc \<Rightarrow> ('n, 'w, 'v) rpc \<Rightarrow> bool" for dec enc where
  send: "serving s \<Longrightarrow>
    rpc_step dec enc s (s \<lparr>net := accept req (net s), calls := calls s @ [new_call req Queued], sent := sent s + 1\<rparr>)"
| refuse: "net_done (net s) \<Longrightarrow> rpc_step dec enc s (s \<lparr>calls := calls s @ [new_call req (Returned no_reply)]\<rparr>)"
| stop: "net_done (net s) \<Longrightarrow> rpc_step dec enc s (s \<lparr>serving := False\<rparr>)"
| begin_: "k < length (calls s) \<Longrightarrow> c_stage (calls s ! k) = Queued \<Longrightarrow> reach_server (c_req (calls s ! k)) (net s) = Some i \<Longrightarrow>
    rpc_step dec enc s (s \<lparr>calls := (calls s)[k := (calls s ! k) \<lparr>c_stage := Working, c_info := Some i\<rparr>]\<rparr>)"
| drop_request: "k < length (calls s) \<Longrightarrow> c_stage (calls s ! k) = Queued \<Longrightarrow> reach_server (c_req (calls s ! k)) (net s) = Some i \<Longrightarrow>
    \<not> i_reliable i \<Longrightarrow>
    rpc_step dec enc s (s \<lparr>calls := (calls s)[k := (calls s ! k) \<lparr>c_stage := Returned no_reply\<rparr>]\<rparr>)"
| unreachable: "k < length (calls s) \<Longrightarrow> c_stage (calls s ! k) = Queued \<Longrightarrow> reach_server (c_req (calls s ! k)) (net s) = None \<Longrightarrow>
    rpc_step dec enc s (s \<lparr>calls := (calls s)[k := (calls s ! k) \<lparr>c_stage := Returned no_reply\<rparr>]\<rparr>)"
| handler: "k < length (calls s) \<Longrightarrow> c_info (calls s ! k) = Some i \<Longrightarrow> c_ran (calls s ! k) = None \<Longrightarrow>
    Server_dispatch dec enc (c_req (calls s ! k)) (srv s (i_server i)) (world s) = Some (rs, w, r) \<Longrightarrow>
    rpc_step dec enc s (s \<lparr>srv := (srv s)(i_server i := rs), world := w,
      calls := (calls s)[k := (calls s ! k) \<lparr>c_ran := Some r\<rparr>], executed := executed s @ [k]\<rparr>)"
| notice_dead: "k < length (calls s) \<Longrightarrow> c_stage (calls s ! k) = Working \<Longrightarrow> c_info (calls s ! k) = Some i \<Longrightarrow>
    isServerDead (req_endname (c_req (calls s ! k))) (i_servername i) (i_server i) (net s) \<Longrightarrow>
    rpc_step dec enc s (s \<lparr>calls := (calls s)[k := (calls s ! k) \<lparr>c_stage := Returned no_reply\<rparr>]\<rparr>)"
| finish: "k < length (calls s) \<Longrightarrow> c_stage (calls s ! k) = Working \<Longrightarrow> c_info (calls s ! k) = Some i \<Longrightarrow> c_ran (calls s ! k) = Some r \<Longrightarrow>
    st \<in> outcomes (c_req (calls s ! k)) i r (net s) \<Longrightarrow>
    rpc_step dec enc s (s \<lparr>net := stage_bytes st r (net s), calls := (calls s)[k := (calls s ! k) \<lparr>c_stage := st\<rparr>]\<rparr>)"
| late: "k < length (calls s) \<Longrightarrow> c_stage (calls s ! k) = Delayed r \<Longrightarrow>
    rpc_step dec enc s (s \<lparr>net := add_reply_bytes r (net s), calls := (calls s)[k := (calls s ! k) \<lparr>c_stage := Returned r\<rparr>]\<rparr>)"
| administer: "admin (net s) rn \<Longrightarrow> rpc_step dec enc s (s \<lparr>net := rn\<rparr>)"

definition rpc_start :: "(nat \<Rightarrow> ('w, 'v) Server) \<Rightarrow> 'w \<Rightarrow> ('n, 'w, 'v) rpc" where
  "rpc_start servs w = \<lparr>net = MakeNetwork, serving = True, srv = servs, world = w, calls = [], sent = 0, executed = []\<rparr>"

text \<open>What \<open>Call\<close> gives its caller: success and the decoded reply. \<open>None\<close> is a reply that cannot be decoded.\<close>

definition Call_result :: "(octets \<Rightarrow> 'v option) \<Rightarrow> replyMsg \<Rightarrow> 'v \<Rightarrow> (bool \<times> 'v) option" where
  "Call_result decr rep reply = (if rep_ok rep then (case decr (rep_reply rep) of None \<Rightarrow> None | Some v \<Rightarrow> Some (True, v))
     else Some (False, reply))"

section \<open>Dispatch\<close>

lemma LastIndex_dot_split: "CHR ''.'' \<notin> set mn \<Longrightarrow> LastIndex_dot (sn @ CHR ''.'' # mn) = int (length sn)"
proof -
  assume "CHR ''.'' \<notin> set mn"
  then have "\<forall>c\<in>set (rev mn). c \<noteq> CHR ''.''" by auto
  then have "dropWhile (\<lambda>c. c \<noteq> CHR ''.'') (rev mn @ CHR ''.'' # rev sn) = CHR ''.'' # rev sn" by (subst dropWhile_append2) auto
  then show ?thesis by (simp add: LastIndex_dot_def)
qed

lemma Server_dispatch_split:
  assumes "svcMeth req = sn @ CHR ''.'' # mn" "CHR ''.'' \<notin> set mn"
  shows "Server_dispatch dec enc req rs w = (case services rs sn of None \<Rightarrow> None
     | Some svc \<Rightarrow> map_option (\<lambda>(w, r). (rs \<lparr>srv_count := srv_count rs + 1\<rparr>, w, r)) (Service_dispatch dec enc svc mn req w))"
  using assms LastIndex_dot_split [OF assms(2), of sn]
  by (auto simp: Server_dispatch_def Let_def slice_to_def slice_from_def nat_add_distrib split: option.split bind_split)

lemma Server_dispatch_ok: "Server_dispatch dec enc req rs w = Some (rs', w', r) \<Longrightarrow> rep_ok r"
  by (auto simp: Server_dispatch_def Service_dispatch_def Let_def split: bind_splits option.splits)

section \<open>Invariant of the calls\<close>

definition call_ok :: "'n call \<Rightarrow> bool" where
  "call_ok c \<longleftrightarrow> (\<forall>r. c_ran c = Some r \<longrightarrow> rep_ok r \<and> c_info c \<noteq> None)
     \<and> (case c_stage c of Queued \<Rightarrow> c_info c = None | Working \<Rightarrow> c_info c \<noteq> None
        | Delayed r \<Rightarrow> c_ran c = Some r | Returned r \<Rightarrow> rep_ok r \<longrightarrow> c_ran c = Some r)"

definition rpc_inv :: "('n, 'w, 'v) rpc \<Rightarrow> bool" where
  "rpc_inv s \<longleftrightarrow> (\<forall>c\<in>set (calls s). call_ok c) \<and> distinct (executed s)
     \<and> (\<forall>k. k \<in> set (executed s) \<longleftrightarrow> k < length (calls s) \<and> c_ran (calls s ! k) \<noteq> None)
     \<and> net_count (net s) = of_nat (sent s)"

lemma no_reply_not_ok [simp]: "\<not> rep_ok no_reply"
  by (simp add: no_reply_def)

lemma net_count_simps [simp]:
  "net_count (add_reply_bytes r rn) = net_count rn" "net_count (stage_bytes st r rn) = net_count rn"
  "net_count (accept req rn) = net_count rn + 1"
  by (simp_all add: add_reply_bytes_def stage_bytes_def accept_def)

lemma admin_count: "admin rn rn' \<Longrightarrow> net_count rn' = net_count rn"
  by (induction rule: admin.induct)
    (auto simp: Reliable_def LongReordering_def LongDelays_def MakeEnd_def AddServer_def DeleteServer_def Connect_def Enable_def
      Cleanup_def Let_def split: if_splits)

text \<open>A step on call \<open>k\<close> that does not run its handler, and a step that adds a call.\<close>

lemma rpc_inv_update:
  assumes "rpc_inv s" "k < length (calls s)" "call_ok c" "c_ran c = c_ran (calls s ! k)" "net_count rn = net_count (net s)"
  shows "rpc_inv (s \<lparr>net := rn, calls := (calls s)[k := c]\<rparr>)"
  using assms set_update_subset_insert [of "calls s" k c] unfolding rpc_inv_def by (auto simp: nth_list_update)

lemma rpc_inv_add:
  assumes "rpc_inv s" "call_ok c" "c_ran c = None" "net_count rn = of_nat m"
  shows "rpc_inv (s \<lparr>net := rn, calls := calls s @ [c], sent := m\<rparr>)"
  using assms unfolding rpc_inv_def by (auto simp: nth_append)

lemma call_okD: "rpc_inv s \<Longrightarrow> k < length (calls s) \<Longrightarrow> call_ok (calls s ! k)"
  by (simp add: rpc_inv_def)

lemma rpc_step_inv:
  assumes "rpc_step dec enc s s'" "rpc_inv s"
  shows "rpc_inv s'"
  using assms(1)
proof cases
  case (send req)
  then show ?thesis using rpc_inv_add [OF assms(2), of "new_call req Queued" "accept req (net s)" "sent s + 1"] assms(2)
    by (simp add: call_ok_def new_call_def rpc_inv_def)
next
  case (refuse req)
  then show ?thesis using rpc_inv_add [OF assms(2), of "new_call req (Returned no_reply)" "net s" "sent s"] assms(2)
    by (simp add: call_ok_def new_call_def rpc_inv_def)
next
  case (begin_ k i)
  then show ?thesis using rpc_inv_update [OF assms(2), of k "(calls s ! k) \<lparr>c_stage := Working, c_info := Some i\<rparr>" "net s"] call_okD [OF assms(2)]
    by (simp add: call_ok_def)
next
  case (drop_request k i)
  then show ?thesis using rpc_inv_update [OF assms(2), of k "(calls s ! k) \<lparr>c_stage := Returned no_reply\<rparr>" "net s"] call_okD [OF assms(2)]
    by (simp add: call_ok_def)
next
  case (unreachable k)
  then show ?thesis using rpc_inv_update [OF assms(2), of k "(calls s ! k) \<lparr>c_stage := Returned no_reply\<rparr>" "net s"] call_okD [OF assms(2)]
    by (simp add: call_ok_def)
next
  case (handler k i rs w r)
  have "call_ok ((calls s ! k) \<lparr>c_ran := Some r\<rparr>)"
    using call_okD [OF assms(2) handler(2)] handler(3,4) Server_dispatch_ok [OF handler(5)] by (auto simp: call_ok_def split: stage.splits)
  moreover have "k \<notin> set (executed s)" using assms(2) handler(4) by (simp add: rpc_inv_def)
  ultimately show ?thesis using assms(2) handler(1,2) set_update_subset_insert [of "calls s" k] unfolding rpc_inv_def
    by (fastforce simp: nth_list_update)
next
  case (notice_dead k i)
  then show ?thesis using rpc_inv_update [OF assms(2), of k "(calls s ! k) \<lparr>c_stage := Returned no_reply\<rparr>" "net s"] call_okD [OF assms(2)]
    by (simp add: call_ok_def)
next
  case (finish k i r st)
  have "call_ok ((calls s ! k) \<lparr>c_stage := st\<rparr>)"
    using call_okD [OF assms(2) finish(2)] finish(4-6) by (auto simp: call_ok_def outcomes_def split: if_splits)
  then show ?thesis using rpc_inv_update [OF assms(2) finish(2), of "(calls s ! k) \<lparr>c_stage := st\<rparr>" "stage_bytes st r (net s)"] finish(1) by simp
next
  case (late k r)
  have "call_ok ((calls s ! k) \<lparr>c_stage := Returned r\<rparr>)" using call_okD [OF assms(2) late(2)] late(3) by (simp add: call_ok_def)
  then show ?thesis using rpc_inv_update [OF assms(2) late(2), of "(calls s ! k) \<lparr>c_stage := Returned r\<rparr>" "add_reply_bytes r (net s)"] late(1)
    by simp
qed (use assms(2) in \<open>auto simp: rpc_inv_def dest: admin_count\<close>)

lemma rpc_reach_inv: "(rpc_step dec enc)\<^sup>*\<^sup>* (rpc_start servs w) s \<Longrightarrow> rpc_inv s"
proof (induction rule: rtranclp_induct)
  case base
  show ?case by (simp add: rpc_inv_def rpc_start_def MakeNetwork_def)
qed (rule rpc_step_inv)

section \<open>A concrete network\<close>

text \<open>
  A healthy end: the network is reliable, the end enabled and connected to a live server.
  \<open>quiet\<close> steps leave the tables of the network alone.
\<close>

definition healthy :: "'n Network \<Rightarrow> 'n \<Rightarrow> bool" where
  "healthy rn e \<longleftrightarrow> reliable rn \<and> \<not> net_done rn \<and> enabled rn e = Some True
     \<and> (\<exists>sn p. connections rn e = Some (Some sn) \<and> servers rn sn = Some (Some p))"

definition same_tables :: "'n Network \<Rightarrow> 'n Network \<Rightarrow> bool" where
  "same_tables rn rn' \<longleftrightarrow> reliable rn' = reliable rn \<and> enabled rn' = enabled rn \<and> connections rn' = connections rn
     \<and> servers rn' = servers rn \<and> net_done rn' = net_done rn"

definition quiet :: "(nat \<Rightarrow> octets \<Rightarrow> 'v) \<Rightarrow> ('v \<Rightarrow> octets) \<Rightarrow> ('n, 'w, 'v) rpc \<Rightarrow> ('n, 'w, 'v) rpc \<Rightarrow> bool" where
  "quiet dec enc s s' \<longleftrightarrow> rpc_step dec enc s s' \<and> same_tables (net s) (net s')"

text \<open>
  A concrete network: the server at address 0 has a service \<open>S\<close> with a method \<open>Inc\<close> that counts its
  calls; end 0 is enabled and connected to it.
\<close>

definition sample_inc :: "(nat, nat) Method" where
  "sample_inc = \<lparr>m_Name = ''Inc'', m_PkgPath = [], m_NumIn = 3, m_In2_Ptr = True, m_NumOut = 0, m_Func = (\<lambda>w v. Some (w + 1, w))\<rparr>"

definition sample_srv :: "nat \<Rightarrow> (nat, nat) Server" where
  "sample_srv p = AddService (MakeService ''S'' [sample_inc]) MakeServer"

definition sample_net :: "nat Network" where
  "sample_net = Enable 0 True (Connect 0 5 (AddServer 5 0 (fst (the (MakeEnd 0 MakeNetwork)))))"

definition sample_req :: "nat reqMsg" where
  "sample_req = \<lparr>req_endname = 0, svcMeth = ''S.Inc'', argsType = 0, req_args = []\<rparr>"

abbreviation sample_step :: "(nat, nat, nat) rpc \<Rightarrow> (nat, nat, nat) rpc \<Rightarrow> bool" where
  "sample_step \<equiv> rpc_step (\<lambda>_ _. 0) (\<lambda>v. replicate v 1)"

lemmas sample_rpc_simps = sample_net_def sample_srv_def sample_inc_def sample_req_def Enable_def Connect_def AddServer_def MakeEnd_def
  MakeNetwork_def AddService_def MakeService_def MakeServer_def new_call_def

definition sample_idle :: "(nat, nat, nat) rpc" where
  "sample_idle = (rpc_start sample_srv 7) \<lparr>net := sample_net\<rparr>"

definition sample_ran :: "(nat, nat, nat) rpc" where
  "sample_ran = \<lparr>net = accept sample_req sample_net, serving = True, srv = (\<lambda>p. if p = 0 then (sample_srv 0) \<lparr>srv_count := 1\<rparr> else sample_srv p),
     world = 8, calls = [\<lparr>c_req = sample_req, c_stage = Working,
       c_info = Some \<lparr>i_servername = 5, i_server = 0, i_reliable = True, i_longreordering = False\<rparr>,
       c_ran = Some \<lparr>rep_ok = True, rep_reply = replicate 7 1\<rparr>\<rparr>], sent = 1, executed = [0]\<rparr>"

definition sample_returned :: "(nat, nat, nat) rpc" where
  "sample_returned = sample_ran \<lparr>net := add_reply_bytes \<lparr>rep_ok = True, rep_reply = replicate 7 1\<rparr> (net sample_ran),
     calls := [(calls sample_ran ! 0) \<lparr>c_stage := Returned \<lparr>rep_ok = True, rep_reply = replicate 7 1\<rparr>\<rparr>]\<rparr>"

lemma sample_setup: "sample_step\<^sup>*\<^sup>* (rpc_start sample_srv 7) sample_idle"
proof -
  let ?s = "\<lambda>rn. (rpc_start sample_srv 7 :: (nat, nat, nat) rpc) \<lparr>net := rn\<rparr>"
  have step: "sample_step (?s rn) (?s rn')" if "admin rn rn'" for rn rn' using rpc_step.administer [of "?s rn" rn'] that by simp
  let ?n1 = "fst (the (MakeEnd 0 MakeNetwork)) :: nat Network"
  have "admin (MakeNetwork :: nat Network) ?n1" by (rule admin.intros(4) [of 0 _ _ "\<lparr>ce_endname = 0\<rparr>"]) (simp add: MakeEnd_def MakeNetwork_def Let_def)
  from step [OF this] have "sample_step\<^sup>*\<^sup>* (?s MakeNetwork) (?s ?n1)" by blast
  also have "sample_step (?s ?n1) (?s (AddServer 5 0 ?n1))" by (rule step [OF admin.intros(5)])
  also have "sample_step (?s (AddServer 5 0 ?n1)) (?s (Connect 0 5 (AddServer 5 0 ?n1)))" by (rule step [OF admin.intros(7)])
  also have "sample_step (?s (Connect 0 5 (AddServer 5 0 ?n1))) (?s sample_net)" unfolding sample_net_def by (rule step [OF admin.intros(8)])
  finally show ?thesis by (simp add: sample_idle_def rpc_start_def)
qed

lemma sample_quiet: "(quiet (\<lambda>_ _. 0) (\<lambda>v. replicate v 1))\<^sup>*\<^sup>* sample_idle sample_ran" "quiet (\<lambda>_ _. 0) (\<lambda>v. replicate v 1) sample_ran sample_returned"
proof -
  let ?i = "\<lparr>i_servername = 5, i_server = 0, i_reliable = True, i_longreordering = False\<rparr>"
  define s1 where s1: "s1 = sample_idle \<lparr>net := accept sample_req sample_net, calls := [new_call sample_req Queued], sent := 1\<rparr>"
  define s2 where s2: "s2 = s1 \<lparr>calls := [(new_call sample_req Queued) \<lparr>c_stage := Working, c_info := Some ?i\<rparr>]\<rparr>"
  have "sample_step sample_idle s1" using rpc_step.send [of sample_idle "\<lambda>_ _. 0" "\<lambda>v. replicate v 1" sample_req]
    by (simp add: s1 sample_idle_def rpc_start_def)
  moreover have "sample_step s1 s2" using rpc_step.begin_ [of 0 s1 ?i "\<lambda>_ _. 0" "\<lambda>v. replicate v 1"]
    by (simp add: s1 s2 sample_rpc_simps accept_def reach_server_def readEndnameInfo_def map_get0_def Let_def)
  moreover have "sample_step s2 sample_ran"
  proof -
    have "Server_dispatch (\<lambda>_ _. 0) (\<lambda>v. replicate v 1) sample_req (sample_srv 0) 7 =
        Some ((sample_srv 0) \<lparr>srv_count := 1\<rparr>, 8, \<lparr>rep_ok = True, rep_reply = replicate 7 1\<rparr>)"
      by (subst Server_dispatch_split [of _ "''S''" "''Inc''"]) (simp_all add: sample_rpc_simps Service_dispatch_def)
    then show ?thesis using rpc_step.handler [of 0 s2 ?i "\<lambda>_ _. 0" "\<lambda>v. replicate v 1"]
      by (simp add: s1 s2 sample_idle_def rpc_start_def sample_ran_def new_call_def fun_upd_def)
  qed
  ultimately show "(quiet (\<lambda>_ _. 0) (\<lambda>v. replicate v 1))\<^sup>*\<^sup>* sample_idle sample_ran"
    by (intro converse_rtranclp_into_rtranclp [of _ sample_idle s1] converse_rtranclp_into_rtranclp [of _ s1 s2] r_into_rtranclp)
      (auto simp: quiet_def same_tables_def s1 s2 sample_idle_def sample_ran_def accept_def)
  have "sample_step sample_ran sample_returned"
    using rpc_step.finish [of 0 sample_ran ?i "\<lparr>rep_ok = True, rep_reply = replicate 7 1\<rparr>" "Returned \<lparr>rep_ok = True, rep_reply = replicate 7 1\<rparr>" "\<lambda>_ _. 0" "\<lambda>v. replicate v 1"]
    by (simp add: sample_ran_def sample_returned_def outcomes_def stage_bytes_def isServerDead_def map_get0_def sample_rpc_simps accept_def)
  then show "quiet (\<lambda>_ _. 0) (\<lambda>v. replicate v 1) sample_ran sample_returned"
    by (simp add: quiet_def same_tables_def sample_returned_def add_reply_bytes_def)
qed

lemma sample_reached: "sample_step\<^sup>*\<^sup>* (rpc_start sample_srv 7) sample_ran" "sample_step sample_ran sample_returned"
  "sample_step\<^sup>*\<^sup>* (rpc_start sample_srv 7) sample_returned"
proof -
  have "sample_step\<^sup>*\<^sup>* sample_idle sample_ran" using sample_quiet(1) by (rule rtranclp_mono [THEN predicate2D, rotated]) (auto simp: quiet_def)
  with sample_setup show 1: "sample_step\<^sup>*\<^sup>* (rpc_start sample_srv 7) sample_ran" by (rule rtranclp_trans)
  show 2: "sample_step sample_ran sample_returned" using sample_quiet(2) by (simp add: quiet_def)
  from 1 2 show "sample_step\<^sup>*\<^sup>* (rpc_start sample_srv 7) sample_returned" by (rule rtranclp.rtrancl_into_rtrancl)
qed

section \<open>What the network guarantees\<close>

lemma distinct_count: "distinct xs \<Longrightarrow> count_list xs x = (if x \<in> set xs then 1 else 0)"
  by (induction xs) auto

text \<open>
  C7. A call runs its handler at most once. If it returns success, the handler ran exactly once and
  the caller gets the reply that it produced; if it fails, the handler ran once or not at all.
\<close>

theorem rpc_at_most_once:
  assumes "(rpc_step dec enc)\<^sup>*\<^sup>* (rpc_start servs w) s" and "k < length (calls s)" and "c_stage (calls s ! k) = Returned r"
  shows "count_list (executed s) k \<le> 1 \<and> (rep_ok r \<longrightarrow> count_list (executed s) k = 1 \<and> c_ran (calls s ! k) = Some r)"
proof -
  have inv: "rpc_inv s" using rpc_reach_inv [OF assms(1)] .
  then have "count_list (executed s) k = (if k \<in> set (executed s) then 1 else 0)"
    by (simp add: rpc_inv_def distinct_count)
  then show ?thesis using call_okD [OF inv assms(2)] assms(2,3) inv by (auto simp: call_ok_def rpc_inv_def)
qed

theorem rpc_at_most_once_witness:
  "count_list (executed sample_returned) 0 = 1 \<and> c_ran (calls sample_returned ! 0) = Some \<lparr>rep_ok = True, rep_reply = replicate 7 1\<rparr>"
  using rpc_at_most_once [OF sample_reached(3), of 0 "\<lparr>rep_ok = True, rep_reply = replicate 7 1\<rparr>"]
  by (simp add: sample_returned_def sample_ran_def)



definition smooth :: "'n Network \<Rightarrow> 'n call \<Rightarrow> bool" where
  "smooth rn c \<longleftrightarrow> (healthy rn (req_endname (c_req c)) \<longrightarrow>
     (\<forall>r. c_ran c = Some r \<longrightarrow> rep_ok r)
     \<and> (\<forall>i. c_info c = Some i \<longrightarrow> i_reliable i \<and> servers rn (i_servername i) = Some (Some (i_server i)))
     \<and> (\<forall>r. c_stage c \<in> {Delayed r, Returned r} \<longrightarrow> rep_ok r))"

lemma smooth_cong: "same_tables rn rn' \<Longrightarrow> smooth rn' c = smooth rn c"
  by (simp add: smooth_def healthy_def same_tables_def)

lemma reach_server_healthy:
  assumes "healthy rn (req_endname req)"
  shows "\<exists>i. reach_server req rn = Some i \<and> i_reliable i \<and> servers rn (i_servername i) = Some (Some (i_server i))
    \<and> \<not> isServerDead (req_endname req) (i_servername i) (i_server i) rn"
  using assms by (auto simp: healthy_def reach_server_def readEndnameInfo_def isServerDead_def map_get0_def Let_def)

lemma healthy_alive:
  "healthy rn e \<Longrightarrow> servers rn (i_servername i) = Some (Some (i_server i)) \<Longrightarrow> \<not> isServerDead e (i_servername i) (i_server i) rn"
  by (simp add: healthy_def isServerDead_def map_get0_def)

lemma quiet_smooth:
  assumes "rpc_step dec enc s s'" "\<forall>c\<in>set (calls s). smooth (net s) c" "\<forall>e. healthy (net s) e \<longrightarrow> \<not> net_done (net s)"
  shows "\<forall>c\<in>set (calls s'). smooth (net s) c"
proof -
  have upd: "\<forall>c\<in>set ((calls s)[k := c']). smooth (net s) c" if "smooth (net s) c'" for k c'
    using assms(2) that set_update_subset_insert [of "calls s" k c'] by auto
  have old: "smooth (net s) (calls s ! k)" if "k < length (calls s)" for k using assms(2) that by simp
  from assms(1) show ?thesis
  proof cases
    case (begin_ k i)
    then have "smooth (net s) ((calls s ! k) \<lparr>c_stage := Working, c_info := Some i\<rparr>)"
      using old [OF begin_(2)] reach_server_healthy [of "net s" "c_req (calls s ! k)"] by (auto simp: smooth_def)
    then show ?thesis using begin_(1) upd by simp
  next
    case (drop_request k i)
    then have "smooth (net s) ((calls s ! k) \<lparr>c_stage := Returned no_reply\<rparr>)"
      using reach_server_healthy [of "net s" "c_req (calls s ! k)"] by (auto simp: smooth_def)
    then show ?thesis using drop_request(1) upd by simp
  next
    case (unreachable k)
    then have "smooth (net s) ((calls s ! k) \<lparr>c_stage := Returned no_reply\<rparr>)"
      using reach_server_healthy [of "net s" "c_req (calls s ! k)"] by (auto simp: smooth_def)
    then show ?thesis using unreachable(1) upd by simp
  next
    case (handler k i rs w r)
    then have "smooth (net s) ((calls s ! k) \<lparr>c_ran := Some r\<rparr>)"
      using old [OF handler(2)] Server_dispatch_ok [OF handler(5)] by (auto simp: smooth_def)
    then show ?thesis using handler(1) upd by simp
  next
    case (notice_dead k i)
    then have "smooth (net s) ((calls s ! k) \<lparr>c_stage := Returned no_reply\<rparr>)"
      using old [OF notice_dead(2)] healthy_alive [of "net s" _ i] by (auto simp: smooth_def)
    then show ?thesis using notice_dead(1) upd by simp
  next
    case (finish k i r st)
    then have "smooth (net s) ((calls s ! k) \<lparr>c_stage := st\<rparr>)"
      using old [OF finish(2)] healthy_alive [of "net s" _ i] by (auto simp: smooth_def outcomes_def split: if_splits)
    then show ?thesis using finish(1) upd by simp
  next
    case (late k r)
    then have "smooth (net s) ((calls s ! k) \<lparr>c_stage := Returned r\<rparr>)" using old [OF late(2)] by (auto simp: smooth_def)
    then show ?thesis using late(1) upd by simp
  qed (use assms(2,3) in \<open>auto simp: smooth_def new_call_def healthy_def\<close>)
qed

text \<open>
  C28. On a reliable network no call fails: as long as nobody changes the tables of the network, a
  call by an end that is enabled and connected to a live server, once it has returned, has returned
  success.
\<close>

theorem reliable_calls_succeed:
  assumes "(quiet dec enc)\<^sup>*\<^sup>* s0 s" and "calls s0 = []" and "k < length (calls s)" and "c_stage (calls s ! k) = Returned r"
    and "healthy (net s0) (req_endname (c_req (calls s ! k)))"
  shows "rep_ok r"
proof -
  from assms(1) have "same_tables (net s0) (net s) \<and> (\<forall>c\<in>set (calls s). smooth (net s0) c)"
  proof (induction rule: rtranclp_induct)
    case base
    then show ?case using assms(2) by (simp add: same_tables_def)
  next
    case (step y z)
    then have "\<forall>c\<in>set (calls z). smooth (net y) c" using smooth_cong quiet_smooth [of dec enc y z] by (auto simp: quiet_def healthy_def)
    then show ?case using step smooth_cong by (auto simp: quiet_def same_tables_def)
  qed
  then show ?thesis using assms(3-5) by (auto simp: smooth_def)
qed

theorem reliable_calls_succeed_witness:
  "\<exists>r. c_stage (calls sample_returned ! 0) = Returned r \<and> rep_ok r"
proof -
  have "(quiet (\<lambda>_ _. 0) (\<lambda>v. replicate v 1))\<^sup>*\<^sup>* sample_idle sample_returned"
    using sample_quiet by (rule rtranclp.rtrancl_into_rtrancl)
  moreover have "healthy (net sample_idle) 0" by (simp add: healthy_def sample_idle_def sample_rpc_simps Let_def)
  ultimately show ?thesis
    using reliable_calls_succeed [of "\<lambda>_ _. 0" "\<lambda>v. replicate v 1" sample_idle sample_returned 0]
    by (simp add: sample_returned_def sample_ran_def sample_idle_def rpc_start_def sample_req_def)
qed

text \<open>
  C40. \<open>GetTotalCount\<close> is the number of requests the network has received as long as that is below
  \<open>2 ^ 31\<close>; the \<open>int32\<close> counter wraps around to a negative number with the next request.
\<close>

theorem GetTotalCount_wraps:
  assumes "(rpc_step dec enc)\<^sup>*\<^sup>* (rpc_start servs w) s"
  shows "GetTotalCount (net s) = (int (sent s) + 2 ^ 31) mod 2 ^ 32 - 2 ^ 31
    \<and> (sent s < 2 ^ 31 \<longrightarrow> GetTotalCount (net s) = int (sent s))"
proof -
  have c: "net_count (net s) = word_of_int (int (sent s))" using rpc_reach_inv [OF assms] by (simp add: rpc_inv_def)
  have "GetTotalCount (net s) = (int (sent s) + 2 ^ 31) mod 2 ^ 32 - 2 ^ 31"
    unfolding GetTotalCount_def c by (subst int_word_sint) simp
  then show ?thesis by simp
qed

theorem GetTotalCount_wraps_witness: "GetTotalCount (net sample_returned) = 1"
  using GetTotalCount_wraps [OF sample_reached(3)] by (simp add: sample_returned_def sample_ran_def)

end
