(* ===== verification/Lab_Ends.thy ===== *)
theory Lab_Ends
  imports Lab_Rpc
begin

text \<open>
  What the test configurations of the labs share (\<open>raft/config.go\<close>, \<open>kvraft/config.go\<close>,
  \<open>shardctrler/config.go\<close>, \<open>shardkv/config.go\<close>): the names of the ends that the servers of a group use
  to talk to each other, the loops that make, connect, enable and disable such ends, and the
  invariant \<open>wired\<close> that relates the names to the tables of the network. The loops change only the
  network, so they are functions on networks.
\<close>

section \<open>Names\<close>

text \<open>Names on the network are \<open>interface{}\<close> values: strings and integers are used.\<close>

datatype netname = NStr string | NInt int

text \<open>\<open>endnames[i][j]\<close>; indexing out of range or into a nil slice panics.\<close>

definition endname_of :: "string list option list \<Rightarrow> nat \<Rightarrow> nat \<Rightarrow> string option" where
  "endname_of endnames i j = do { es \<leftarrow> slice_get endnames (int i); es \<leftarrow> es; slice_get es (int j) }"

lemma endname_of_Some:
  "endname_of en i j = Some e \<longleftrightarrow> i < length en \<and> (\<exists>es. en ! i = Some es \<and> j < length es \<and> es ! j = e)"
  by (auto simp: endname_of_def split: if_splits bind_splits)

lemma endname_of_update:
  "i < length en \<Longrightarrow> endname_of (en[i := Some es]) a b = (if a = i then if b < length es then Some (es ! b) else None else endname_of en a b)"
  by (auto simp: endname_of_def)

text \<open>\<open>if_named\<close>: the name, if the names of server \<open>i\<close> are not nil.\<close>

definition if_named :: "string list option list \<Rightarrow> nat \<Rightarrow> string option \<Rightarrow> string option option" where
  "if_named endnames i endname = do {
     es \<leftarrow> slice_get endnames (int i);
     if es \<noteq> None then do { e \<leftarrow> endname; Some (Some e) } else Some None }"

lemma if_named_Some: "if_named en i x = Some (Some e) \<longleftrightarrow> i < length en \<and> en ! i \<noteq> None \<and> x = Some e"
  by (auto simp: if_named_def split: bind_splits if_splits)

section \<open>Loops over ends\<close>

text \<open>
  Enable or disable ends in a loop. The body picks a name: \<open>None\<close> is a panic, \<open>Some None\<close> skips the turn.
\<close>

definition Enable_each :: "bool \<Rightarrow> (nat \<Rightarrow> string option option) \<Rightarrow> nat list \<Rightarrow> netname Network \<Rightarrow> netname Network option" where
  "Enable_each b pick js rn = foldo (\<lambda>j rn. do {
     e \<leftarrow> pick j;
     Some (case e of Some e \<Rightarrow> Enable (NStr e) b rn | None \<Rightarrow> rn) }) js rn"

text \<open>
  Make fresh ends and connect each to a server; \<open>b\<close> tells if the loop also enables them. \<open>MakeEnd\<close>
  stops the program if a name is in use.
\<close>

definition fresh_end :: "bool \<Rightarrow> string \<times> netname \<Rightarrow> netname Network \<Rightarrow> netname Network option" where
  "fresh_end b = (\<lambda>(e, servername) rn. do {
     (rn, ce) \<leftarrow> MakeEnd (NStr e) rn;
     let rn = Connect (NStr e) servername rn;
     Some (if b then Enable (NStr e) True rn else rn) })"

definition MakeEnds :: "bool \<Rightarrow> (string \<times> netname) list \<Rightarrow> netname Network \<Rightarrow> netname Network option" where
  "MakeEnds b es rn = foldo (fresh_end b) es rn"

definition picked :: "(nat \<Rightarrow> string option option) \<Rightarrow> nat list \<Rightarrow> netname \<Rightarrow> bool" where
  "picked pick js x \<longleftrightarrow> (\<exists>j\<in>set js. \<exists>e. pick j = Some (Some e) \<and> x = NStr e)"

lemma picked_simps [simp]:
  "picked pick [] x = False"
  "picked pick (j # js) x \<longleftrightarrow> (\<exists>e. pick j = Some (Some e) \<and> x = NStr e) \<or> picked pick js x"
  by (auto simp: picked_def)

lemma Enable_each_value:
  "Enable_each b pick js rn = Some rn' \<longleftrightarrow> (\<forall>j\<in>set js. pick j \<noteq> None)
     \<and> rn' = rn \<lparr>enabled := (\<lambda>x. if picked pick js x then Some b else enabled rn x)\<rparr>"
proof (induction js arbitrary: rn)
  case (Cons j js)
  have "Enable_each b pick (j # js) rn = (case pick j of None \<Rightarrow> None
      | Some e \<Rightarrow> Enable_each b pick js (case e of Some e \<Rightarrow> Enable (NStr e) b rn | None \<Rightarrow> rn))"
    by (simp add: Enable_each_def split: option.splits)
  then show ?case
    by (cases "pick j") (auto simp: Cons Enable_def fun_eq_iff split: option.splits intro!: arg_cong [where f = "\<lambda>f. rn \<lparr>enabled := f\<rparr>"])
qed (auto simp: Enable_each_def)

text \<open>The tables after new ends were made.\<close>

definition add_ends :: "bool \<Rightarrow> (string \<times> netname) list \<Rightarrow> netname Network \<Rightarrow> netname Network" where
  "add_ends b es rn = rn \<lparr>ends := ends rn ++ map_of (map (\<lambda>(e, sn). (NStr e, \<lparr>ce_endname = NStr e\<rparr>)) es),
     enabled := enabled rn ++ map_of (map (\<lambda>(e, sn). (NStr e, b)) es),
     connections := connections rn ++ map_of (map (\<lambda>(e, sn). (NStr e, Some sn)) es)\<rparr>"

lemma map_of_NStr: "map_of (map (\<lambda>(e, sn). (NStr e, f e sn)) es) (NStr e) = None \<longleftrightarrow> e \<notin> fst ` set es"
  by (force simp: map_of_eq_None_iff)

lemma add_update: "map_of l k = None \<Longrightarrow> (m(k \<mapsto> v)) ++ map_of l = m ++ map_of ((k, v) # l)"
  by (auto simp: map_add_def fun_eq_iff split: option.splits)

lemma fresh_end_value:
  "fresh_end b (e, sn) rn = (if ends rn (NStr e) = None then Some (add_ends b [(e, sn)] rn) else None)"
  by (cases b) (simp_all add: fresh_end_def MakeEnd_def Connect_def Enable_def add_ends_def Let_def)

lemma add_ends_Cons: "e \<notin> fst ` set es \<Longrightarrow> add_ends b es (add_ends b [(e, sn)] rn) = add_ends b ((e, sn) # es) rn"
  unfolding add_ends_def by (simp add: add_update map_of_NStr)

lemma MakeEnds_value:
  "MakeEnds b es rn = Some rn' \<longleftrightarrow> distinct (map fst es) \<and> (\<forall>e\<in>fst ` set es. ends rn (NStr e) = None) \<and> rn' = add_ends b es rn"
proof (induction es arbitrary: rn)
  case (Cons x es)
  obtain e sn where x: "x = (e, sn)" by fastforce
  have "ends (add_ends b [x] rn) (NStr a) = None \<longleftrightarrow> a \<noteq> e \<and> ends rn (NStr a) = None" for a by (simp add: x add_ends_def)
  moreover have "MakeEnds b (x # es) rn = (if ends rn (NStr e) = None then MakeEnds b es (add_ends b [x] rn) else None)"
    by (simp add: MakeEnds_def x fresh_end_value)
  ultimately show ?case using add_ends_Cons [of e es b sn rn] by (auto simp: Cons x)
qed (auto simp: MakeEnds_def add_ends_def)

section \<open>Wiring\<close>

text \<open>
  \<open>wired en link rn\<close>: the names \<open>en i j\<close> that server \<open>i\<close> uses for server \<open>j\<close> are different, are known to
  the network and connected to server \<open>j\<close>, and enabled exactly if \<open>link i j\<close>.
\<close>

definition wired :: "(nat \<Rightarrow> nat \<Rightarrow> string option) \<Rightarrow> (nat \<Rightarrow> nat \<Rightarrow> bool) \<Rightarrow> netname Network \<Rightarrow> bool" where
  "wired en link rn \<longleftrightarrow>
     (\<forall>i j i' j' e. en i j = Some e \<longrightarrow> en i' j' = Some e \<longrightarrow> i' = i \<and> j' = j)
   \<and> (\<forall>i j e. en i j = Some e \<longrightarrow> ends rn (NStr e) \<noteq> None \<and> connections rn (NStr e) = Some (Some (NInt (int j)))
        \<and> (map_get0 False (enabled rn) (NStr e) \<longleftrightarrow> link i j))"

lemma wiredD:
  assumes "wired en link rn" and "en i j = Some e"
  shows "en i' j' = Some e \<Longrightarrow> i' = i \<and> j' = j" and "ends rn (NStr e) \<noteq> None"
    and "connections rn (NStr e) = Some (Some (NInt (int j)))" and "map_get0 False (enabled rn) (NStr e) \<longleftrightarrow> link i j"
  using assms unfolding wired_def by blast+

lemma wired_name: "wired en link rn \<Longrightarrow> en i j = Some e \<Longrightarrow> en i' j' = Some e \<longleftrightarrow> i' = i \<and> j' = j"
  using wiredD(1) by metis

lemma wired_cong:
  assumes "wired en link rn" and "ends rn' = ends rn" and "connections rn' = connections rn" and "enabled rn' = enabled rn"
    and "\<And>i j. en i j \<noteq> None \<Longrightarrow> link' i j = link i j"
  shows "wired en link' rn'"
  using assms unfolding wired_def by (metis option.discI)

lemma wired_other:
  assumes "wired en link rn"
    and "\<And>i j e. en i j = Some e \<Longrightarrow> ends rn' (NStr e) = ends rn (NStr e) \<and> connections rn' (NStr e) = connections rn (NStr e)
      \<and> enabled rn' (NStr e) = enabled rn (NStr e)"
  shows "wired en link rn'"
  using assms unfolding wired_def map_get0_def by metis

lemma wired_Enable_each:
  assumes "wired en link rn" and "Enable_each b pick js rn = Some rn'"
    and "\<And>i j e. en i j = Some e \<Longrightarrow> link' i j \<longleftrightarrow> (if picked pick js (NStr e) then b else link i j)"
  shows "wired en link' rn'"
proof -
  have rn': "rn' = rn \<lparr>enabled := (\<lambda>x. if picked pick js x then Some b else enabled rn x)\<rparr>"
    using assms(2) by (simp add: Enable_each_value)
  have "map_get0 False (enabled rn') (NStr e) \<longleftrightarrow> link' i j" if "en i j = Some e" for i j e
    using wiredD(4) [OF assms(1) that] assms(3) [OF that] by (simp add: rn' map_get0_def)
  moreover have "ends rn' = ends rn" "connections rn' = connections rn" by (simp_all add: rn')
  ultimately show ?thesis using assms(1) unfolding wired_def by metis
qed

lemma map_of_NStr_Some:
  assumes "distinct (map fst es)" and "(e, sn) \<in> set es"
  shows "map_of (map (\<lambda>(e, sn). (NStr e, f e sn)) es) (NStr e) = Some (f e sn)"
proof -
  have "distinct (map fst (map (\<lambda>(e, sn). (NStr e, f e sn)) es))" using assms(1)
    by (induction es) (auto simp: image_iff)
  moreover have "(NStr e, f e sn) \<in> set (map (\<lambda>(e, sn). (NStr e, f e sn)) es)" using assms(2) by force
  ultimately show ?thesis by simp
qed

lemma map_of_NStr_None: "x \<notin> NStr ` fst ` set es \<Longrightarrow> map_of (map (\<lambda>(e, sn). (NStr e, f e sn)) es) x = None"
  by (force simp: map_of_eq_None_iff)

lemma add_ends_other:
  assumes "x \<notin> NStr ` fst ` set es"
  shows "ends (add_ends b es rn) x = ends rn x" and "enabled (add_ends b es rn) x = enabled rn x"
    and "connections (add_ends b es rn) x = connections rn x"
  using map_of_NStr_None [OF assms, of "\<lambda>e sn. \<lparr>ce_endname = NStr e\<rparr>"] map_of_NStr_None [OF assms, of "\<lambda>e sn. b"]
    map_of_NStr_None [OF assms, of "\<lambda>e sn. Some sn"] by (simp_all add: add_ends_def map_add_def)

lemma add_ends_new:
  assumes "distinct (map fst es)" and "(e, sn) \<in> set es"
  shows "ends (add_ends b es rn) (NStr e) \<noteq> None" and "enabled (add_ends b es rn) (NStr e) = Some b"
    and "connections (add_ends b es rn) (NStr e) = Some (Some sn)"
  using map_of_NStr_Some [OF assms, of "\<lambda>e sn. \<lparr>ce_endname = NStr e\<rparr>"] map_of_NStr_Some [OF assms, of "\<lambda>e sn. b"]
    map_of_NStr_Some [OF assms, of "\<lambda>e sn. Some sn"] by (simp_all add: add_ends_def)

text \<open>A server that starts again gets fresh names, which are not enabled.\<close>

lemma wired_restart:
  assumes "wired en link rn" and "MakeEnds False (map (\<lambda>j. (names j, NInt (int j))) [0..<n]) rn = Some rn'"
  shows "wired (en(i := \<lambda>j. if j < n then Some (names j) else None)) (\<lambda>a c. a \<noteq> i \<and> link a c) rn'"
proof -
  let ?es = "map (\<lambda>j. (names j, NInt (int j))) [0..<n]" and ?en = "en(i := \<lambda>j. if j < n then Some (names j) else None)"
  from assms(2) have es: "distinct (map fst ?es)" "\<And>j. j < n \<Longrightarrow> ends rn (NStr (names j)) = None" and rn': "rn' = add_ends False ?es rn"
    by (auto simp: MakeEnds_value)
  have inj: "inj_on names {0..<n}" using es(1) by (simp add: comp_def distinct_map)
  have old: "en a b = Some e \<Longrightarrow> NStr e \<notin> NStr ` fst ` set ?es" for a b e using wiredD(2) [OF assms(1), of a b e] es(2) by auto
  have fresh: "en a b \<noteq> Some (names j)" if "j < n" for a b j using wiredD(2) [OF assms(1), of a b "names j"] es(2) [OF that] by auto
  have new: "j < n \<Longrightarrow> (names j, NInt (int j)) \<in> set ?es" for j by simp
  have "a' = a \<and> b' = b" if "?en a b = Some e" "?en a' b' = Some e" for a b a' b' e
    using that wiredD(1) [OF assms(1)] fresh inj by (auto split: if_splits dest: inj_onD)
  moreover have "ends rn' (NStr e) \<noteq> None \<and> connections rn' (NStr e) = Some (Some (NInt (int b)))
      \<and> (map_get0 False (enabled rn') (NStr e) \<longleftrightarrow> a \<noteq> i \<and> link a b)" if e: "?en a b = Some e" for a b e
  proof (cases "a = i")
    case True
    then have "(e, NInt (int b)) \<in> set ?es" using e by (auto split: if_splits)
    from add_ends_new [OF es(1) this, of False rn] show ?thesis by (simp add: rn' map_get0_def True)
  next
    case False
    then have "en a b = Some e" using e by simp
    from wiredD(2-4) [OF assms(1) this] add_ends_other [OF old [OF this], of False rn] False show ?thesis
      by (simp add: rn' map_get0_def)
  qed
  ultimately show ?thesis unfolding wired_def by blast
qed

text \<open>No end is enabled but those with a current name.\<close>

definition no_stale :: "(nat \<Rightarrow> nat \<Rightarrow> string option) \<Rightarrow> netname Network \<Rightarrow> bool" where
  "no_stale en rn \<longleftrightarrow> (\<forall>x. map_get0 False (enabled rn) x \<longrightarrow> (\<exists>i j e. x = NStr e \<and> en i j = Some e))"

lemma no_stale_Enable_each:
  assumes "no_stale en rn" and "Enable_each b pick js rn = Some rn'"
    and "\<And>j e. pick j = Some (Some e) \<Longrightarrow> \<exists>i k. en i k = Some e"
  shows "no_stale en rn'"
  using assms unfolding no_stale_def Enable_each_value picked_def by (auto simp: map_get0_def split: if_splits; blast)

lemma no_stale_restart:
  assumes "no_stale en rn" and "wired en link rn" and "\<And>j. \<not> link i j"
    and "MakeEnds False (map (\<lambda>j. (names j, NInt (int j))) [0..<n]) rn = Some rn'"
  shows "no_stale (en(i := \<lambda>j. if j < n then Some (names j) else None)) rn'"
  unfolding no_stale_def
proof (intro allI impI)
  fix x
  let ?es = "map (\<lambda>j. (names j, NInt (int j))) [0..<n]"
  assume x: "map_get0 False (enabled rn') x"
  from assms(4) have es: "distinct (map fst ?es)" and rn': "rn' = add_ends False ?es rn" by (auto simp: MakeEnds_value)
  have "x \<notin> NStr ` fst ` set ?es" using x add_ends_new(2) [OF es, where b = False and rn = rn] by (fastforce simp: rn' map_get0_def)
  from add_ends_other(2) [OF this, of False rn] x have "map_get0 False (enabled rn) x" by (simp add: rn' map_get0_def)
  with assms(1) obtain a b e where e: "x = NStr e" "en a b = Some e" "map_get0 False (enabled rn) (NStr e)" unfolding no_stale_def by blast
  with wiredD(4) [OF assms(2)] assms(3) have "a \<noteq> i" by blast
  with e show "\<exists>a b e. x = NStr e \<and> (en(i := \<lambda>j. if j < n then Some (names j) else None)) a b = Some e" by auto
qed

text \<open>Which requests get to a server.\<close>

lemma wired_reach:
  assumes "wired en link rn" and "en i j = Some e" and "req_endname req = NStr e"
  shows "reach_server req rn \<noteq> None \<longleftrightarrow> link i j \<and> map_get0 None (servers rn) (NInt (int j)) \<noteq> None"
    and "reach_server req rn = Some info \<Longrightarrow> i_servername info = NInt (int j)"
  using wiredD(3,4) [OF assms(1,2)] assms(3) by (auto simp: reach_server_def readEndnameInfo_def map_get0_def Let_def split: if_splits)

lemma disabled_reach: "\<not> map_get0 False (enabled rn) (req_endname req) \<Longrightarrow> reach_server req rn = None"
  by (simp add: reach_server_def readEndnameInfo_def Let_def)

end
