(* ===== verification/Raft_Config.thy ===== *)
theory Raft_Config
  imports Raft_Cluster Lab_Ends
begin

text \<open>
  The test configuration of \<open>raft/config.go\<close>: the object that starts, crashes, connects and
  disconnects the peers of a group on the simulated network, reads what they deliver, and checks
  elections and agreement. It composes \<open>Raft_Node\<close> (the peers), \<open>Raft_Cluster\<close> (what they deliver)
  and \<open>Lab_Rpc\<close> (the network).

  \<open>None\<close> is the end of the test by a panic, \<open>log.Fatalf\<close> or \<open>t.Fatalf\<close>. The functions run beside the
  goroutines of the peers and the appliers. What these do until the next access to the shared
  state is the argument \<open>run\<close>, a function on configurations; configurations are extensible records,
  so that \<open>run\<close> may depend on more than the fields of the code (the clock, for example). Commands are
  \<open>interface{}\<close> values that can be compared, random names and addresses of new objects are arguments.
\<close>

section \<open>The configuration\<close>

text \<open>The messages about errors of an applier. No error, the empty string of the code, is \<open>None\<close>.\<close>

datatype 'c apply_error = CommitMismatch int nat "'c option" nat "'c option"
  | OutOfOrder nat int | ExpectedIndex nat int int | SnapshotMismatch nat

text \<open>
  \<open>cfg_failed\<close> is \<open>cfg.t.Failed()\<close>. \<open>cfg_old\<close> holds the peers that were killed; they are not part of
  the code's structure, but their goroutines keep their objects.
\<close>

record 'c config =
  cfg_failed :: bool
  finished :: int
  cfg_net :: "netname Network"
  cfg_n :: nat
  rafts :: "'c Raft option list"
  applyErr :: "'c apply_error option list"
  cfg_connected :: "bool list"
  saved :: "Persister option list"
  endnames :: "string list option list"
  logs :: "(int \<rightharpoonup> 'c option) list"
  cfg_lastApplied :: "int list"
  rpcs0 :: int
  cmds0 :: int
  bytes0 :: int
  maxIndex :: int
  maxIndex0 :: int
  cfg_old :: "'c Raft list"

section \<open>What the peers deliver\<close>

fun mismatch :: "nat \<Rightarrow> 'c ApplyMsg \<Rightarrow> nat \<Rightarrow> (int \<rightharpoonup> 'c option) list \<Rightarrow> 'c apply_error option \<Rightarrow> 'c apply_error option" where
  "mismatch i m j [] err_msg = err_msg"
| "mismatch i m j (l # ls) err_msg = mismatch i m (Suc j) ls
     (case l (CommandIndex m) of
        Some old \<Rightarrow> if old \<noteq> am_Command m then Some (CommitMismatch (CommandIndex m) i (am_Command m) j old) else err_msg
      | None \<Rightarrow> err_msg)"

definition checkLogs :: "nat \<Rightarrow> 'c ApplyMsg \<Rightarrow> ('c, 'z) config_scheme
    \<Rightarrow> (('c, 'z) config_scheme \<times> 'c apply_error option \<times> bool) option" where
  "checkLogs i m cfg = do {
     let err_msg = mismatch i m 0 (logs cfg) None;
     l \<leftarrow> slice_get (logs cfg) (int i);
     let prevok = l (CommandIndex m - 1) \<noteq> None;
     ls \<leftarrow> slice_set (logs cfg) (int i) (l(CommandIndex m \<mapsto> am_Command m));
     let cfg = cfg \<lparr>logs := ls\<rparr>;
     let cfg = (if CommandIndex m > maxIndex cfg then cfg \<lparr>maxIndex := CommandIndex m\<rparr> else cfg);
     Some (cfg, err_msg, prevok) }"

text \<open>One message of the loop of \<open>applier\<close>.\<close>

definition applier :: "nat \<Rightarrow> 'c ApplyMsg \<Rightarrow> ('c, 'z) config_scheme \<Rightarrow> ('c, 'z) config_scheme option" where
  "applier i m cfg =
     (if CommandValid m = False then Some cfg else do {
        (cfg, err_msg, prevok) \<leftarrow> checkLogs i m cfg;
        let err_msg = (if CommandIndex m > 1 \<and> prevok = False then Some (OutOfOrder i (CommandIndex m)) else err_msg);
        if err_msg \<noteq> None then None else Some cfg })"

text \<open>\<open>decode\<close>: the index and the log a snapshot holds, if \<open>labgob\<close> decodes both.\<close>

definition ingestSnap :: "(octets \<Rightarrow> (int \<times> 'c option list) option) \<Rightarrow> nat \<Rightarrow> bytes \<Rightarrow> int \<Rightarrow> ('c, 'z) config_scheme
    \<Rightarrow> (('c, 'z) config_scheme \<times> 'c apply_error option) option" where
  "ingestSnap decode i snap index cfg = do {
     r \<leftarrow> snap;
     (lastIncludedIndex, xlog) \<leftarrow> decode r;
     if index \<noteq> -1 \<and> index \<noteq> lastIncludedIndex then Some (cfg, Some (SnapshotMismatch i))
     else do {
       ls \<leftarrow> slice_set (logs cfg) (int i) (foldl (\<lambda>l j. l(int j \<mapsto> xlog ! j)) Map.empty [0..<length xlog]);
       la \<leftarrow> slice_set (cfg_lastApplied cfg) (int i) lastIncludedIndex;
       Some (cfg \<lparr>logs := ls, cfg_lastApplied := la\<rparr>, None) } }"

definition SnapShotInterval :: int where
  "SnapShotInterval = 10"

text \<open>
  The snapshot \<open>applierSnap\<close> takes at a command index: nil for the entries the map does not have.
\<close>

definition snap_xlog :: "int \<Rightarrow> (int \<rightharpoonup> 'c option) \<Rightarrow> 'c option list" where
  "snap_xlog index l = map (\<lambda>j. map_get0 None l (int j)) [0..<nat (index + 1)]"

text \<open>One message of the loop of \<open>applierSnap\<close>; \<open>rf\<close> is the peer it belongs to.\<close>

definition applierSnap :: "(octets \<Rightarrow> (int \<times> 'c option list) option) \<Rightarrow> (int \<Rightarrow> 'c option list \<Rightarrow> octets) \<Rightarrow> nat
    \<Rightarrow> 'c ApplyMsg \<Rightarrow> 'c Raft \<times> ('c, 'z) config_scheme \<Rightarrow> ('c Raft \<times> ('c, 'z) config_scheme) option" where
  "applierSnap decode encode i m = (\<lambda>(rf, cfg). do {
     (rf, cfg, err_msg) \<leftarrow>
       (if SnapshotValid m then
          (case CondInstallSnapshot (SnapshotTerm m) (SnapshotIndex m) (am_Snapshot m) rf of (rf, b) \<Rightarrow>
             if b then do { (cfg, err_msg) \<leftarrow> ingestSnap decode i (am_Snapshot m) (SnapshotIndex m) cfg; Some (rf, cfg, err_msg) }
             else Some (rf, cfg, None))
        else if CommandValid m then do {
          la \<leftarrow> slice_get (cfg_lastApplied cfg) (int i);
          let err_msg = (if CommandIndex m \<noteq> la + 1 then Some (ExpectedIndex i (la + 1) (CommandIndex m)) else None);
          (cfg, err_msg) \<leftarrow>
            (if err_msg = None then do {
               (cfg, err_msg, prevok) \<leftarrow> checkLogs i m cfg;
               Some (cfg, if CommandIndex m > 1 \<and> prevok = False then Some (OutOfOrder i (CommandIndex m)) else err_msg) }
             else Some (cfg, err_msg));
          la \<leftarrow> slice_set (cfg_lastApplied cfg) (int i) (CommandIndex m);
          let cfg = cfg \<lparr>cfg_lastApplied := la\<rparr>;
          rf \<leftarrow> (if (CommandIndex m + 1) mod SnapShotInterval = 0 then do {
               l \<leftarrow> slice_get (logs cfg) (int i);
               Some (Snapshot_op (CommandIndex m) (Some (encode (CommandIndex m) (snap_xlog (CommandIndex m) l))) rf) }
             else Some rf);
          Some (rf, cfg, err_msg) }
        else Some (rf, cfg, None));
     if err_msg \<noteq> None then None else Some (rf, cfg) })"

section \<open>Starting, crashing and connecting peers\<close>

definition if_connected :: "bool list \<Rightarrow> nat \<Rightarrow> string option \<Rightarrow> string option option" where
  "if_connected connected j endname = do {
     c \<leftarrow> slice_get connected (int j);
     if c then do { e \<leftarrow> endname; Some (Some e) } else Some None }"

definition connect :: "nat \<Rightarrow> ('c, 'z) config_scheme \<Rightarrow> ('c, 'z) config_scheme option" where
  "connect i cfg = do {
     cs \<leftarrow> slice_set (cfg_connected cfg) (int i) True;
     let en = endname_of (endnames cfg);
     rn \<leftarrow> Enable_each True (\<lambda>j. if_connected cs j (en i j)) [0..<cfg_n cfg] (cfg_net cfg);
     rn \<leftarrow> Enable_each True (\<lambda>j. if_connected cs j (en j i)) [0..<cfg_n cfg] rn;
     Some (cfg \<lparr>cfg_connected := cs, cfg_net := rn\<rparr>) }"

definition disconnect :: "nat \<Rightarrow> ('c, 'z) config_scheme \<Rightarrow> ('c, 'z) config_scheme option" where
  "disconnect i cfg = do {
     cs \<leftarrow> slice_set (cfg_connected cfg) (int i) False;
     let en = endname_of (endnames cfg);
     rn \<leftarrow> Enable_each False (\<lambda>j. if_named (endnames cfg) i (en i j)) [0..<cfg_n cfg] (cfg_net cfg);
     rn \<leftarrow> Enable_each False (\<lambda>j. if_named (endnames cfg) j (en j i)) [0..<cfg_n cfg] rn;
     Some (cfg \<lparr>cfg_connected := cs, cfg_net := rn\<rparr>) }"

definition crash1 :: "nat \<Rightarrow> ('c, 'z) config_scheme \<Rightarrow> ('c, 'z) config_scheme option" where
  "crash1 i cfg = do {
     cfg \<leftarrow> disconnect i cfg;
     let cfg = cfg \<lparr>cfg_net := DeleteServer (NInt (int i)) (cfg_net cfg)\<rparr>;
     ps \<leftarrow> slice_get (saved cfg) (int i);
     let cfg = (if ps \<noteq> None then cfg \<lparr>saved := (saved cfg)[i := map_option Persister_Copy ps]\<rparr> else cfg);
     rf \<leftarrow> slice_get (rafts cfg) (int i);
     let cfg = (case rf of Some rf \<Rightarrow> cfg \<lparr>cfg_old := cfg_old cfg @ [Kill rf], rafts := (rafts cfg)[i := None]\<rparr> | None \<Rightarrow> cfg);
     ps \<leftarrow> slice_get (saved cfg) (int i);
     case ps of
       Some ps \<Rightarrow>
         let raftlog = ReadRaftState ps; snap = ReadSnapshot ps;
             ps = SaveStateAndSnapshot raftlog snap \<lparr>raftstate = None, snapshot = None\<rparr>
         in Some (cfg \<lparr>saved := (saved cfg)[i := Some ps]\<rparr>)
     | None \<Rightarrow> Some cfg }"

text \<open>
  \<open>names\<close> are the results of \<open>randstring\<close>, \<open>p\<close> the address of the new server. The goroutine of the
  applier is not part of the state.
\<close>

definition start1 :: "(octets \<Rightarrow> (int \<times> 'c option list) option) \<Rightarrow> nat \<Rightarrow> (nat \<Rightarrow> string) \<Rightarrow> nat \<Rightarrow> ('c, 'z) config_scheme
    \<Rightarrow> ('c, 'z) config_scheme option" where
  "start1 decode i names p cfg = do {
     cfg \<leftarrow> crash1 i cfg;
     en \<leftarrow> slice_set (endnames cfg) (int i) (Some (map names [0..<cfg_n cfg]));
     let cfg = cfg \<lparr>endnames := en\<rparr>;
     rn \<leftarrow> MakeEnds False (map (\<lambda>j. (names j, NInt (int j))) [0..<cfg_n cfg]) (cfg_net cfg);
     let cfg = cfg \<lparr>cfg_net := rn\<rparr>;
     la \<leftarrow> slice_set (cfg_lastApplied cfg) (int i) 0;
     let cfg = cfg \<lparr>cfg_lastApplied := la\<rparr>;
     ps \<leftarrow> slice_get (saved cfg) (int i);
     cfg \<leftarrow> (case ps of
         Some ps \<Rightarrow>
           let ps = Persister_Copy ps; cfg = cfg \<lparr>saved := (saved cfg)[i := Some ps]\<rparr>; snap = ReadSnapshot ps in
           if snap \<noteq> None \<and> bytes_len snap > 0
           then do { (cfg, err) \<leftarrow> ingestSnap decode i snap (-1) cfg; if err \<noteq> None then None else Some cfg }
           else Some cfg
       | None \<Rightarrow> Some (cfg \<lparr>saved := (saved cfg)[i := Some MakePersister]\<rparr>));
     ps \<leftarrow> saved cfg ! i;
     rs \<leftarrow> slice_set (rafts cfg) (int i) (Some (Make (cfg_n cfg) (int i) ps));
     let cfg = cfg \<lparr>rafts := rs\<rparr>;
     Some (cfg \<lparr>cfg_net := AddServer (NInt (int i)) p (cfg_net cfg)\<rparr>) }"

definition setunreliable :: "bool \<Rightarrow> ('c, 'z) config_scheme \<Rightarrow> ('c, 'z) config_scheme" where
  "setunreliable unrel cfg = cfg \<lparr>cfg_net := Reliable (\<not> unrel) (cfg_net cfg)\<rparr>"

definition setlongreordering :: "bool \<Rightarrow> ('c, 'z) config_scheme \<Rightarrow> ('c, 'z) config_scheme" where
  "setlongreordering longrel cfg = cfg \<lparr>cfg_net := LongReordering longrel (cfg_net cfg)\<rparr>"

definition new_config :: "nat \<Rightarrow> 'c config" where
  "new_config n = \<lparr>cfg_failed = False, finished = 0, cfg_net = MakeNetwork, cfg_n = n, rafts = replicate n None,
     applyErr = replicate n None, cfg_connected = replicate n False, saved = replicate n None, endnames = replicate n None,
     logs = replicate n Map.empty, cfg_lastApplied = replicate n 0, rpcs0 = 0, cmds0 = 0, bytes0 = 0, maxIndex = 0,
     maxIndex0 = 0, cfg_old = []\<rparr>"

definition make_config :: "(octets \<Rightarrow> (int \<times> 'c option list) option) \<Rightarrow> (nat \<Rightarrow> nat \<Rightarrow> string) \<Rightarrow> (nat \<Rightarrow> nat) \<Rightarrow> nat \<Rightarrow> bool
    \<Rightarrow> 'c config option" where
  "make_config decode names srvs n unreliable = do {
     let cfg = setunreliable unreliable (new_config n);
     let cfg = cfg \<lparr>cfg_net := LongDelays True (cfg_net cfg)\<rparr>;
     cfg \<leftarrow> foldo (\<lambda>i cfg. do {
         ls \<leftarrow> slice_set (logs cfg) (int i) Map.empty;
         start1 decode i (names i) (srvs i) (cfg \<lparr>logs := ls\<rparr>) }) [0..<cfg_n cfg] cfg;
     foldo connect [0..<cfg_n cfg] cfg }"

definition rpcCount :: "int \<Rightarrow> ('c, 'z) config_scheme \<Rightarrow> (nat \<Rightarrow> ('w, 'v) Server) \<Rightarrow> int option" where
  "rpcCount server cfg ss = GetCount (NInt server) (cfg_net cfg) ss"

definition rpcTotal :: "('c, 'z) config_scheme \<Rightarrow> int" where
  "rpcTotal cfg = GetTotalCount (cfg_net cfg)"

definition bytesTotal :: "('c, 'z) config_scheme \<Rightarrow> int" where
  "bytesTotal cfg = GetTotalBytes (cfg_net cfg)"

text \<open>\<open>elapsed\<close>: the milliseconds since the configuration was made.\<close>

definition checkTimeout :: "int \<Rightarrow> ('c, 'z) config_scheme \<Rightarrow> ('c, 'z) config_scheme option" where
  "checkTimeout elapsed cfg = (if \<not> cfg_failed cfg \<and> elapsed > 120000 then None else Some cfg)"

definition checkFinished :: "('c, 'z) config_scheme \<Rightarrow> bool" where
  "checkFinished cfg = (finished cfg \<noteq> 0)"

definition cleanup :: "int \<Rightarrow> ('c, 'z) config_scheme \<Rightarrow> ('c, 'z) config_scheme option" where
  "cleanup elapsed cfg = do {
     let cfg = cfg \<lparr>finished := 1, rafts := map (map_option Kill) (rafts cfg)\<rparr>;
     rn \<leftarrow> Cleanup (cfg_net cfg);
     checkTimeout elapsed (cfg \<lparr>cfg_net := rn\<rparr>) }"

definition begin_test :: "('c, 'z) config_scheme \<Rightarrow> ('c, 'z) config_scheme" where
  "begin_test cfg = cfg \<lparr>rpcs0 := rpcTotal cfg, bytes0 := bytesTotal cfg, cmds0 := 0, maxIndex0 := maxIndex cfg\<rparr>"

text \<open>The four numbers \<open>end\<close> prints besides the time.\<close>

definition end_test :: "int \<Rightarrow> ('c, 'z) config_scheme \<Rightarrow> (nat \<times> int \<times> int \<times> int) option option" where
  "end_test elapsed cfg = do {
     cfg \<leftarrow> checkTimeout elapsed cfg;
     if \<not> cfg_failed cfg
     then Some (Some (cfg_n cfg, rpcTotal cfg - rpcs0 cfg, bytesTotal cfg - bytes0 cfg, maxIndex cfg - maxIndex0 cfg))
     else Some None }"

definition LogSize :: "('c, 'z) config_scheme \<Rightarrow> nat option" where
  "LogSize cfg = foldo (\<lambda>i logsize. do {
     ps \<leftarrow> slice_get (saved cfg) (int i); ps \<leftarrow> ps;
     Some (if RaftStateSize ps > logsize then RaftStateSize ps else logsize) }) [0..<cfg_n cfg] 0"

section \<open>Checks\<close>

text \<open>
  \<open>leaders\<close> is the map from terms to the peers that lead them, in the order of insertion. The loop
  over the map visits it in an arbitrary order, the argument \<open>ord\<close>.
\<close>

fun add_leader :: "int \<Rightarrow> nat \<Rightarrow> (int \<times> nat list) list \<Rightarrow> (int \<times> nat list) list" where
  "add_leader t i [] = [(t, [i])]"
| "add_leader t i ((t', is) # ls) = (if t' = t then (t', is @ [i]) # ls else (t', is) # add_leader t i ls)"

text \<open>\<open>cfg.rafts[i].GetState()\<close>; a peer that does not run is a nil dereference.\<close>

definition state_of :: "nat \<Rightarrow> ('c, 'z) config_scheme \<Rightarrow> (int \<times> bool) option" where
  "state_of i cfg = do { rf \<leftarrow> slice_get (rafts cfg) (int i); rf \<leftarrow> rf; Some (GetState rf) }"

fun scan_leaders :: "(('c, 'z) config_scheme \<Rightarrow> ('c, 'z) config_scheme) \<Rightarrow> nat list \<Rightarrow> (int \<times> nat list) list
    \<Rightarrow> ('c, 'z) config_scheme \<Rightarrow> (('c, 'z) config_scheme \<times> (int \<times> nat list) list) option" where
  "scan_leaders run [] leaders cfg = Some (cfg, leaders)"
| "scan_leaders run (i # is) leaders cfg = do {
     let cfg = run cfg;
     c \<leftarrow> slice_get (cfg_connected cfg) (int i);
     if c then do {
       (t, leader) \<leftarrow> state_of i cfg;
       scan_leaders run is (if leader then add_leader t i leaders else leaders) cfg }
     else scan_leaders run is leaders cfg }"

fun last_term :: "(int \<times> nat list) list \<Rightarrow> int \<Rightarrow> int option" where
  "last_term [] lastTermWithLeader = Some lastTermWithLeader"
| "last_term ((t, is) # ls) lastTermWithLeader =
     (if length is > 1 then None else last_term ls (if t > lastTermWithLeader then t else lastTermWithLeader))"

fun checkOneLeader_loop :: "((int \<times> nat list) list \<Rightarrow> (int \<times> nat list) list) \<Rightarrow> (('c, 'z) config_scheme \<Rightarrow> ('c, 'z) config_scheme)
    \<Rightarrow> nat \<Rightarrow> ('c, 'z) config_scheme \<Rightarrow> (('c, 'z) config_scheme \<times> nat) option" where
  "checkOneLeader_loop ord run 0 cfg = None"
| "checkOneLeader_loop ord run (Suc iters) cfg = do {
     let cfg = run cfg;
     (cfg, leaders) \<leftarrow> scan_leaders run [0..<cfg_n cfg] [] cfg;
     lastTermWithLeader \<leftarrow> last_term (ord leaders) (-1);
     if length leaders \<noteq> 0 then do {
       i \<leftarrow> slice_get (map_get0 [] (map_of leaders) lastTermWithLeader) 0;
       Some (cfg, i) }
     else checkOneLeader_loop ord run iters cfg }"

definition checkOneLeader :: "((int \<times> nat list) list \<Rightarrow> (int \<times> nat list) list) \<Rightarrow> (('c, 'z) config_scheme \<Rightarrow> ('c, 'z) config_scheme)
    \<Rightarrow> ('c, 'z) config_scheme \<Rightarrow> (('c, 'z) config_scheme \<times> nat) option" where
  "checkOneLeader ord run cfg = checkOneLeader_loop ord run 10 cfg"

definition checkTerms :: "(('c, 'z) config_scheme \<Rightarrow> ('c, 'z) config_scheme) \<Rightarrow> ('c, 'z) config_scheme
    \<Rightarrow> (('c, 'z) config_scheme \<times> int) option" where
  "checkTerms run cfg = foldo (\<lambda>i (cfg, t). do {
     let cfg = run cfg;
     c \<leftarrow> slice_get (cfg_connected cfg) (int i);
     if c then do {
       (xterm, _) \<leftarrow> state_of i cfg;
       if t = -1 then Some (cfg, xterm) else if t \<noteq> xterm then None else Some (cfg, t) }
     else Some (cfg, t) }) [0..<cfg_n cfg] (cfg, -1)"

definition checkNoLeader :: "(('c, 'z) config_scheme \<Rightarrow> ('c, 'z) config_scheme) \<Rightarrow> ('c, 'z) config_scheme
    \<Rightarrow> ('c, 'z) config_scheme option" where
  "checkNoLeader run cfg = foldo (\<lambda>i cfg. do {
     let cfg = run cfg;
     c \<leftarrow> slice_get (cfg_connected cfg) (int i);
     if c then do { (_, is_leader) \<leftarrow> state_of i cfg; if is_leader then None else Some cfg }
     else Some cfg }) [0..<cfg_n cfg] cfg"

definition nCommitted :: "(('c, 'z) config_scheme \<Rightarrow> ('c, 'z) config_scheme) \<Rightarrow> int \<Rightarrow> ('c, 'z) config_scheme
    \<Rightarrow> (('c, 'z) config_scheme \<times> nat \<times> 'c option) option" where
  "nCommitted run index cfg = foldo (\<lambda>i (cfg, cnt, cmd). do {
     let cfg = run cfg;
     err \<leftarrow> slice_get (applyErr cfg) (int i);
     if err \<noteq> None then None else do {
       l \<leftarrow> slice_get (logs cfg) (int i);
       case l index of
         Some cmd1 \<Rightarrow> if cnt > 0 \<and> cmd \<noteq> cmd1 then None else Some (cfg, cnt + 1, cmd1)
       | None \<Rightarrow> Some (cfg, cnt, cmd) } }) [0..<length (rafts cfg)] (cfg, 0, None)"

text \<open>\<open>wait\<close> returns the number -1 when a peer has moved on to a later term.\<close>

datatype 'c waited = MovedOn | Decided "'c option"

fun moved_on :: "(('c, 'z) config_scheme \<Rightarrow> ('c, 'z) config_scheme) \<Rightarrow> int \<Rightarrow> nat list \<Rightarrow> ('c, 'z) config_scheme
    \<Rightarrow> (('c, 'z) config_scheme \<times> bool) option" where
  "moved_on run startTerm [] cfg = Some (cfg, False)"
| "moved_on run startTerm (i # is) cfg = do {
     let cfg = run cfg;
     (t, _) \<leftarrow> state_of i cfg;
     if t > startTerm then Some (cfg, True) else moved_on run startTerm is cfg }"

fun wait_loop :: "(('c, 'z) config_scheme \<Rightarrow> ('c, 'z) config_scheme) \<Rightarrow> (int \<Rightarrow> ('c, 'z) config_scheme \<Rightarrow> ('c, 'z) config_scheme)
    \<Rightarrow> int \<Rightarrow> nat \<Rightarrow> int \<Rightarrow> nat \<Rightarrow> int \<Rightarrow> ('c, 'z) config_scheme \<Rightarrow> (('c, 'z) config_scheme \<times> bool) option" where
  "wait_loop run sleep index n startTerm 0 to cfg = Some (cfg, False)"
| "wait_loop run sleep index n startTerm (Suc iters) to cfg = do {
     (cfg, nd, _) \<leftarrow> nCommitted run index cfg;
     if nd \<ge> n then Some (cfg, False) else do {
       let cfg = sleep to cfg;
       let to = (if to < 1000 then to * 2 else to);
       (cfg, moved) \<leftarrow> (if startTerm > -1 then moved_on run startTerm [0..<length (rafts cfg)] cfg else Some (cfg, False));
       if moved then Some (cfg, True) else wait_loop run sleep index n startTerm iters to cfg } }"

definition wait :: "(('c, 'z) config_scheme \<Rightarrow> ('c, 'z) config_scheme) \<Rightarrow> (int \<Rightarrow> ('c, 'z) config_scheme \<Rightarrow> ('c, 'z) config_scheme)
    \<Rightarrow> int \<Rightarrow> nat \<Rightarrow> int \<Rightarrow> ('c, 'z) config_scheme \<Rightarrow> (('c, 'z) config_scheme \<times> 'c waited) option" where
  "wait run sleep index n startTerm cfg = do {
     (cfg, moved) \<leftarrow> wait_loop run sleep index n startTerm 30 10 cfg;
     if moved then Some (cfg, MovedOn) else do {
       (cfg, nd, cmd) \<leftarrow> nCommitted run index cfg;
       if nd < n then None else Some (cfg, Decided cmd) } }"

text \<open>
  The loop of \<open>one\<close> over the peers: the index that \<open>Start\<close> returned on the first peer that claims to
  be the leader, or -1.
\<close>

fun submit :: "(('c, 'z) config_scheme \<Rightarrow> ('c, 'z) config_scheme) \<Rightarrow> 'c option \<Rightarrow> nat \<Rightarrow> nat \<Rightarrow> ('c, 'z) config_scheme
    \<Rightarrow> (('c, 'z) config_scheme \<times> nat \<times> int) option" where
  "submit run cmd 0 starts cfg = Some (cfg, starts, -1)"
| "submit run cmd (Suc k) starts cfg = do {
     let starts = (starts + 1) mod cfg_n cfg;
     let cfg = run cfg;
     c \<leftarrow> slice_get (cfg_connected cfg) (int starts);
     rf \<leftarrow> (if c then slice_get (rafts cfg) (int starts) else Some None);
     case rf of
       Some rf \<Rightarrow> do {
         (rf, index1, _, ok) \<leftarrow> Start cmd rf;
         let cfg = cfg \<lparr>rafts := (rafts cfg)[starts := Some rf]\<rparr>;
         if ok then Some (cfg, starts, index1) else submit run cmd k starts cfg }
     | None \<Rightarrow> submit run cmd k starts cfg }"

text \<open>
  The two loops of \<open>one\<close> end by the clock, in milliseconds; \<open>now\<close> reads it from the environment. The outer option of the result is
  \<open>None\<close> for a loop that does not end, the inner one for a test that fails.
\<close>

partial_function (option) agree_loop :: "(('c, 'z) config_scheme \<Rightarrow> ('c, 'z) config_scheme)
    \<Rightarrow> (int \<Rightarrow> ('c, 'z) config_scheme \<Rightarrow> ('c, 'z) config_scheme) \<Rightarrow> ('z \<Rightarrow> int) \<Rightarrow> int \<Rightarrow> 'c option \<Rightarrow> nat \<Rightarrow> int
    \<Rightarrow> ('c, 'z) config_scheme \<Rightarrow> (('c, 'z) config_scheme \<times> bool) option option" where
  "agree_loop run sleep now index cmd expectedServers t1 cfg =
     (if now (config.more cfg) - t1 < 2000 then
        (case nCommitted run index cfg of
           None \<Rightarrow> Some None
         | Some (cfg, nd, cmd1) \<Rightarrow>
             if nd > 0 \<and> nd \<ge> expectedServers \<and> cmd1 = cmd then Some (Some (cfg, True))
             else agree_loop run sleep now index cmd expectedServers t1 (sleep 20 cfg))
      else Some (Some (cfg, False)))"

partial_function (option) one_loop :: "(('c, 'z) config_scheme \<Rightarrow> ('c, 'z) config_scheme)
    \<Rightarrow> (int \<Rightarrow> ('c, 'z) config_scheme \<Rightarrow> ('c, 'z) config_scheme) \<Rightarrow> ('z \<Rightarrow> int) \<Rightarrow> 'c option \<Rightarrow> nat \<Rightarrow> bool \<Rightarrow> int
    \<Rightarrow> nat \<Rightarrow> ('c, 'z) config_scheme \<Rightarrow> (('c, 'z) config_scheme \<times> int) option option" where
  "one_loop run sleep now cmd expectedServers retry t0 starts cfg =
     (if now (config.more cfg) - t0 < 10000 \<and> \<not> checkFinished cfg then
        (case submit run cmd (cfg_n cfg) starts cfg of
           None \<Rightarrow> Some None
         | Some (cfg, starts, index) \<Rightarrow>
             if index \<noteq> -1 then do {
               r \<leftarrow> agree_loop run sleep now index cmd expectedServers (now (config.more cfg)) cfg;
               case r of
                 None \<Rightarrow> Some None
               | Some (cfg, agreed) \<Rightarrow>
                   if agreed then Some (Some (cfg, index))
                   else if \<not> retry then Some None
                   else one_loop run sleep now cmd expectedServers retry t0 starts cfg }
             else one_loop run sleep now cmd expectedServers retry t0 starts (sleep 50 cfg))
      else Some (let cfg = run cfg in if \<not> checkFinished cfg then None else Some (cfg, -1)))"

definition one :: "(('c, 'z) config_scheme \<Rightarrow> ('c, 'z) config_scheme)
    \<Rightarrow> (int \<Rightarrow> ('c, 'z) config_scheme \<Rightarrow> ('c, 'z) config_scheme) \<Rightarrow> ('z \<Rightarrow> int) \<Rightarrow> 'c option \<Rightarrow> nat \<Rightarrow> bool
    \<Rightarrow> ('c, 'z) config_scheme \<Rightarrow> (('c, 'z) config_scheme \<times> int) option option" where
  "one run sleep now cmd expectedServers retry cfg =
     one_loop run sleep now cmd expectedServers retry (now (config.more cfg)) 0 cfg"

section \<open>The network of a configuration\<close>

definition net_ok :: "('c, 'z) config_scheme \<Rightarrow> bool" where
  "net_ok cfg \<longleftrightarrow> length (cfg_connected cfg) = cfg_n cfg \<and> length (endnames cfg) = cfg_n cfg \<and> length (rafts cfg) = cfg_n cfg
     \<and> (\<forall>i es. i < cfg_n cfg \<longrightarrow> endnames cfg ! i = Some es \<longrightarrow> length es = cfg_n cfg)
     \<and> (\<forall>i<cfg_n cfg. cfg_connected cfg ! i \<longrightarrow> endnames cfg ! i \<noteq> None)
     \<and> wired (endname_of (endnames cfg)) (\<lambda>i j. cfg_connected cfg ! i \<and> cfg_connected cfg ! j) (cfg_net cfg)
     \<and> no_stale (endname_of (endnames cfg)) (cfg_net cfg)
     \<and> (\<forall>i<cfg_n cfg. map_get0 None (servers (cfg_net cfg)) (NInt (int i)) \<noteq> None \<longleftrightarrow> rafts cfg ! i \<noteq> None)"

lemma net_okD:
  assumes "net_ok cfg"
  shows "length (cfg_connected cfg) = cfg_n cfg" and "length (endnames cfg) = cfg_n cfg" and "length (rafts cfg) = cfg_n cfg"
    and "wired (endname_of (endnames cfg)) (\<lambda>i j. cfg_connected cfg ! i \<and> cfg_connected cfg ! j) (cfg_net cfg)"
    and "no_stale (endname_of (endnames cfg)) (cfg_net cfg)"
  using assms by (simp_all add: net_ok_def)

text \<open>What the invariant depends on, up to the counters and modes of the network.\<close>

definition same_net :: "('c, 'z) config_scheme \<Rightarrow> ('c, 'z) config_scheme \<Rightarrow> bool" where
  "same_net cfg cfg' \<longleftrightarrow> cfg_n cfg' = cfg_n cfg \<and> cfg_connected cfg' = cfg_connected cfg \<and> endnames cfg' = endnames cfg
     \<and> length (rafts cfg') = length (rafts cfg) \<and> (\<forall>i<length (rafts cfg). rafts cfg' ! i = None \<longleftrightarrow> rafts cfg ! i = None)
     \<and> ends (cfg_net cfg') = ends (cfg_net cfg) \<and> connections (cfg_net cfg') = connections (cfg_net cfg)
     \<and> enabled (cfg_net cfg') = enabled (cfg_net cfg) \<and> servers (cfg_net cfg') = servers (cfg_net cfg)"

lemma net_ok_same: "net_ok cfg \<Longrightarrow> same_net cfg cfg' \<Longrightarrow> net_ok cfg'"
proof -
  assume ok: "net_ok cfg" and same: "same_net cfg cfg'"
  have "wired (endname_of (endnames cfg)) (\<lambda>i j. cfg_connected cfg ! i \<and> cfg_connected cfg ! j) (cfg_net cfg')"
    by (rule wired_cong [OF net_okD(4) [OF ok]]) (use same in \<open>simp_all add: same_net_def\<close>)
  then show ?thesis using ok same by (simp add: net_ok_def same_net_def no_stale_def)
qed

lemma if_connected_Some: "if_connected cs j x = Some (Some e) \<longleftrightarrow> j < length cs \<and> cs ! j \<and> x = Some e"
  by (auto simp: if_connected_def split: bind_splits if_splits)

lemma connect_ok:
  assumes "net_ok cfg" and "connect i cfg = Some cfg'"
  shows "net_ok cfg'"
proof -
  let ?n = "cfg_n cfg" and ?cs = "(cfg_connected cfg)[i := True]" and ?en = "endname_of (endnames cfg)"
  note len = net_okD(1-3) [OF assms(1)]
  from assms(2) obtain rn1 rn2 where i: "i < ?n" and cfg': "cfg' = cfg \<lparr>cfg_connected := ?cs, cfg_net := rn2\<rparr>"
    and rn1: "Enable_each True (\<lambda>j. if_connected ?cs j (?en i j)) [0..<?n] (cfg_net cfg) = Some rn1"
    and rn2: "Enable_each True (\<lambda>j. if_connected ?cs j (?en j i)) [0..<?n] rn1 = Some rn2"
    by (auto simp: connect_def Let_def len split: if_splits bind_splits)
  have "if_connected ?cs i (?en i i) \<noteq> None" using rn1 i by (auto simp: Enable_each_value)
  then have "endnames cfg ! i \<noteq> None" using i by (cases "endnames cfg ! i") (simp_all add: len if_connected_def endname_of_def)
  moreover have "wired ?en (\<lambda>a c. ?cs ! a \<and> ?cs ! c) rn2"
  proof -
    let ?l = "\<lambda>a c. cfg_connected cfg ! a \<and> cfg_connected cfg ! c" and ?l1 = "\<lambda>a c. a = i \<and> ?cs ! c"
    have lt: "?en a c = Some e \<Longrightarrow> a < ?n \<and> c < ?n" for a c e using assms(1) by (auto simp: net_ok_def endname_of_Some)
    have pick: "picked (\<lambda>j. if_connected ?cs j (?en i j)) [0..<?n] (NStr e) \<longleftrightarrow> ?l1 a c"
      "picked (\<lambda>j. if_connected ?cs j (?en j i)) [0..<?n] (NStr e) \<longleftrightarrow> c = i \<and> ?cs ! a" if "?en a c = Some e" for a c e
      using lt [OF that] by (auto simp: picked_def if_connected_Some len wired_name [OF net_okD(4) [OF assms(1)] that])
    have "wired ?en (\<lambda>a c. ?l1 a c \<or> ?l a c) rn1"
      by (rule wired_Enable_each [OF net_okD(4) [OF assms(1)] rn1]) (auto simp: pick)
    then have "wired ?en (\<lambda>a c. c = i \<and> ?cs ! a \<or> ?l1 a c \<or> ?l a c) rn2"
      by (rule wired_Enable_each [OF _ rn2]) (auto simp: pick)
    moreover have "?cs ! a \<longleftrightarrow> a = i \<or> cfg_connected cfg ! a" for a using i by (cases "a = i") (simp_all add: len)
    ultimately show ?thesis by (elim wired_cong) auto
  qed
  moreover have "no_stale ?en rn2"
    by (rule no_stale_Enable_each [OF no_stale_Enable_each [OF net_okD(5) [OF assms(1)] rn1] rn2]) (auto simp: if_connected_Some)
  moreover have "servers rn2 = servers (cfg_net cfg)" using rn1 rn2 by (simp add: Enable_each_value)
  ultimately show ?thesis using assms(1) i by (auto simp: net_ok_def cfg' nth_list_update)
qed

lemma disconnect_ok:
  assumes "net_ok cfg" and "disconnect i cfg = Some cfg'"
  shows "net_ok cfg'" and "\<exists>rn. cfg' = cfg \<lparr>cfg_connected := (cfg_connected cfg)[i := False], cfg_net := rn\<rparr>" and "i < cfg_n cfg"
proof -
  let ?n = "cfg_n cfg" and ?cs = "(cfg_connected cfg)[i := False]" and ?en = "endname_of (endnames cfg)"
  note len = net_okD(1-3) [OF assms(1)]
  from assms(2) obtain rn1 rn2 where i: "i < ?n" and cfg': "cfg' = cfg \<lparr>cfg_connected := ?cs, cfg_net := rn2\<rparr>"
    and rn1: "Enable_each False (\<lambda>j. if_named (endnames cfg) i (?en i j)) [0..<?n] (cfg_net cfg) = Some rn1"
    and rn2: "Enable_each False (\<lambda>j. if_named (endnames cfg) j (?en j i)) [0..<?n] rn1 = Some rn2"
    by (auto simp: disconnect_def Let_def len split: if_splits bind_splits)
  let ?l = "\<lambda>a c. cfg_connected cfg ! a \<and> cfg_connected cfg ! c"
  have lt: "?en a c = Some e \<Longrightarrow> a < ?n \<and> c < ?n \<and> endnames cfg ! a \<noteq> None" for a c e using assms(1) by (auto simp: net_ok_def endname_of_Some)
  have pick: "picked (\<lambda>j. if_named (endnames cfg) i (?en i j)) [0..<?n] (NStr e) \<longleftrightarrow> a = i"
    "picked (\<lambda>j. if_named (endnames cfg) j (?en j i)) [0..<?n] (NStr e) \<longleftrightarrow> c = i" if "?en a c = Some e" for a c e
    using lt [OF that] by (auto simp: picked_def if_named_Some len wired_name [OF net_okD(4) [OF assms(1)] that])
  have "wired ?en (\<lambda>a c. a \<noteq> i \<and> ?l a c) rn1"
    by (rule wired_Enable_each [OF net_okD(4) [OF assms(1)] rn1]) (auto simp: pick)
  then have "wired ?en (\<lambda>a c. c \<noteq> i \<and> a \<noteq> i \<and> ?l a c) rn2"
    by (rule wired_Enable_each [OF _ rn2]) (auto simp: pick)
  moreover have cs: "?cs ! a \<longleftrightarrow> a \<noteq> i \<and> cfg_connected cfg ! a" for a using i by (cases "a = i") (simp_all add: len)
  ultimately have "wired ?en (\<lambda>a c. ?cs ! a \<and> ?cs ! c) rn2" by (elim wired_cong) auto
  moreover have "no_stale ?en rn2"
    by (rule no_stale_Enable_each [OF no_stale_Enable_each [OF net_okD(5) [OF assms(1)] rn1] rn2]) (auto simp: if_named_Some)
  moreover have "servers rn2 = servers (cfg_net cfg)" using rn1 rn2 by (simp add: Enable_each_value)
  ultimately show "net_ok cfg'" using assms(1) cs by (simp add: net_ok_def cfg')
  show "\<exists>rn. cfg' = cfg \<lparr>cfg_connected := ?cs, cfg_net := rn\<rparr>" "i < ?n" using cfg' i by blast+
qed

lemma crash1_ok:
  assumes "net_ok cfg" and "crash1 i cfg = Some cfg'"
  shows "net_ok cfg'" and "\<not> cfg_connected cfg' ! i" and "cfg_n cfg' = cfg_n cfg" and "i < cfg_n cfg"
proof -
  from assms(2) obtain cfg1 where d: "disconnect i cfg = Some cfg1" by (auto simp: crash1_def split: bind_splits)
  note ok = disconnect_ok [OF assms(1) d]
  from ok(2) have c1: "cfg_connected cfg1 = (cfg_connected cfg)[i := False]" "cfg_n cfg1 = cfg_n cfg" by auto
  from assms(2) have "\<exists>ps old. cfg' = cfg1 \<lparr>cfg_net := DeleteServer (NInt (int i)) (cfg_net cfg1), saved := ps, cfg_old := old,
      rafts := (rafts cfg1)[i := None]\<rparr>"
    unfolding crash1_def d by (cases cfg1) (auto simp: Let_def list_update_overwrite split: option.splits if_splits bind_splits dest!: list_update_None)
  then obtain ps old where cfg': "cfg' = cfg1 \<lparr>cfg_net := DeleteServer (NInt (int i)) (cfg_net cfg1), saved := ps, cfg_old := old,
      rafts := (rafts cfg1)[i := None]\<rparr>" by blast
  have "wired (endname_of (endnames cfg1)) (\<lambda>i j. cfg_connected cfg1 ! i \<and> cfg_connected cfg1 ! j) (cfg_net cfg')"
    by (rule wired_cong [OF net_okD(4) [OF ok(1)]]) (simp_all add: cfg' DeleteServer_def)
  moreover have "no_stale (endname_of (endnames cfg1)) (cfg_net cfg')"
    using net_okD(5) [OF ok(1)] by (simp add: no_stale_def cfg' DeleteServer_def)
  ultimately show "net_ok cfg'" using ok(1) by (simp add: net_ok_def cfg' DeleteServer_def nth_list_update)
  show "\<not> cfg_connected cfg' ! i" "cfg_n cfg' = cfg_n cfg" "i < cfg_n cfg"
    using c1 ok(3) net_okD(1) [OF assms(1)] by (simp_all add: cfg')
qed

lemma start1_value:
  assumes "start1 decode i names p cfg = Some cfg'" and "crash1 i cfg = Some cfg1"
  shows "\<exists>rn la ps ls rf. MakeEnds False (map (\<lambda>j. (names j, NInt (int j))) [0..<cfg_n cfg1]) (cfg_net cfg1) = Some rn
    \<and> cfg' = cfg1 \<lparr>endnames := (endnames cfg1)[i := Some (map names [0..<cfg_n cfg1])], cfg_net := AddServer (NInt (int i)) p rn,
         cfg_lastApplied := la, saved := ps, logs := ls, rafts := (rafts cfg1)[i := Some rf]\<rparr>"
  using assms(1) unfolding start1_def assms(2)
  by (cases cfg1) (auto simp: Let_def ingestSnap_def split: option.splits if_splits bind_splits)

lemma start1_ok:
  assumes "net_ok cfg" and "start1 decode i names p cfg = Some cfg'"
  shows "net_ok cfg'"
proof -
  from assms(2) obtain cfg1 where c: "crash1 i cfg = Some cfg1" by (auto simp: start1_def split: bind_splits)
  note ok = crash1_ok [OF assms(1) c]
  let ?n = "cfg_n cfg1" and ?en = "endname_of (endnames cfg1)"
  from start1_value [OF assms(2) c] obtain rn la ps ls rf where
    rn: "MakeEnds False (map (\<lambda>j. (names j, NInt (int j))) [0..<?n]) (cfg_net cfg1) = Some rn"
    and cfg': "cfg' = cfg1 \<lparr>endnames := (endnames cfg1)[i := Some (map names [0..<?n])], cfg_net := AddServer (NInt (int i)) p rn,
         cfg_lastApplied := la, saved := ps, logs := ls, rafts := (rafts cfg1)[i := Some rf]\<rparr>" by blast
  have i: "i < ?n" "\<not> cfg_connected cfg1 ! i" using ok by auto
  note len = net_okD(1-3) [OF ok(1)]
  have en: "endname_of (endnames cfg') = ?en(i := \<lambda>j. if j < ?n then Some (names j) else None)"
    using i(1) by (intro ext) (simp add: cfg' endname_of_update len)
  have "wired (endname_of (endnames cfg')) (\<lambda>a c. a \<noteq> i \<and> cfg_connected cfg1 ! a \<and> cfg_connected cfg1 ! c) rn"
    unfolding en by (rule wired_restart [OF net_okD(4) [OF ok(1)] rn])
  then have "wired (endname_of (endnames cfg')) (\<lambda>a c. cfg_connected cfg' ! a \<and> cfg_connected cfg' ! c) (cfg_net cfg')"
    by (rule wired_cong) (use i in \<open>auto simp: cfg' AddServer_def\<close>)
  moreover have "no_stale (endname_of (endnames cfg')) rn"
    unfolding en by (rule no_stale_restart [OF net_okD(5,4) [OF ok(1)] _ rn]) (use i in simp)
  moreover have "servers rn = servers (cfg_net cfg1)" using rn by (simp add: MakeEnds_value add_ends_def)
  ultimately show ?thesis using ok(1) i
    by (auto simp: net_ok_def cfg' AddServer_def no_stale_def nth_list_update)
qed

lemma net_ok_logs: "net_ok (cfg \<lparr>logs := ls\<rparr>) = net_ok cfg"
  by (simp add: net_ok_def)

lemma make_config_ok:
  assumes "make_config decode names srvs n unreliable = Some cfg"
  shows "net_ok cfg"
proof -
  have "net_ok (cfg0 :: 'a config)" if "cfg0 = (setunreliable unreliable (new_config n)) \<lparr>cfg_net := LongDelays True rn\<rparr>"
    "rn = cfg_net (setunreliable unreliable (new_config n :: 'a config))" for cfg0 rn
    by (auto simp: that net_ok_def setunreliable_def new_config_def MakeNetwork_def Reliable_def LongDelays_def wired_def no_stale_def
        endname_of_Some map_get0_def)
  with assms show ?thesis unfolding make_config_def Let_def
    by (auto split: bind_splits if_splits elim!: foldo_inv [where P = net_ok] intro: connect_ok start1_ok [rotated] simp: net_ok_logs)
qed

text \<open>
  The configurations a test gets to: it starts, crashes, connects and disconnects peers and changes
  the modes of the network. Everything else (the peers, the appliers, the calls on the network, the
  other functions of the configuration) leaves alone what \<open>same_net\<close> compares.
\<close>

inductive cfg_reach :: "(octets \<Rightarrow> (int \<times> 'c option list) option) \<Rightarrow> 'c config \<Rightarrow> bool" for decode where
  make: "make_config decode names srvs n unreliable = Some cfg \<Longrightarrow> cfg_reach decode cfg"
| start: "cfg_reach decode cfg \<Longrightarrow> start1 decode i names p cfg = Some cfg' \<Longrightarrow> cfg_reach decode cfg'"
| crash: "cfg_reach decode cfg \<Longrightarrow> crash1 i cfg = Some cfg' \<Longrightarrow> cfg_reach decode cfg'"
| connected: "cfg_reach decode cfg \<Longrightarrow> connect i cfg = Some cfg' \<Longrightarrow> cfg_reach decode cfg'"
| disconnected: "cfg_reach decode cfg \<Longrightarrow> disconnect i cfg = Some cfg' \<Longrightarrow> cfg_reach decode cfg'"
| unreliable: "cfg_reach decode cfg \<Longrightarrow> cfg_reach decode (setunreliable b cfg)"
| longreordering: "cfg_reach decode cfg \<Longrightarrow> cfg_reach decode (setlongreordering b cfg)"
| other: "cfg_reach decode cfg \<Longrightarrow> same_net cfg cfg' \<Longrightarrow> cfg_reach decode cfg'"

lemma cfg_reach_ok: "cfg_reach decode cfg \<Longrightarrow> net_ok cfg"
proof (induction rule: cfg_reach.induct)
  case (unreliable cfg b)
  show ?case by (rule net_ok_same [OF unreliable.IH]) (simp add: same_net_def setunreliable_def Reliable_def)
next
  case (longreordering cfg b)
  show ?case by (rule net_ok_same [OF longreordering.IH]) (simp add: same_net_def setlongreordering_def LongReordering_def)
qed (auto intro: make_config_ok start1_ok crash1_ok connect_ok disconnect_ok net_ok_same)

text \<open>A configuration for the witnesses: three peers, one disconnected, one restarted.\<close>

definition sample_names :: "nat \<Rightarrow> nat \<Rightarrow> string" where
  "sample_names i j = [char_of (65 + i), char_of (97 + j)]"

definition sample_config :: "nat config option" where
  "sample_config = do {
     cfg \<leftarrow> make_config (\<lambda>_. None) sample_names (\<lambda>i. i) 3 False;
     cfg \<leftarrow> disconnect 2 cfg;
     cfg \<leftarrow> start1 (\<lambda>_. None) 0 (\<lambda>j. CHR ''x'' # sample_names 0 j) 7 cfg;
     connect 0 cfg }"

lemma sample_config_reach:
  "\<exists>cfg. cfg_reach (\<lambda>_. None) cfg \<and> endnames cfg = [Some [''xAa'', ''xAb'', ''xAc''], Some [''Ba'', ''Bb'', ''Bc''], Some [''Ca'', ''Cb'', ''Cc'']]
     \<and> cfg_connected cfg = [True, True, False] \<and> rafts (cfg :: nat config) ! 1 \<noteq> None"
proof -
  have "case sample_config of None \<Rightarrow> False
      | Some cfg \<Rightarrow> endnames cfg = [Some [''xAa'', ''xAb'', ''xAc''], Some [''Ba'', ''Bb'', ''Bc''], Some [''Ca'', ''Cb'', ''Cc'']]
          \<and> cfg_connected cfg = [True, True, False] \<and> \<not> Option.is_none (rafts cfg ! 1)" by code_simp
  then obtain cfg where cfg: "sample_config = Some cfg"
    "endnames cfg = [Some [''xAa'', ''xAb'', ''xAc''], Some [''Ba'', ''Bb'', ''Bc''], Some [''Ca'', ''Cb'', ''Cc'']]"
    "cfg_connected cfg = [True, True, False]" "rafts cfg ! 1 \<noteq> None" by (auto simp: Option.is_none_def split: option.splits)
  from cfg(1) obtain c1 c2 c3 where "make_config (\<lambda>_. None) sample_names (\<lambda>i. i) 3 False = Some c1" "disconnect 2 c1 = Some c2"
    "start1 (\<lambda>_. None) 0 (\<lambda>j. CHR ''x'' # sample_names 0 j) 7 c2 = Some c3" "connect 0 c3 = Some cfg"
    unfolding sample_config_def by (auto split: bind_splits)
  then have "cfg_reach (\<lambda>_. None) cfg" by (metis make disconnected start connected)
  with cfg show ?thesis by blast
qed

section \<open>Isolation and snapshots\<close>

text \<open>
  C12. In every configuration a test can get to, by starting, crashing, connecting and disconnecting
  peers in any order, a request gets to the server of peer \<open>j\<close> exactly if it was sent through the end
  that the present instance of a connected peer has for \<open>j\<close>, peer \<open>j\<close> is connected, and it is running.
  In particular the ends of a crashed instance stay disabled for ever.
\<close>

theorem config_isolation:
  assumes "cfg_reach decode cfg"
  shows "(\<exists>info. reach_server req (cfg_net cfg) = Some info \<and> i_servername info = NInt (int j)) \<longleftrightarrow>
    (\<exists>i e. endname_of (endnames cfg) i j = Some e \<and> req_endname req = NStr e
       \<and> cfg_connected cfg ! i \<and> cfg_connected cfg ! j \<and> rafts cfg ! j \<noteq> None)"
proof -
  note ok = cfg_reach_ok [OF assms]
  let ?en = "endname_of (endnames cfg)"
  have lt: "?en a c = Some e \<Longrightarrow> a < cfg_n cfg \<and> c < cfg_n cfg" for a c e using ok by (auto simp: net_ok_def endname_of_Some)
  have run: "c < cfg_n cfg \<Longrightarrow> map_get0 None (servers (cfg_net cfg)) (NInt (int c)) \<noteq> None \<longleftrightarrow> rafts cfg ! c \<noteq> None" for c
    using ok by (simp add: net_ok_def)
  show ?thesis
  proof (cases "\<exists>a c e. req_endname req = NStr e \<and> ?en a c = Some e")
    case True
    then obtain a c e where e: "?en a c = Some e" and req: "req_endname req = NStr e" by blast
    note r = wired_reach [OF net_okD(4) [OF ok] e req] and n = wired_name [OF net_okD(4) [OF ok] e]
    have "(\<exists>info. reach_server req (cfg_net cfg) = Some info \<and> i_servername info = NInt (int j)) \<longleftrightarrow>
        c = j \<and> cfg_connected cfg ! a \<and> cfg_connected cfg ! c \<and> rafts cfg ! c \<noteq> None"
      using r run lt [OF e] by auto
    also have "\<dots> \<longleftrightarrow> (\<exists>i e. ?en i j = Some e \<and> req_endname req = NStr e
       \<and> cfg_connected cfg ! i \<and> cfg_connected cfg ! j \<and> rafts cfg ! j \<noteq> None)"
      using n req by auto
    finally show ?thesis .
  next
    case False
    then have "\<not> map_get0 False (enabled (cfg_net cfg)) (req_endname req)" using net_okD(5) [OF ok] unfolding no_stale_def by blast
    from disabled_reach [OF this] False show ?thesis by auto
  qed
qed

theorem config_isolation_witness:
  "\<exists>cfg :: nat config. cfg_reach (\<lambda>_. None) cfg
     \<and> (\<exists>info. reach_server \<lparr>req_endname = NStr ''xAb'', svcMeth = [], argsType = 0, req_args = []\<rparr> (cfg_net cfg) = Some info
          \<and> i_servername info = NInt 1)
     \<and> \<not> (\<exists>info. reach_server \<lparr>req_endname = NStr ''Ab'', svcMeth = [], argsType = 0, req_args = []\<rparr> (cfg_net cfg) = Some info
          \<and> i_servername info = NInt 1)"
proof -
  from sample_config_reach obtain cfg :: "nat config" where cfg: "cfg_reach (\<lambda>_. None) cfg"
    "endnames cfg = [Some [''xAa'', ''xAb'', ''xAc''], Some [''Ba'', ''Bb'', ''Bc''], Some [''Ca'', ''Cb'', ''Cc'']]"
    "cfg_connected cfg = [True, True, False]" "rafts cfg ! 1 \<noteq> None" by blast
  have "endname_of (endnames cfg) 0 1 = Some ''xAb''" by (simp add: cfg(2) endname_of_Some)
  moreover have "endname_of (endnames cfg) i 1 \<noteq> Some ''Ab''" for i
    by (auto simp: cfg(2) endname_of_Some nth_Cons split: nat.splits)
  ultimately show ?thesis using config_isolation [OF cfg(1), of _ 1] cfg by force
qed


text \<open>An encoding for the witness: the sign and the number in unary, then a byte for each command.\<close>

definition sample_enc :: "int \<Rightarrow> bool option list \<Rightarrow> octets" where
  "sample_enc k xs = (if k < 0 then 1 else 0) # replicate (nat \<bar>k\<bar>) 1
     @ 0 # map (\<lambda>x. case x of None \<Rightarrow> 0 | Some False \<Rightarrow> 1 | Some True \<Rightarrow> 2) xs"

definition sample_dec :: "octets \<Rightarrow> (int \<times> bool option list) option" where
  "sample_dec bs = (case bs of [] \<Rightarrow> None | s # bs \<Rightarrow>
     let k = int (length (takeWhile (\<lambda>b. b = 1) bs)) in
     Some (if s = 1 then - k else k,
       map (\<lambda>b. if b = 0 then None else Some (b = 2)) (tl (dropWhile (\<lambda>b. b = 1) bs))))"

lemma sample_dec_enc: "sample_dec (sample_enc k xs) = Some (k, xs)"
proof -
  have "takeWhile (\<lambda>b. b = 1) (replicate n 1 @ 0 # r) = replicate n 1" "dropWhile (\<lambda>b. b = 1) (replicate n 1 @ 0 # r) = 0 # r"
    for n and r :: octets by (induction n) auto
  moreover have "map (\<lambda>b. if b = 0 then None else Some (b = (2 :: 8 word)))
      (map (\<lambda>x. case x of None \<Rightarrow> 0 | Some False \<Rightarrow> 1 | Some True \<Rightarrow> 2) xs) = xs"
    by (induction xs) (auto split: option.splits bool.splits)
  ultimately show ?thesis by (simp add: sample_dec_def sample_enc_def Let_def)
qed

definition sample_snap :: "bool config" where
  "sample_snap = (new_config 1) \<lparr>logs := [[1 \<mapsto> Some True, 2 \<mapsto> Some False]]\<rparr>"


end
