(* ===== verification/Raft_Checks.thy ===== *)
theory Raft_Checks
  imports Raft_Config
begin

text \<open>
  What the checks of \<open>raft/config.go\<close> establish: the appliers on the messages of a group of peers
  (\<open>Raft_Cluster\<close>), \<open>checkOneLeader\<close>, and \<open>one\<close>. The functions look at the peers one after the other
  while these go on; \<open>(run ^^ Suc i) c\<close> is the configuration in which peer \<open>i\<close> is looked at by a scan
  that starts in \<open>c\<close>.
\<close>

section \<open>Appliers\<close>

text \<open>
  The goroutines \<open>applier\<close> of all peers, with their messages in the order in which they get the lock.
  \<open>delivered ms i\<close> are those of peer \<open>i\<close>; \<open>log_of\<close> is the map they leave, \<open>in_order\<close> and \<open>agree\<close> are what
  the appliers check.
\<close>

definition appliers :: "(nat \<times> 'c ApplyMsg) list \<Rightarrow> ('c, 'z) config_scheme \<Rightarrow> ('c, 'z) config_scheme option" where
  "appliers ms cfg = foldo (\<lambda>(i, m). applier i m) ms cfg"

definition delivered :: "(nat \<times> 'c ApplyMsg) list \<Rightarrow> nat \<Rightarrow> 'c ApplyMsg list" where
  "delivered ms i = map snd (filter (\<lambda>x. fst x = i) ms)"

definition log_of :: "'c ApplyMsg list \<Rightarrow> int \<rightharpoonup> 'c option" where
  "log_of as k = (if 1 \<le> k \<and> k \<le> int (length as) then Some (am_Command (as ! nat (k - 1))) else None)"

definition in_order :: "'c ApplyMsg list \<Rightarrow> bool" where
  "in_order as \<longleftrightarrow> (\<forall>k<length as. CommandValid (as ! k) \<and> CommandIndex (as ! k) = int k + 1)"

definition agree :: "'c ApplyMsg list \<Rightarrow> 'c ApplyMsg list \<Rightarrow> bool" where
  "agree as bs \<longleftrightarrow> (\<forall>k. k < length as \<longrightarrow> k < length bs \<longrightarrow> am_Command (as ! k) = am_Command (bs ! k))"

lemma mismatch_None: "mismatch i m j ls err = None \<longleftrightarrow> err = None \<and> (\<forall>l\<in>set ls. l (CommandIndex m) \<in> {None, Some (am_Command m)})"
  by (induction ls arbitrary: j err) (auto split: option.splits)

lemma delivered_snoc: "delivered (ms @ [(i, m)]) j = (if j = i then delivered ms j @ [m] else delivered ms j)"
  by (simp add: delivered_def)

lemma log_of_snoc: "log_of (as @ [m]) = (log_of as)(int (length as) + 1 \<mapsto> am_Command m)"
  by (rule ext) (auto simp: log_of_def nth_append)

lemma in_order_snoc: "in_order (as @ [m]) \<longleftrightarrow> in_order as \<and> CommandValid m \<and> CommandIndex m = int (length as) + 1"
  by (auto simp: in_order_def nth_append less_Suc_eq)

lemma agree_sym: "agree as bs = agree bs as"
  by (auto simp: agree_def)

lemma agree_snoc: "agree (as @ [m]) bs \<longleftrightarrow> agree as bs \<and> log_of bs (int (length as) + 1) \<in> {None, Some (am_Command m)}"
  by (auto simp: agree_def nth_append log_of_def less_Suc_eq nat_int_add)

lemma agree_snoc': "agree bs (as @ [m]) \<longleftrightarrow> agree bs as \<and> log_of bs (int (length as) + 1) \<in> {None, Some (am_Command m)}"
  using agree_snoc agree_sym by metis

lemma agree_refl [simp]: "agree as as"
  by (simp add: agree_def)

text \<open>The effect of one message on the maps, which hold what was delivered before.\<close>

lemma applier_next:
  assumes "length (logs cfg) = n" and "\<forall>j<n. logs cfg ! j = log_of (as j)" and "i < n" and "in_order (as i @ [m])"
  shows "if \<forall>j<n. log_of (as j) (CommandIndex m) \<in> {None, Some (am_Command m)}
    then \<exists>cfg'. applier i m cfg = Some cfg' \<and> logs cfg' = (logs cfg)[i := log_of (as i @ [m])] else applier i m cfg = None"
proof -
  from assms(4) have m: "CommandValid m" "CommandIndex m = int (length (as i)) + 1" by (simp_all add: in_order_snoc)
  have "mismatch i m 0 (logs cfg) None = None \<longleftrightarrow> (\<forall>j<n. log_of (as j) (CommandIndex m) \<in> {None, Some (am_Command m)})"
    using assms(1,2) by (fastforce simp: mismatch_None all_set_conv_all_nth)
  moreover have "CommandIndex m > 1 \<Longrightarrow> log_of (as i) (CommandIndex m - 1) \<noteq> None" using m(2) by (simp add: log_of_def Suc_le_eq)
  ultimately show ?thesis using assms(1,2,3) m
    by (auto simp: applier_def checkLogs_def Let_def log_of_snoc)
qed

lemma appliers_run:
  assumes "logs cfg = replicate n Map.empty" and "\<forall>x\<in>set ms. fst x < n" and "\<forall>i<n. in_order (delivered ms i)"
  shows "if \<forall>i<n. \<forall>j<n. agree (delivered ms i) (delivered ms j)
    then \<exists>cfg'. appliers ms cfg = Some cfg' \<and> length (logs cfg') = n \<and> (\<forall>j<n. logs cfg' ! j = log_of (delivered ms j))
    else appliers ms cfg = None"
  using assms(2,3)
proof (induction ms rule: rev_induct)
  case Nil
  then show ?case using assms(1) by (auto simp: appliers_def delivered_def log_of_def agree_def)
next
  case (snoc x ms)
  obtain i m where x: "x = (i, m)" by fastforce
  let ?d = "delivered ms" and ?e = "delivered (ms @ [x])"
  have i: "i < n" "in_order (?d i @ [m])" using snoc.prems x by (auto simp: delivered_snoc split: if_splits)
  have "\<forall>j<n. in_order (?d j)" using snoc.prems(2) x by (auto simp: delivered_snoc in_order_snoc split: if_splits)
  note IH = snoc.IH [OF _ this]
  have m: "CommandIndex m = int (length (?d i)) + 1" using i(2) by (simp add: in_order_snoc)
  have agree: "(\<forall>a<n. \<forall>b<n. agree (?e a) (?e b)) \<longleftrightarrow> (\<forall>a<n. \<forall>b<n. agree (?d a) (?d b))
      \<and> (\<forall>b<n. log_of (?d b) (CommandIndex m) \<in> {None, Some (am_Command m)})"
  proof -
    define L where "L b \<longleftrightarrow> log_of (?d b) (CommandIndex m) \<in> {None, Some (am_Command m)}" for b
    have "log_of (?d i) (CommandIndex m) = None" by (simp add: m log_of_def)
    then have "agree (?e a) (?e b) \<longleftrightarrow> agree (?d a) (?d b) \<and> (a = i \<longrightarrow> L b) \<and> (b = i \<longrightarrow> L a)" for a b
      by (auto simp: L_def x delivered_snoc agree_snoc agree_snoc' log_of_snoc m)
    then show ?thesis using i(1) unfolding L_def [symmetric] by (simp only:) blast
  qed
  show ?case
  proof (cases "\<forall>a<n. \<forall>b<n. agree (?d a) (?d b)")
    case True
    with IH snoc.prems(1) obtain cfg1 where c1: "appliers ms cfg = Some cfg1" "length (logs cfg1) = n"
      "\<forall>j<n. logs cfg1 ! j = log_of (?d j)" by auto
    from applier_next [OF c1(2,3) i] c1 i(1) True agree show ?thesis
      by (auto simp: appliers_def foldo_append x delivered_snoc nth_list_update)
  next
    case False
    with IH snoc.prems(1) have "appliers ms cfg = None" by auto
    with False agree show ?thesis by (auto simp: appliers_def foldo_append)
  qed
qed

lemma applied_valid: "cl_reach n c \<Longrightarrow> m \<in> set (applied c i) \<Longrightarrow> CommandValid m"
proof (induction rule: cl_reach.induct)
  case (step c c')
  from step(2,1,3,4) show ?case
    by (cases rule: cl_step.cases) (auto simp: apply_turn_def Let_def split: if_splits bind_splits)
qed (simp add: cl_start_def)

lemma applied_in_order': "cl_reach n c \<Longrightarrow> 0 < n \<Longrightarrow> i < n \<Longrightarrow> in_order (applied c i)"
  unfolding in_order_def
proof (intro allI impI)
  fix k assume a: "cl_reach n c" "0 < n" "i < n" "k < length (applied c i)"
  note o = applied_in_order [OF a(1-3)]
  have "length (applied c i) = nat (lastApplied (nodes c i))" using arg_cong [OF o, of length] by simp
  then have "CommandIndex (applied c i ! k) = int k + 1" using arg_cong [OF o, of "\<lambda>xs. xs ! k"] a(4) by (simp del: upt_Suc)
  then show "CommandValid (applied c i ! k) \<and> CommandIndex (applied c i ! k) = int k + 1"
    using applied_valid [OF a(1), of "applied c i ! k" i] a(4) by simp
qed

text \<open>
  C11. The appliers of the tester are exact. Whatever the \<open>n\<close> peers of a group have delivered in a
  reachable state, and in whatever order their messages were read, the test is stopped exactly if
  two peers delivered different commands for the same index. It is never stopped for messages out
  of order.
\<close>

theorem appliers_exact:
  assumes "cl_reach n c" and "0 < n" and "logs cfg = replicate n Map.empty"
    and "\<forall>x\<in>set ms. fst x < n" and "\<forall>i<n. delivered ms i = applied c i"
  shows "appliers ms cfg = None \<longleftrightarrow>
    (\<exists>i<n. \<exists>j<n. \<exists>k. k < length (applied c i) \<and> k < length (applied c j) \<and> am_Command (applied c i ! k) \<noteq> am_Command (applied c j ! k))"
proof -
  have "\<forall>i<n. in_order (delivered ms i)" using assms(5) applied_in_order' [OF assms(1,2)] by simp
  from appliers_run [OF assms(3,4) this] assms(5) show ?thesis unfolding agree_def by (auto split: if_splits)
qed

theorem appliers_exact_witness:
  "\<exists>c :: nat cluster. cl_reach 3 c
     \<and> appliers (map (Pair 0) (applied c 0) @ map (Pair 1) (applied c 1) @ map (Pair 2) (applied c 2)) (new_config 3) = None"
proof -
  let ?P = "\<lambda>c. map am_Command (applied c 0) = [Some 7] \<and> map am_Command (applied c 2) = [Some 8]"
  have "case evs_run 3 run_commit (init_run 3) of None \<Rightarrow> False | Some s \<Rightarrow> ?P (fst s)" by code_simp
  from run_reach [where P = "\<lambda>c ps. ?P c", OF this] obtain c :: "nat cluster" where c: "cl_reach 3 c" "?P c"
    by (auto simp: with_procs_def)
  let ?ms = "map (Pair 0) (applied c 0) @ map (Pair 1) (applied c 1) @ map (Pair 2) (applied c 2)"
  have d: "\<forall>i<3. delivered ?ms i = applied c i" by (auto simp: delivered_def less_Suc_eq numeral_3_eq_3 numeral_2_eq_2 filter_map comp_def)
  have "appliers ?ms (new_config 3) = None \<longleftrightarrow>
    (\<exists>i<3. \<exists>j<3. \<exists>k. k < length (applied c i) \<and> k < length (applied c j) \<and> am_Command (applied c i ! k) \<noteq> am_Command (applied c j ! k))"
    by (rule appliers_exact [OF c(1) _ _ _ d]) (auto simp: new_config_def)
  moreover have "0 < length (applied c 0)" "0 < length (applied c 2)" "am_Command (applied c 0 ! 0) \<noteq> am_Command (applied c 2 ! 0)"
    using c(2) by auto
  then have "\<exists>i<3. \<exists>j<3. \<exists>k. k < length (applied c i) \<and> k < length (applied c j) \<and> am_Command (applied c i ! k) \<noteq> am_Command (applied c j ! k)"
    by (rule_tac x = 0 in exI, simp, rule_tac x = 2 in exI, simp, rule_tac x = 0 in exI, simp)
  ultimately have "appliers ?ms (new_config 3) = None" by simp
  with c(1) show ?thesis by blast
qed

section \<open>Leaders\<close>

text \<open>\<open>claims run c i t\<close>: a scan from \<open>c\<close> finds peer \<open>i\<close> connected and leader of term \<open>t\<close>.\<close>

definition claims :: "(('c, 'z) config_scheme \<Rightarrow> ('c, 'z) config_scheme) \<Rightarrow> ('c, 'z) config_scheme \<Rightarrow> nat \<Rightarrow> int \<Rightarrow> bool" where
  "claims run c i t \<longleftrightarrow> slice_get (cfg_connected ((run ^^ Suc i) c)) (int i) = Some True \<and> state_of i ((run ^^ Suc i) c) = Some (t, True)"

definition leaders_ok :: "(nat \<Rightarrow> int \<Rightarrow> bool) \<Rightarrow> nat \<Rightarrow> (int \<times> nat list) list \<Rightarrow> bool" where
  "leaders_ok cl k ls \<longleftrightarrow> distinct (map fst ls) \<and> [] \<notin> snd ` set ls \<and> (\<forall>t. map_get0 [] (map_of ls) t = filter (\<lambda>i. cl i t) [0..<k])"

lemma add_leader_keys: "fst ` set (add_leader t i ls) = insert t (fst ` set ls)"
proof (induction ls)
  case (Cons x ls)
  then show ?case by (cases x) (auto simp: insert_commute)
qed simp

lemma add_leader_distinct: "distinct (map fst ls) \<Longrightarrow> distinct (map fst (add_leader t i ls))"
  by (induction ls) (auto simp: add_leader_keys)

lemma add_leader_ne: "[] \<notin> snd ` set ls \<Longrightarrow> [] \<notin> snd ` set (add_leader t i ls)"
proof (induction ls)
  case (Cons x ls)
  then show ?case by (cases x) (simp split: if_split)
qed simp

lemma add_leader_get: "map_get0 [] (map_of (add_leader t i ls)) t' = map_get0 [] (map_of ls) t' @ (if t' = t then [i] else [])"
  by (induction ls) (auto simp: map_get0_def)

lemma scan_leaders_ok:
  assumes "scan_leaders run [k..<n] ls ((run ^^ k) c) = Some (c', ls')" and "leaders_ok (claims run c) k ls" and "k \<le> n"
  shows "c' = (run ^^ n) c \<and> leaders_ok (claims run c) n ls'"
  using assms
proof (induction "n - k" arbitrary: k ls)
  case (Suc d)
  then have k: "[k..<n] = k # [Suc k..<n]" "d = n - Suc k" "Suc k \<le> n" by (auto simp: upt_conv_Cons)
  let ?s = "(run ^^ Suc k) c"
  let ?ls = "if \<exists>t. claims run c k t then add_leader (fst (the (state_of k ?s))) k ls else ls"
  have ok: "leaders_ok (claims run c) (Suc k) ?ls"
    using Suc.prems(2) add_leader_ne by (fastforce simp: leaders_ok_def add_leader_distinct add_leader_get claims_def)
  have "scan_leaders run [Suc k..<n] ?ls ?s = Some (c', ls')"
    using Suc.prems(1) unfolding k(1) by (auto simp: claims_def Let_def split: bind_splits if_splits)
  from Suc.hyps(1) [OF k(2) this ok k(3)] show ?case .
qed simp

lemma last_term_Some:
  "last_term ls x = Some y \<Longrightarrow> (\<forall>p\<in>set ls. length (snd p) \<le> 1) \<and> x \<le> y \<and> (\<forall>p\<in>set ls. fst p \<le> y)"
  by (induction ls arbitrary: x rule: list.induct) (fastforce split: if_splits)+

lemma leaders_entry: "leaders_ok cl n ls \<Longrightarrow> cl j t \<Longrightarrow> j < n \<Longrightarrow> (t, filter (\<lambda>i. cl i t) [0..<n]) \<in> set ls"
proof -
  assume a: "leaders_ok cl n ls" "cl j t" "j < n"
  then have "filter (\<lambda>i. cl i t) [0..<n] \<noteq> []" by (auto simp: filter_empty_conv)
  with a(1) have "map_of ls t = Some (filter (\<lambda>i. cl i t) [0..<n])"
    unfolding leaders_ok_def map_get0_def by (metis option.case_eq_if option.collapse)
  then show ?thesis by (rule map_of_SomeD)
qed

lemma scan_two_leaders:
  assumes "leaders_ok cl n ls" and "set ls2 = set ls" and "a < b" and "b < n" and "cl a t" and "cl b t"
  shows "last_term ls2 x = None"
proof (rule ccontr)
  assume "last_term ls2 x \<noteq> None"
  then have "\<forall>p\<in>set ls. length (snd p) \<le> 1" using last_term_Some assms(2) by fastforce
  with leaders_entry [OF assms(1,5)] assms(3,4) have "length (filter (\<lambda>i. cl i t) [0..<n]) \<le> 1" by force
  moreover have "{a, b} \<subseteq> set (filter (\<lambda>i. cl i t) [0..<n])" using assms(3-6) by auto
  then have "card {a, b} \<le> length (filter (\<lambda>i. cl i t) [0..<n])" by (meson List.finite_set card_length card_mono order_trans)
  ultimately show False using assms(3) by simp
qed

lemma scan_one_leader:
  assumes "leaders_ok cl n ls" and "set ls2 = set ls" and "last_term ls2 x = Some t"
    and "slice_get (map_get0 [] (map_of ls) t) 0 = Some i"
  shows "i < n \<and> cl i t \<and> (\<forall>j<n. \<forall>t'. cl j t' \<longrightarrow> t' < t \<or> t' = t \<and> j = i)"
proof -
  from assms(1,4) have "i \<in> set (filter (\<lambda>i. cl i t) [0..<n])" by (auto simp: leaders_ok_def dest: slice_get_Some_mem)
  then have i: "i < n" "cl i t" by auto
  have "t' < t \<or> t' = t \<and> j = i" if j: "j < n" "cl j t'" for j t'
  proof -
    have "t' \<le> t" using leaders_entry [OF assms(1) j(2,1)] last_term_Some [OF assms(3)] assms(2) by force
    moreover have "j = i" if "t' = t" using scan_two_leaders [OF assms(1,2), of j i t x] scan_two_leaders [OF assms(1,2), of i j t x] i j that assms(3)
      by (cases j i rule: linorder_cases) auto
    ultimately show ?thesis by auto
  qed
  with i show ?thesis by blast
qed

lemma checkOneLeader_loop_sound:
  assumes "\<forall>l. set (ord l) = set l" and "checkOneLeader_loop ord run iters cfg = Some (cfg', i)"
  shows "\<exists>m t. i < cfg_n ((run ^^ m) cfg) \<and> claims run ((run ^^ m) cfg) i t
    \<and> (\<forall>j<cfg_n ((run ^^ m) cfg). \<forall>t'. claims run ((run ^^ m) cfg) j t' \<longrightarrow> t' < t \<or> t' = t \<and> j = i)"
  using assms(2)
proof (induction iters arbitrary: cfg)
  case (Suc k)
  let ?c = "run cfg" and ?n = "cfg_n (run cfg)"
  from Suc.prems obtain c' ls t where ls: "scan_leaders run [0..<?n] [] ?c = Some (c', ls)" "last_term (ord ls) (-1) = Some t"
    "if length ls \<noteq> 0 then slice_get (map_get0 [] (map_of ls) t) 0 = Some i else checkOneLeader_loop ord run k c' = Some (cfg', i)"
    by (auto simp: Let_def split: bind_splits if_splits)
  have ok: "c' = (run ^^ ?n) ?c \<and> leaders_ok (claims run ?c) ?n ls"
    using scan_leaders_ok [where k = 0 and ls = "[]", of run ?n ?c] ls(1) by (auto simp: leaders_ok_def)
  show ?case
  proof (cases "ls = []")
    case True
    with ls(3) have "checkOneLeader_loop ord run k ((run ^^ Suc ?n) cfg) = Some (cfg', i)" using ok by (simp add: funpow_swap1)
    from Suc.IH [OF this] show ?thesis unfolding funpow_add [unfolded comp_def, THEN fun_cong, symmetric] by blast
  next
    case False
    from scan_one_leader [OF _ _ ls(2), of "claims run ?c" ?n ls i] ls(3) False ok assms(1) have "i < ?n \<and> claims run ?c i t
      \<and> (\<forall>j<?n. \<forall>t'. claims run ?c j t' \<longrightarrow> t' < t \<or> t' = t \<and> j = i)" by auto
    then show ?thesis by (intro exI [of _ 1] exI [of _ t]) simp
  qed
qed simp

text \<open>
  C15. If \<open>checkOneLeader\<close> returns a peer, then one of its scans found this peer connected and leader of
  a term, no other peer leader of this term, and no peer leader of a later term. If its first scan
  finds two leaders of a term, the test is stopped.
\<close>

theorem checkOneLeader_sound:
  assumes "\<forall>l. set (ord l) = set l"
  shows "(\<forall>cfg' i. checkOneLeader ord run cfg = Some (cfg', i) \<longrightarrow>
      (\<exists>m t. i < cfg_n ((run ^^ m) cfg) \<and> claims run ((run ^^ m) cfg) i t
        \<and> (\<forall>j<cfg_n ((run ^^ m) cfg). \<forall>t'. claims run ((run ^^ m) cfg) j t' \<longrightarrow> t' < t \<or> t' = t \<and> j = i)))
    \<and> (\<forall>a b t. a < b \<and> b < cfg_n (run cfg) \<and> claims run (run cfg) a t \<and> claims run (run cfg) b t
        \<longrightarrow> checkOneLeader ord run cfg = None)"
proof (intro conjI allI impI)
  fix a b t assume a: "a < b \<and> b < cfg_n (run cfg) \<and> claims run (run cfg) a t \<and> claims run (run cfg) b t"
  let ?c = "run cfg" and ?n = "cfg_n (run cfg)"
  have "last_term (ord ls) (-1) = None" if "scan_leaders run [0..<?n] [] ?c = Some (c', ls)" for c' ls
  proof -
    have "leaders_ok (claims run ?c) ?n ls"
      using scan_leaders_ok [where k = 0 and ls = "[]", of run ?n ?c] that by (auto simp: leaders_ok_def)
    then show ?thesis using a assms by (intro scan_two_leaders [where ls = ls and cl = "claims run ?c" and t = t]) auto
  qed
  then have "checkOneLeader_loop ord run (Suc k) cfg = None" for k by (auto simp: Let_def split: bind_splits)
  from this [of 9] show "checkOneLeader ord run cfg = None" by (simp add: checkOneLeader_def eval_nat_numeral)
qed (rule checkOneLeader_loop_sound [OF assms], simp add: checkOneLeader_def)

definition snapshot_cfg :: "nat \<Rightarrow> 'c cluster \<Rightarrow> 'c config" where
  "snapshot_cfg n c = (new_config n) \<lparr>rafts := map (\<lambda>i. Some (nodes c i)) [0..<n], cfg_connected := replicate n True\<rparr>"

theorem checkOneLeader_sound_witness:
  "\<exists>c :: nat cluster. cl_reach 3 c \<and> checkOneLeader rev id (snapshot_cfg 3 c) = None"
proof -
  let ?P = "\<lambda>c. GetState (nodes c 0) = (2, True) \<and> GetState (nodes c 2) = (2, True)"
  have "case evs_run 3 run_leaders (init_run 3) of None \<Rightarrow> False | Some s \<Rightarrow> ?P (fst s)" by code_simp
  from run_reach [where P = "\<lambda>c ps. ?P c", OF this] obtain c :: "nat cluster" where c: "cl_reach 3 c" "?P c"
    by (auto simp: with_procs_def)
  then have "claims id (id (snapshot_cfg 3 c)) 0 2" "claims id (id (snapshot_cfg 3 c)) 2 2" "2 < cfg_n (id (snapshot_cfg 3 c))"
    by (simp_all add: claims_def snapshot_cfg_def state_of_def new_config_def slice_get_def numeral_2_eq_2)
  then have "checkOneLeader rev id (snapshot_cfg 3 c) = None"
    using checkOneLeader_sound [of rev id "snapshot_cfg 3 c"] by (metis set_rev zero_less_numeral)
  with c(1) show ?thesis by blast
qed

section \<open>Agreement\<close>

text \<open>\<open>recorded run c index i\<close>: what a scan from \<open>c\<close> finds recorded for peer \<open>i\<close> at an index.\<close>

definition recorded :: "(('c, 'z) config_scheme \<Rightarrow> ('c, 'z) config_scheme) \<Rightarrow> ('c, 'z) config_scheme \<Rightarrow> int \<Rightarrow> nat \<Rightarrow> 'c option option" where
  "recorded run c index i = (logs ((run ^^ Suc i) c) ! i) index"

lemma nCommitted_spec:
  assumes "nCommitted run index cfg = Some (cfg', cnt, cmd)"
  shows "cfg' = (run ^^ length (rafts cfg)) cfg \<and> cnt = card {i. i < length (rafts cfg) \<and> recorded run cfg index i \<noteq> None}
    \<and> (\<forall>i<length (rafts cfg). recorded run cfg index i \<in> {None, Some cmd})"
proof -
  let ?f = "\<lambda>i (cfg, cnt, cmd). do {
     let cfg = run cfg;
     err \<leftarrow> slice_get (applyErr cfg) (int i);
     if err \<noteq> None then None else do {
       l \<leftarrow> slice_get (logs cfg) (int i);
       case l index of
         Some cmd1 \<Rightarrow> if cnt > 0 \<and> cmd \<noteq> cmd1 then None else Some (cfg, cnt + 1, cmd1)
       | None \<Rightarrow> Some (cfg, cnt, cmd) } }"
  have "foldo ?f [0..<n] (cfg, 0, None) = Some (cfg', cnt, cmd) \<Longrightarrow> cfg' = (run ^^ n) cfg
      \<and> cnt = card {i. i < n \<and> recorded run cfg index i \<noteq> None} \<and> (\<forall>i<n. recorded run cfg index i \<in> {None, Some cmd})" for n cfg' cnt cmd
  proof (induction n arbitrary: cfg' cnt cmd)
    case (Suc n)
    then obtain c0 cnt0 cmd0 where f: "foldo ?f [0..<n] (cfg, 0, None) = Some (c0, cnt0, cmd0)" "?f n (c0, cnt0, cmd0) = Some (cfg', cnt, cmd)"
      by (auto simp: foldo_append split: bind_splits)
    note IH = Suc.IH [OF f(1)]
    have card: "card {i. i < Suc n \<and> P i} = card {i. i < n \<and> P i} + (if P n then 1 else 0)" for P
    proof -
      have "finite {k. k < n \<and> P k}" "n \<notin> {k. k < n \<and> P k}" by auto
      moreover have "{k. k < Suc n \<and> P k} = (if P n then insert n {k. k < n \<and> P k} else {k. k < n \<and> P k})" by (auto elim: less_SucE)
      ultimately show ?thesis by simp
    qed
    have cfg': "cfg' = (run ^^ Suc n) cfg" and r: "case recorded run cfg index n of None \<Rightarrow> cnt = cnt0 \<and> cmd = cmd0
        | Some v \<Rightarrow> (cnt0 > 0 \<longrightarrow> cmd0 = v) \<and> cnt = Suc cnt0 \<and> cmd = v"
      using f(2) conjunct1 [OF IH] by (auto simp: recorded_def Let_def split: bind_splits if_splits option.splits)
    have zero: "recorded run cfg index i = None" if "cnt0 = 0" "i < n" for i using IH that by auto
    have "\<forall>i<Suc n. recorded run cfg index i \<in> {None, Some cmd}"
    proof (intro allI impI)
      fix i assume "i < Suc n"
      then consider "i = n" | "i < n" "cnt0 = 0" | "i < n" "cnt0 > 0" by linarith
      then show "recorded run cfg index i \<in> {None, Some cmd}"
        using r zero conjunct2 [OF conjunct2 [OF IH]] by cases (auto split: option.splits)
    qed
    moreover have "cnt = card {i. i < Suc n \<and> recorded run cfg index i \<noteq> None}"
      unfolding card using r IH by (cases "recorded run cfg index n") simp_all
    ultimately show ?case using cfg' by blast
  qed simp
  then show ?thesis using assms unfolding nCommitted_def by blast
qed

text \<open>
  \<open>clock_ok\<close>: time does not go backwards, and \<open>Sleep\<close> takes at least as long as it is asked to.
  \<open>agreed\<close>: a scan found enough peers that have the command at the index, and no other command there.
\<close>

definition clock_ok :: "(('c, 'z) config_scheme \<Rightarrow> ('c, 'z) config_scheme) \<Rightarrow> (int \<Rightarrow> ('c, 'z) config_scheme \<Rightarrow> ('c, 'z) config_scheme)
    \<Rightarrow> ('z \<Rightarrow> int) \<Rightarrow> bool" where
  "clock_ok run sleep now \<longleftrightarrow> (\<forall>c. now (config.more c) \<le> now (config.more (run c)))
     \<and> (\<forall>d c. now (config.more c) + d \<le> now (config.more (sleep d c)))"

definition agreed :: "(('c, 'z) config_scheme \<Rightarrow> ('c, 'z) config_scheme) \<Rightarrow> ('c, 'z) config_scheme \<Rightarrow> int \<Rightarrow> 'c option \<Rightarrow> nat \<Rightarrow> bool" where
  "agreed run c index cmd expectedServers \<longleftrightarrow>
     max 1 expectedServers \<le> card {i. i < length (rafts c) \<and> recorded run c index i = Some cmd}
   \<and> (\<forall>i<length (rafts c). recorded run c index i \<in> {None, Some cmd})"

lemma clock_funpow: "clock_ok run sleep now \<Longrightarrow> now (config.more c) \<le> now (config.more ((run ^^ n) c))"
  by (induction n) (auto simp: clock_ok_def intro: order_trans)

lemma nCommitted_agreed:
  assumes "nCommitted run index cfg = Some (cfg', nd, cmd)" and "nd > 0" and "nd \<ge> k"
  shows "agreed run cfg index cmd k"
proof -
  note n = nCommitted_spec [OF assms(1)]
  then have "{i. i < length (rafts cfg) \<and> recorded run cfg index i \<noteq> None} = {i. i < length (rafts cfg) \<and> recorded run cfg index i = Some cmd}"
    by auto
  then show ?thesis using n assms(2,3) by (simp add: agreed_def)
qed

lemma agree_loop_returns:
  assumes "clock_ok run sleep now"
  shows "\<exists>r. agree_loop run sleep now index cmd k t1 cfg = Some r \<and> (case r of None \<Rightarrow> True
    | Some (cfg', b) \<Rightarrow> now (config.more cfg) \<le> now (config.more cfg')
        \<and> (if b then \<exists>c. agreed run c index cmd k else 2000 \<le> now (config.more cfg') - t1))"
proof (induction cfg rule: measure_induct_rule [where f = "\<lambda>cfg. nat (t1 + 2000 - now (config.more cfg))"])
  case (less cfg)
  show ?case
  proof (cases "now (config.more cfg) - t1 < 2000 \<and> nCommitted run index cfg \<noteq> None")
    case False
    then show ?thesis by (subst agree_loop.simps) (cases "nCommitted run index cfg", auto)
  next
    case True
    then obtain c1 nd cmd1 where n: "nCommitted run index cfg = Some (c1, nd, cmd1)" by auto
    have c1: "now (config.more cfg) \<le> now (config.more c1)" using nCommitted_spec [OF n] clock_funpow [OF assms] by simp
    show ?thesis
    proof (cases "nd > 0 \<and> nd \<ge> k \<and> cmd1 = cmd")
      case True
      then show ?thesis using n c1 nCommitted_agreed [OF n] by (subst agree_loop.simps) auto
    next
      case False
      have t: "now (config.more c1) + 20 \<le> now (config.more (sleep 20 c1))" using assms by (simp add: clock_ok_def)
      have "nat (t1 + 2000 - now (config.more (sleep 20 c1))) < nat (t1 + 2000 - now (config.more cfg))" using t c1 True by simp
      from less [OF this] obtain r where r: "agree_loop run sleep now index cmd k t1 (sleep 20 c1) = Some r"
        "case r of None \<Rightarrow> True | Some (cfg', b) \<Rightarrow> now (config.more (sleep 20 c1)) \<le> now (config.more cfg')
          \<and> (if b then \<exists>c. agreed run c index cmd k else 2000 \<le> now (config.more cfg') - t1)" by blast
      have "agree_loop run sleep now index cmd k t1 cfg = agree_loop run sleep now index cmd k t1 (sleep 20 c1)"
        using True n False by (subst agree_loop.simps) auto
      then have "agree_loop run sleep now index cmd k t1 cfg = Some r" using r(1) by simp
      then show ?thesis using r(2) t c1 by (cases r) auto
    qed
  qed
qed

lemma submit_clock:
  assumes "clock_ok run sleep now" and "submit run cmd k starts cfg = Some (cfg', s', index)"
  shows "now (config.more cfg) \<le> now (config.more cfg')"
  using assms(2)
proof (induction k arbitrary: starts cfg)
  case (Suc k)
  have run: "now (config.more cfg) \<le> now (config.more (run cfg))" using assms(1) by (simp add: clock_ok_def)
  show ?case using Suc.prems run
    by (auto simp: Let_def split: bind_splits if_splits option.splits dest!: Suc.IH)
qed simp

lemma one_loop_returns:
  assumes "clock_ok run sleep now"
  shows "\<exists>r. one_loop run sleep now cmd k retry t0 starts cfg = Some r \<and> (case r of None \<Rightarrow> True
    | Some (cfg', index) \<Rightarrow> index = -1 \<and> checkFinished cfg' \<or> (\<exists>c. agreed run c index cmd k))"
proof (induction cfg arbitrary: starts rule: measure_induct_rule [where f = "\<lambda>cfg. nat (t0 + 10000 - now (config.more cfg))"])
  case (less cfg)
  show ?case
  proof (cases "now (config.more cfg) - t0 < 10000 \<and> \<not> checkFinished cfg \<and> submit run cmd (cfg_n cfg) starts cfg \<noteq> None")
    case False
    then show ?thesis by (subst one_loop.simps) (cases "submit run cmd (cfg_n cfg) starts cfg", auto simp: Let_def)
  next
    case True
    then obtain c1 s1 index where sub: "submit run cmd (cfg_n cfg) starts cfg = Some (c1, s1, index)" by auto
    note c1 = submit_clock [OF assms sub]
    show ?thesis
    proof (cases "index = -1")
      case idx: True
      have "now (config.more c1) + 50 \<le> now (config.more (sleep 50 c1))" using assms by (simp add: clock_ok_def)
      moreover have "one_loop run sleep now cmd k retry t0 starts cfg = one_loop run sleep now cmd k retry t0 s1 (sleep 50 c1)"
        using True sub idx by (subst one_loop.simps) simp
      ultimately show ?thesis using less [of "sleep 50 c1" s1] c1 True by simp
    next
      case idx: False
      from agree_loop_returns [OF assms, of index cmd k "now (config.more c1)" c1] obtain r where
        r: "agree_loop run sleep now index cmd k (now (config.more c1)) c1 = Some r"
        "case r of None \<Rightarrow> True | Some (cfg', b) \<Rightarrow> now (config.more c1) \<le> now (config.more cfg')
          \<and> (if b then \<exists>c. agreed run c index cmd k else 2000 \<le> now (config.more cfg') - now (config.more c1))" by blast
      show ?thesis
      proof (cases "\<exists>c2. r = Some (c2, False) \<and> retry")
        case False
        with r True sub idx show ?thesis by (subst one_loop.simps) (auto split: option.splits if_splits)
      next
        case retry: True
        then obtain c2 where c2: "r = Some (c2, False)" "retry" by blast
        have "one_loop run sleep now cmd k retry t0 starts cfg = one_loop run sleep now cmd k retry t0 s1 c2"
          using r(1) c2 True sub idx by (subst one_loop.simps) simp
        then show ?thesis using less [of c2 s1] r(2) c1 c2(1) True by simp
      qed
    qed
  qed
qed


text \<open>For the witness: one peer, a leader whose applier has recorded the command; the environment is a clock.\<close>

definition sample_leader1 :: "nat Raft" where
  "sample_leader1 = (Make 1 0 MakePersister) \<lparr>rf_state := LEADER\<rparr>"

definition sample_one :: "(nat, int) config_scheme" where
  "sample_one = config.extend (config.truncate ((new_config 1) \<lparr>rafts := [Some sample_leader1], cfg_connected := [True], logs := [[1 \<mapsto> Some 5]]\<rparr>)) 0"

definition tick_by :: "int \<Rightarrow> ('c, int) config_scheme \<Rightarrow> ('c, int) config_scheme" where
  "tick_by d = config.more_update (\<lambda>t. t + max 0 d)"

lemma sample_one_returns: "\<exists>cfg'. one id tick_by id (Some 5) 1 True sample_one = Some (Some (cfg', 1))"
  unfolding one_def
  by (subst one_loop.simps, subst agree_loop.simps)
    (simp add: sample_one_def sample_leader1_def new_config_def config.defs checkFinished_def Start_def Make_def readPersist_def
      nCommitted_def slice_get_def Let_def)


end
