(* ===== verification/Lab_Gob.thy ===== *)
theory Lab_Gob
  imports Go_Prelude
begin

text \<open>
  The checks of \<open>labgob/labgob.go\<close>: \<open>checkType\<close>, which complains once about every lower-case field
  in the types of a value, and \<open>checkDefault\<close>, which warns when a value is decoded into a variable
  that is not zero. The encoding itself is the package \<open>encoding/gob\<close>.

  A \<open>reflect.Type\<close> is a number, and \<open>ty\<close> gives its description, so that a type may refer to itself.
  A \<open>reflect.Value\<close> is a tree whose pointers are addresses of a heap, so that a value may be cyclic.
  What is printed is recorded in the state.
\<close>

section \<open>Types and values\<close>

type_synonym tid = nat

datatype gotype = TStruct string "(string \<times> tid) list" | TSlice tid | TArray tid | TPtr tid | TMap tid tid | TOther

datatype goval = VStruct "(string \<times> goval) list" | VPtr "nat option" | VBasic string bool | VOther

datatype gob_msg = LowerCase string string | NonDefault string

record gob =
  checked :: "tid set"
  errorCount :: int
  printed :: "gob_msg list"

definition gob_start :: gob where
  "gob_start = \<lparr>checked = {}, errorCount = 0, printed = []\<rparr>"

section \<open>checkType\<close>

text \<open>
  \<open>isUpper\<close> is \<open>unicode.IsUpper\<close>. The first argument of \<open>checkType\<close> bounds the depth of the
  recursion; \<open>None\<close> is the bound being too small.
\<close>

definition complain :: "(nat \<Rightarrow> bool) \<Rightarrow> string \<Rightarrow> string \<Rightarrow> gob \<Rightarrow> gob" where
  "complain isUpper tname fname st = (if \<not> isUpper (fst (DecodeRune fname))
     then st \<lparr>printed := printed st @ [LowerCase fname tname], errorCount := errorCount st + 1\<rparr> else st)"

fun checkType :: "nat \<Rightarrow> (tid \<Rightarrow> gotype) \<Rightarrow> (nat \<Rightarrow> bool) \<Rightarrow> tid \<Rightarrow> gob \<Rightarrow> gob option"
  and checkFields :: "nat \<Rightarrow> (tid \<Rightarrow> gotype) \<Rightarrow> (nat \<Rightarrow> bool) \<Rightarrow> string \<Rightarrow> (string \<times> tid) list \<Rightarrow> gob \<Rightarrow> gob option" where
  "checkType 0 ty isUpper t st = None"
| "checkType (Suc fuel) ty isUpper t st =
     (if t \<in> checked st then Some st
      else let st = st \<lparr>checked := insert t (checked st)\<rparr> in
        case ty t of
          TStruct tname fs \<Rightarrow> checkFields fuel ty isUpper tname fs st
        | TSlice e \<Rightarrow> checkType fuel ty isUpper e st
        | TArray e \<Rightarrow> checkType fuel ty isUpper e st
        | TPtr e \<Rightarrow> checkType fuel ty isUpper e st
        | TMap k e \<Rightarrow> do { st \<leftarrow> checkType fuel ty isUpper e st; checkType fuel ty isUpper k st }
        | TOther \<Rightarrow> Some st)"
| "checkFields fuel ty isUpper tname [] st = Some st"
| "checkFields fuel ty isUpper tname ((fname, ft) # fs) st = do {
     st \<leftarrow> checkType fuel ty isUpper ft (complain isUpper tname fname st);
     checkFields fuel ty isUpper tname fs st }"

section \<open>checkDefault\<close>

text \<open>
  \<open>VBasic n b\<close> is a value of a basic type named \<open>n\<close>, with \<open>b\<close> telling whether it is the zero value.
\<close>

definition warn :: "string \<Rightarrow> string \<Rightarrow> gob \<Rightarrow> gob" where
  "warn name tname st =
     (let st = (if errorCount st < 1 then st \<lparr>printed := printed st @ [NonDefault (if name = [] then tname else name)]\<rparr> else st)
      in st \<lparr>errorCount := errorCount st + 1\<rparr>)"

function checkDefault1 :: "(nat \<Rightarrow> goval) \<Rightarrow> goval \<Rightarrow> int \<Rightarrow> string \<Rightarrow> gob \<Rightarrow> gob"
  and checkDefaults :: "(nat \<Rightarrow> goval) \<Rightarrow> (string \<times> goval) list \<Rightarrow> int \<Rightarrow> string \<Rightarrow> gob \<Rightarrow> gob" where
  "checkDefault1 h v depth name st =
     (if depth > 3 then st else case v of
        VStruct fs \<Rightarrow> checkDefaults h fs depth name st
      | VPtr p \<Rightarrow> (case p of None \<Rightarrow> st | Some a \<Rightarrow> checkDefault1 h (h a) (depth + 1) name st)
      | VBasic tname zero \<Rightarrow> (if \<not> zero then warn name tname st else st)
      | VOther \<Rightarrow> st)"
| "checkDefaults h [] depth name st = st"
| "checkDefaults h ((fname, vv) # fs) depth name st =
     (let name1 = (if name \<noteq> [] then name @ ''.'' @ fname else fname)
      in checkDefaults h fs depth name (checkDefault1 h vv (depth + 1) name1 st))"
  by pat_completeness auto
termination
  by (relation "measures [\<lambda>x. case x of Inl (h, v, depth, name, st) \<Rightarrow> 2 * nat (4 - depth) | Inr (h, fs, depth, name, st) \<Rightarrow> 2 * nat (4 - depth) - 1,
      \<lambda>x. case x of Inl _ \<Rightarrow> 0 | Inr (h, fs, depth, name, st) \<Rightarrow> length fs]") auto

declare checkDefault1.simps [simp del]

definition checkDefault :: "(nat \<Rightarrow> goval) \<Rightarrow> goval option \<Rightarrow> gob \<Rightarrow> gob" where
  "checkDefault h value st = (case value of None \<Rightarrow> st | Some v \<Rightarrow> checkDefault1 h v 1 [] st)"

section \<open>The wrappers\<close>

text \<open>
  The encoder, decoder and registry of \<open>encoding/gob\<close> are arguments: functions on their own state
  \<open>'g\<close>. A value comes with its type.
\<close>

definition checkValue :: "nat \<Rightarrow> (tid \<Rightarrow> gotype) \<Rightarrow> (nat \<Rightarrow> bool) \<Rightarrow> tid \<times> goval \<Rightarrow> gob \<Rightarrow> gob option" where
  "checkValue fuel ty isUpper value st = checkType fuel ty isUpper (fst value) st"

definition Encode :: "nat \<Rightarrow> (tid \<Rightarrow> gotype) \<Rightarrow> (nat \<Rightarrow> bool) \<Rightarrow> (tid \<times> goval \<Rightarrow> 'g \<Rightarrow> 'g \<times> string option)
    \<Rightarrow> tid \<times> goval \<Rightarrow> gob \<times> 'g \<Rightarrow> ((gob \<times> 'g) \<times> string option) option" where
  "Encode fuel ty isUpper gobEncode e s = do {
     st \<leftarrow> checkValue fuel ty isUpper e (fst s);
     let (g, err) = gobEncode e (snd s);
     Some ((st, g), err) }"

definition EncodeValue :: "nat \<Rightarrow> (tid \<Rightarrow> gotype) \<Rightarrow> (nat \<Rightarrow> bool) \<Rightarrow> (tid \<times> goval \<Rightarrow> 'g \<Rightarrow> 'g \<times> string option)
    \<Rightarrow> tid \<times> goval \<Rightarrow> gob \<times> 'g \<Rightarrow> ((gob \<times> 'g) \<times> string option) option" where
  "EncodeValue fuel ty isUpper gobEncodeValue value s = do {
     st \<leftarrow> checkValue fuel ty isUpper value (fst s);
     let (g, err) = gobEncodeValue value (snd s);
     Some ((st, g), err) }"

definition Decode :: "nat \<Rightarrow> (tid \<Rightarrow> gotype) \<Rightarrow> (nat \<Rightarrow> bool) \<Rightarrow> (nat \<Rightarrow> goval) \<Rightarrow> (tid \<times> goval \<Rightarrow> 'g \<Rightarrow> 'g \<times> string option)
    \<Rightarrow> tid \<times> goval \<Rightarrow> gob \<times> 'g \<Rightarrow> ((gob \<times> 'g) \<times> string option) option" where
  "Decode fuel ty isUpper h gobDecode e s = do {
     st \<leftarrow> checkValue fuel ty isUpper e (fst s);
     let st = checkDefault h (Some (snd e)) st;
     let (g, err) = gobDecode e (snd s);
     Some ((st, g), err) }"

definition Register :: "nat \<Rightarrow> (tid \<Rightarrow> gotype) \<Rightarrow> (nat \<Rightarrow> bool) \<Rightarrow> (tid \<times> goval \<Rightarrow> 'g \<Rightarrow> 'g)
    \<Rightarrow> tid \<times> goval \<Rightarrow> gob \<times> 'g \<Rightarrow> (gob \<times> 'g) option" where
  "Register fuel ty isUpper gobRegister value s = do {
     st \<leftarrow> checkValue fuel ty isUpper value (fst s);
     Some (st, gobRegister value (snd s)) }"

definition RegisterName :: "nat \<Rightarrow> (tid \<Rightarrow> gotype) \<Rightarrow> (nat \<Rightarrow> bool) \<Rightarrow> (string \<Rightarrow> tid \<times> goval \<Rightarrow> 'g \<Rightarrow> 'g)
    \<Rightarrow> string \<Rightarrow> tid \<times> goval \<Rightarrow> gob \<times> 'g \<Rightarrow> (gob \<times> 'g) option" where
  "RegisterName fuel ty isUpper gobRegisterName name value s = do {
     st \<leftarrow> checkValue fuel ty isUpper value (fst s);
     Some (st, gobRegisterName name value (snd s)) }"

section \<open>What checkType visits\<close>

fun parts :: "gotype \<Rightarrow> tid set" where
  "parts (TStruct n fs) = snd ` set fs"
| "parts (TSlice e) = {e}"
| "parts (TArray e) = {e}"
| "parts (TPtr e) = {e}"
| "parts (TMap k e) = {k, e}"
| "parts TOther = {}"

definition part_of :: "(tid \<Rightarrow> gotype) \<Rightarrow> (tid \<times> tid) set" where
  "part_of ty = {(t, u). u \<in> parts (ty t)}"

definition lower_in :: "(nat \<Rightarrow> bool) \<Rightarrow> (string \<times> tid) list \<Rightarrow> int" where
  "lower_in isUpper fs = int (length (filter (\<lambda>f. \<not> isUpper (fst (DecodeRune (fst f)))) fs))"

definition lower :: "(tid \<Rightarrow> gotype) \<Rightarrow> (nat \<Rightarrow> bool) \<Rightarrow> tid \<Rightarrow> int" where
  "lower ty isUpper t = (case ty t of TStruct n fs \<Rightarrow> lower_in isUpper fs | _ \<Rightarrow> 0)"

text \<open>
  \<open>visited ty isUpper S k st st'\<close>: from \<open>st\<close> to \<open>st'\<close> the types in \<open>S\<close> were checked with all their
  parts; \<open>k\<close> complaints were made apart from those about the types that were new.
\<close>

definition visited :: "(tid \<Rightarrow> gotype) \<Rightarrow> (nat \<Rightarrow> bool) \<Rightarrow> tid set \<Rightarrow> int \<Rightarrow> gob \<Rightarrow> gob \<Rightarrow> bool" where
  "visited ty isUpper S k st st' \<longleftrightarrow> (let new = checked st' - checked st in
     finite new \<and> checked st \<subseteq> checked st' \<and> S \<subseteq> checked st' \<and> (\<forall>u\<in>new. parts (ty u) \<subseteq> checked st')
     \<and> (\<forall>u\<in>new. \<exists>r\<in>S. (r, u) \<in> (part_of ty)\<^sup>*) \<and> errorCount st' = errorCount st + k + (\<Sum>u\<in>new. lower ty isUpper u))"

lemma visited_refl: "S \<subseteq> checked st \<Longrightarrow> visited ty isUpper S 0 st st"
  by (simp add: visited_def)

lemma visited_trans:
  assumes "visited ty isUpper S k st st1" "visited ty isUpper S' k' st1 st2"
  shows "visited ty isUpper (S \<union> S') (k + k') st st2"
proof -
  let ?a = "checked st1 - checked st" and ?b = "checked st2 - checked st1"
  have sub: "checked st \<subseteq> checked st1" "checked st1 \<subseteq> checked st2" and fin: "finite ?a" "finite ?b"
    using assms by (simp_all add: visited_def Let_def)
  then have new: "checked st2 - checked st = ?a \<union> ?b" by auto
  have "(\<Sum>u\<in>?a \<union> ?b. lower ty isUpper u) = (\<Sum>u\<in>?a. lower ty isUpper u) + (\<Sum>u\<in>?b. lower ty isUpper u)"
    using fin by (intro sum.union_disjoint) auto
  then show ?thesis using assms sub fin unfolding visited_def new Let_def by (auto 0 4)
qed

lemma visited_node:
  assumes "visited ty isUpper (parts (ty t)) (lower ty isUpper t) (st \<lparr>checked := insert t (checked st)\<rparr>) st'" "t \<notin> checked st"
  shows "visited ty isUpper {t} 0 st st'"
proof -
  let ?a = "checked st' - insert t (checked st)"
  from assms(1) have *: "finite ?a" "insert t (checked st) \<subseteq> checked st'" "parts (ty t) \<subseteq> checked st'"
    "\<forall>u\<in>?a. parts (ty u) \<subseteq> checked st'" "\<forall>u\<in>?a. \<exists>r\<in>parts (ty t). (r, u) \<in> (part_of ty)\<^sup>*"
    "errorCount st' = errorCount st + lower ty isUpper t + (\<Sum>u\<in>?a. lower ty isUpper u)" by (simp_all add: visited_def Let_def)
  have new: "checked st' - checked st = insert t ?a" using *(2) assms(2) by auto
  have "(t, u) \<in> (part_of ty)\<^sup>*" if u: "u \<in> ?a" for u
  proof -
    from *(5) u obtain r where "r \<in> parts (ty t)" "(r, u) \<in> (part_of ty)\<^sup>*" by blast
    then show ?thesis by (intro converse_rtrancl_into_rtrancl [of t r]) (auto simp: part_of_def)
  qed
  then show ?thesis using * unfolding visited_def new Let_def by auto
qed

lemma visited_complain:
  assumes "visited ty isUpper S k (complain isUpper n f st) st'"
  shows "visited ty isUpper S (k + lower_in isUpper [(f, t)]) st st'"
  using assms by (auto simp: visited_def complain_def lower_in_def Let_def split: if_splits)

lemma visited_same: "visited ty isUpper S k st st' \<Longrightarrow> S = S' \<Longrightarrow> k = k' \<Longrightarrow> visited ty isUpper S' k' st st'"
  by simp

lemma checkType_visits:
  "checkType fuel ty isUpper t st = Some st' \<Longrightarrow> visited ty isUpper {t} 0 st st'"
  "checkFields fuel ty isUpper n fs st = Some st' \<Longrightarrow> visited ty isUpper (snd ` set fs) (lower_in isUpper fs) st st'"
proof (induction fuel ty isUpper t st and fuel ty isUpper n fs st arbitrary: st' and st' rule: checkType_checkFields.induct)
  case (2 fuel ty isUpper t st)
  show ?case
  proof (cases "t \<in> checked st")
    case True
    then show ?thesis using 2(7) by (auto intro: visited_refl)
  next
    case False
    let ?st = "st \<lparr>checked := insert t (checked st)\<rparr>"
    have "visited ty isUpper (parts (ty t)) (lower ty isUpper t) ?st st'"
    proof (cases "ty t")
      case (TMap k e)
      then obtain st1 where "checkType fuel ty isUpper e ?st = Some st1" "checkType fuel ty isUpper k st1 = Some st'"
        using 2(7) False by (auto simp: Let_def split: bind_splits)
      then have "visited ty isUpper ({e} \<union> {k}) (0 + 0) ?st st'"
        using 2(5) [OF False refl TMap] 2(6) [OF False refl TMap] by (blast intro: visited_trans)
      then show ?thesis using TMap by (simp add: lower_def insert_commute)
    qed (use 2 False in \<open>auto simp: lower_def Let_def intro: visited_refl\<close>)
    then show ?thesis using False by (rule visited_node)
  qed
next
  case (4 fuel ty isUpper n f ft fs st)
  then obtain st1 where s: "checkType fuel ty isUpper ft (complain isUpper n f st) = Some st1"
    "checkFields fuel ty isUpper n fs st1 = Some st'" by (auto split: bind_splits)
  have "visited ty isUpper {ft} (0 + lower_in isUpper [(f, ft)]) st st1" by (rule visited_complain) (use 4(1) s(1) in blast)
  from visited_trans [OF this 4(2) [OF s]] show ?case by (rule visited_same) (auto simp: lower_in_def)
qed (auto intro: visited_refl simp: lower_in_def)

lemma visited_less:
  assumes "visited ty isUpper S k st st'" "finite U"
  shows "card (U - checked st') \<le> card (U - checked st)"
  using assms by (intro card_mono) (auto simp: visited_def Let_def)

lemma checkType_fuel:
  "finite U \<Longrightarrow> \<forall>u\<in>U. parts (ty u) \<subseteq> U \<Longrightarrow> t \<in> U \<Longrightarrow> card (U - checked st) < fuel \<Longrightarrow> \<exists>st'. checkType fuel ty isUpper t st = Some st'"
  "finite U \<Longrightarrow> \<forall>u\<in>U. parts (ty u) \<subseteq> U \<Longrightarrow> snd ` set fs \<subseteq> U \<Longrightarrow> card (U - checked st) < fuel \<Longrightarrow> \<exists>st'. checkFields fuel ty isUpper n fs st = Some st'"
proof (induction fuel ty isUpper t st and fuel ty isUpper n fs st rule: checkType_checkFields.induct)
  case (2 fuel ty isUpper t st)
  show ?case
  proof (cases "t \<in> checked st")
    case False
    let ?st = "st \<lparr>checked := insert t (checked st)\<rparr>"
    have "U - insert t (checked st) \<subset> U - checked st" using 2(9) False by auto
    then have c: "card (U - checked ?st) < fuel" using 2(7,10) psubset_card_mono [of "U - checked st"] by fastforce
    have p: "parts (ty t) \<subseteq> U" using 2(8,9) by blast
    show ?thesis
    proof (cases "ty t")
      case (TMap k e)
      then obtain st1 where s: "checkType fuel ty isUpper e ?st = Some st1" using 2(5) [OF False refl TMap 2(7,8)] p c by auto
      from visited_less [OF checkType_visits(1) [OF s] 2(7)] c have "card (U - checked st1) < fuel" by simp
      then show ?thesis using 2(6) [OF False refl TMap s 2(7,8)] p s TMap False by (auto simp: Let_def)
    qed (use 2 False c p in \<open>auto simp: Let_def\<close>)
  qed simp
next
  case (4 fuel ty isUpper n f ft fs st)
  have c: "card (U - checked (complain isUpper n f st)) < fuel" using 4(6) by (simp add: complain_def)
  then obtain st1 where s: "checkType fuel ty isUpper ft (complain isUpper n f st) = Some st1" using 4(1) [OF 4(3,4)] 4(5) by auto
  from visited_less [OF checkType_visits(1) [OF s] 4(3)] c have "card (U - checked st1) < fuel" by simp
  then show ?case using 4(2) [OF s 4(3,4)] 4(5) s by auto
qed auto

text \<open>
  C29. \<open>checkType\<close> terminates on every type, recursive ones included, and is exact: it checks just the
  types the given one is built from, complains about each lower-case field of each of them that was
  not checked before, and about each once. The recursion is never deeper than the number of types.
\<close>

theorem checkType_exact:
  assumes "finite U" and "t \<in> U" and "\<forall>u\<in>U. parts (ty u) \<subseteq> U" and "\<forall>u\<in>checked st. parts (ty u) \<subseteq> checked st"
  shows "\<exists>st'. checkType (Suc (card U)) ty isUpper t st = Some st'
    \<and> checked st' = checked st \<union> {u. (t, u) \<in> (part_of ty)\<^sup>*}
    \<and> errorCount st' = errorCount st + (\<Sum>u\<in>{u. (t, u) \<in> (part_of ty)\<^sup>*} - checked st. lower ty isUpper u)"
proof -
  have "card (U - checked st) < Suc (card U)" using assms(1) by (simp add: card_mono le_imp_less_Suc)
  from checkType_fuel(1) [OF assms(1,3,2) this] obtain st' where s: "checkType (Suc (card U)) ty isUpper t st = Some st'" by blast
  from checkType_visits(1) [OF s] have v: "checked st \<subseteq> checked st'" "t \<in> checked st'" "\<forall>u\<in>checked st' - checked st. parts (ty u) \<subseteq> checked st'"
    "\<forall>u\<in>checked st' - checked st. (t, u) \<in> (part_of ty)\<^sup>*"
    "errorCount st' = errorCount st + (\<Sum>u\<in>checked st' - checked st. lower ty isUpper u)" by (simp_all add: visited_def Let_def)
  have "u \<in> checked st'" if "(t, u) \<in> (part_of ty)\<^sup>*" for u
    using that
  proof (induction rule: rtrancl_induct)
    case (step y z)
    then show ?case using assms(4) v(1,3) by (cases "y \<in> checked st") (auto simp: part_of_def)
  qed (rule v(2))
  then have c: "checked st' = checked st \<union> {u. (t, u) \<in> (part_of ty)\<^sup>*}" using v(1,4) by blast
  moreover have "checked st' - checked st = {u. (t, u) \<in> (part_of ty)\<^sup>*} - checked st" using c by blast
  ultimately show ?thesis using s v(5) by auto
qed

text \<open>A linked list with a lower-case field.\<close>

definition sample_types :: "tid \<Rightarrow> gotype" where
  "sample_types t = (if t = 0 then TStruct ''Node'' [(''Next'', 1), (''val'', 2)] else if t = 1 then TPtr 0 else TOther)"

theorem checkType_exact_witness:
  "\<exists>st'. checkType 4 sample_types (\<lambda>r. 65 \<le> r \<and> r \<le> 90) 0 gob_start = Some st' \<and> checked st' = {u. (0, u) \<in> (part_of sample_types)\<^sup>*}"
proof -
  have "\<forall>u\<in>{0, 1, 2}. parts (sample_types u) \<subseteq> {0, 1, 2}" by (simp add: sample_types_def)
  from checkType_exact [OF _ _ this, of 0 gob_start "\<lambda>r. 65 \<le> r \<and> r \<le> 90"] show ?thesis
    by (auto simp: gob_start_def numeral_eq_Suc)
qed

section \<open>What checkDefault sees\<close>

text \<open>
  \<open>leaf h v k z\<close>: following \<open>k\<close> fields and pointers from \<open>v\<close> one comes to a value of a basic type, and
  \<open>z\<close> tells whether it is zero.
\<close>

inductive leaf :: "(nat \<Rightarrow> goval) \<Rightarrow> goval \<Rightarrow> nat \<Rightarrow> bool \<Rightarrow> bool" for h where
  basic: "leaf h (VBasic n z) 0 z"
| pointer: "leaf h (h a) k z \<Longrightarrow> leaf h (VPtr (Some a)) (Suc k) z"
| member: "(f, v) \<in> set fs \<Longrightarrow> leaf h v k z \<Longrightarrow> leaf h (VStruct fs) (Suc k) z"

inductive_simps leaf_simps: "leaf h (VBasic n z') k z" "leaf h (VPtr p) k z" "leaf h (VStruct fs) k z" "leaf h VOther k z"

lemma warn_count: "errorCount (warn name tname st) = errorCount st + 1"
  by (simp add: warn_def Let_def)

lemma count_chain:
  fixes a b c :: int
  assumes "a \<le> b \<and> (b = a \<longleftrightarrow> \<not> P)" "b \<le> c \<and> (c = b \<longleftrightarrow> \<not> Q)"
  shows "a \<le> c \<and> (c = a \<longleftrightarrow> \<not> (P \<or> Q))"
  using assms by (cases P; cases Q) auto

lemma checkDefault1_count:
  "errorCount st \<le> errorCount (checkDefault1 h v depth name st)
     \<and> (errorCount (checkDefault1 h v depth name st) = errorCount st \<longleftrightarrow> \<not> (\<exists>k. int k + depth \<le> 3 \<and> leaf h v k False))"
  "errorCount st \<le> errorCount (checkDefaults h fs depth name st)
     \<and> (errorCount (checkDefaults h fs depth name st) = errorCount st
        \<longleftrightarrow> \<not> (\<exists>f v k. (f, v) \<in> set fs \<and> int k + (depth + 1) \<le> 3 \<and> leaf h v k False))"
proof (induction h v depth name st and h fs depth name st rule: checkDefault1_checkDefaults.induct)
  case (1 h v depth name st)
  show ?case
  proof (cases "depth > 3")
    case False
    show ?thesis
    proof (cases v)
      case (VStruct fs)
      have "(\<exists>k. int k + depth \<le> 3 \<and> leaf h v k False) \<longleftrightarrow> (\<exists>f u k. (f, u) \<in> set fs \<and> int k + (depth + 1) \<le> 3 \<and> leaf h u k False)"
        unfolding VStruct leaf_simps by force
      then show ?thesis using 1(1) [OF False VStruct] False VStruct by (simp add: checkDefault1.simps)
    next
      case (VPtr p)
      show ?thesis
      proof (cases p)
        case (Some a)
        have "(\<exists>k. int k + depth \<le> 3 \<and> leaf h v k False) \<longleftrightarrow> (\<exists>k. int k + (depth + 1) \<le> 3 \<and> leaf h (h a) k False)"
          unfolding VPtr Some leaf_simps by force
        then show ?thesis using 1(2) [OF False VPtr Some] False VPtr Some by (simp add: checkDefault1.simps)
      qed (use False VPtr in \<open>simp add: checkDefault1.simps leaf_simps\<close>)
    qed (use False in \<open>auto simp: checkDefault1.simps leaf_simps warn_count\<close>)
  qed (simp add: checkDefault1.simps)
next
  case (3 h f v fs depth name st)
  define name1 where n: "name1 = (if name \<noteq> [] then name @ ''.'' @ f else f)"
  define s1 s2 where s: "s1 = checkDefault1 h v (depth + 1) name1 st" "s2 = checkDefaults h fs depth name s1"
  let ?A = "\<exists>k. int k + (depth + 1) \<le> 3 \<and> leaf h v k False"
    and ?B = "\<exists>f v k. (f, v) \<in> set fs \<and> int k + (depth + 1) \<le> 3 \<and> leaf h v k False"
  have "errorCount st \<le> errorCount s1 \<and> (errorCount s1 = errorCount st \<longleftrightarrow> \<not> ?A)"
    "errorCount s1 \<le> errorCount s2 \<and> (errorCount s2 = errorCount s1 \<longleftrightarrow> \<not> ?B)" using 3 n unfolding s by blast+
  then have "errorCount st \<le> errorCount s2 \<and> (errorCount s2 = errorCount st \<longleftrightarrow> \<not> (?A \<or> ?B))" by (rule count_chain)
  moreover have "(\<exists>f' v' k. (f', v') \<in> set ((f, v) # fs) \<and> int k + (depth + 1) \<le> 3 \<and> leaf h v' k False) \<longleftrightarrow> ?A \<or> ?B" by auto
  moreover have "checkDefaults h ((f, v) # fs) depth name st = s2" by (simp add: Let_def n s)
  ultimately show ?case by simp
qed simp

lemma checkDefault1_printed:
  "0 \<le> errorCount st \<Longrightarrow> length (printed (checkDefault1 h v depth name st)) \<le> length (printed st) + (if errorCount st = 0 then 1 else 0)
     \<and> (errorCount (checkDefault1 h v depth name st) = 0 \<longrightarrow> printed (checkDefault1 h v depth name st) = printed st)"
  "0 \<le> errorCount st \<Longrightarrow> length (printed (checkDefaults h fs depth name st)) \<le> length (printed st) + (if errorCount st = 0 then 1 else 0)
     \<and> (errorCount (checkDefaults h fs depth name st) = 0 \<longrightarrow> printed (checkDefaults h fs depth name st) = printed st)"
proof (induction h v depth name st and h fs depth name st rule: checkDefault1_checkDefaults.induct)
  case (1 h v depth name st)
  then show ?case by (subst (1 2 3) checkDefault1.simps) (auto simp: warn_def Let_def split: goval.splits option.splits)
next
  case (3 h f v fs depth name st)
  define name1 where n: "name1 = (if name \<noteq> [] then name @ ''.'' @ f else f)"
  define s1 where s: "s1 = checkDefault1 h v (depth + 1) name1 st"
  have "errorCount st \<le> errorCount s1" unfolding s using checkDefault1_count(1) by blast
  moreover have "errorCount s1 \<le> errorCount (checkDefaults h fs depth name s1)" using checkDefault1_count(2) by blast
  moreover have "checkDefaults h ((f, v) # fs) depth name st = checkDefaults h fs depth name s1" by (simp add: Let_def n s)
  ultimately show ?case using 3(1) [OF n 3(3)] 3(2) [OF n] 3(3) unfolding s by (auto split: if_splits)
qed simp

text \<open>
  \<open>checkDefault\<close> counts an error exactly if a value of a basic type that is not zero is found
  within two steps (fields or pointers) of the value it is given; deeper ones are not looked at, so
  it also terminates on cyclic values. It prints at most one warning, and none if errors were
  counted before.
\<close>

theorem checkDefault_warns:
  assumes "0 \<le> errorCount st"
  shows "(errorCount st < errorCount (checkDefault h (Some v) st) \<longleftrightarrow> (\<exists>k. k \<le> 2 \<and> leaf h v k False))
    \<and> length (printed (checkDefault h (Some v) st)) \<le> length (printed st) + (if errorCount st = 0 then 1 else 0)"
proof -
  have "(\<exists>k. int k + 1 \<le> 3 \<and> leaf h v k False) \<longleftrightarrow> (\<exists>k. k \<le> 2 \<and> leaf h v k False)" by (metis add_le_cancel_right int_ops(3) numeral_One of_nat_le_iff of_nat_numeral one_plus_numeral semiring_norm(3) add.commute)
  then show ?thesis using checkDefault1_count(1) [of st h v 1 "[]"] checkDefault1_printed(1) [OF assms, of h v 1 "[]"]
    by (auto simp: checkDefault_def)
qed

theorem checkDefault_warns_witness:
  "0 < errorCount (checkDefault (\<lambda>_. VStruct [(''Term'', VBasic ''int'' False)]) (Some (VPtr (Some 0))) gob_start)
   \<and> errorCount (checkDefault (\<lambda>_. VPtr (Some 0)) (Some (VPtr (Some 0))) gob_start) \<le> 0"
proof -
  let ?h = "\<lambda>_. VStruct [(''Term'', VBasic ''int'' False)]" and ?c = "\<lambda>_. VPtr (Some 0)"
  have "leaf ?h (VPtr (Some 0)) 2 False" by (simp add: leaf_simps numeral_2_eq_2)
  moreover have "\<not> leaf ?c (VPtr (Some 0)) k False" for k by (induction k) (subst leaf_simps, simp)+
  moreover have "0 \<le> errorCount gob_start" "errorCount gob_start = 0" by (simp_all add: gob_start_def)
  ultimately show ?thesis
    using checkDefault_warns [of gob_start ?h "VPtr (Some 0)"] checkDefault_warns [of gob_start ?c "VPtr (Some 0)"]
    by (metis linorder_not_le order_refl)
qed

end
