(* ===== verification/Lab_Services.thy ===== *)
theory Lab_Services
  imports Raft_Node
begin

text \<open>
  The services on top of Raft: \<open>kvraft\<close>, \<open>shardctrler\<close> and \<open>shardkv\<close>, with their RPC types, servers
  and clerks. The handlers of the three servers and the clerk of \<open>kvraft\<close> are the empty bodies that
  the repository has; the clerks of \<open>shardctrler\<close> and \<open>shardkv\<close> are complete.

  A clerk runs against a world \<open>'w\<close> that answers its calls: \<open>call srv args w\<close> is the world after the
  call and the reply, \<open>None\<close> when \<open>ClientEnd.Call\<close> returns false; \<open>sleep\<close> is what the world does while
  the clerk sleeps. A clerk that never returns is the value \<open>None\<close>. Ends are values of type \<open>'e\<close>.
\<close>

section \<open>kvraft\<close>

type_synonym Err = string

record PutAppendArgs =
  pa_Key :: string
  pa_Value :: string
  pa_Op :: string

record PutAppendReply =
  pa_Err :: Err

record GetArgs =
  get_Key :: string

record GetReply =
  get_Err :: Err
  get_Value :: string

record 'c KVServer =
  kv_me :: int
  kv_rf :: "'c Raft"
  kv_dead :: int
  kv_maxraftstate :: int

definition KVServer_Get :: "GetArgs \<Rightarrow> GetReply \<Rightarrow> 'c KVServer \<Rightarrow> 'c KVServer \<times> GetReply" where
  "KVServer_Get args reply kv = (kv, reply)"

definition KVServer_PutAppend :: "PutAppendArgs \<Rightarrow> PutAppendReply \<Rightarrow> 'c KVServer \<Rightarrow> 'c KVServer \<times> PutAppendReply" where
  "KVServer_PutAppend args reply kv = (kv, reply)"

definition KVServer_Kill :: "'c KVServer \<Rightarrow> 'c KVServer" where
  "KVServer_Kill kv = kv \<lparr>kv_dead := 1, kv_rf := Kill (kv_rf kv)\<rparr>"

definition KVServer_killed :: "'c KVServer \<Rightarrow> bool" where
  "KVServer_killed kv = (kv_dead kv = 1)"

definition StartKVServer :: "nat \<Rightarrow> int \<Rightarrow> Persister \<Rightarrow> int \<Rightarrow> 'c KVServer" where
  "StartKVServer servers i persister maxraftstate =
     \<lparr>kv_me = i, kv_rf = Make servers i persister, kv_dead = 0, kv_maxraftstate = maxraftstate\<rparr>"

record 'e KvClerk =
  kvck_servers :: "'e list"

definition Kv_MakeClerk :: "'e list \<Rightarrow> 'e KvClerk" where
  "Kv_MakeClerk servers = \<lparr>kvck_servers = servers\<rparr>"

definition Kv_Get :: "string \<Rightarrow> 'e KvClerk \<Rightarrow> 'w \<Rightarrow> 'w \<times> string" where
  "Kv_Get key ck w = (w, [])"

definition Kv_PutAppend :: "string \<Rightarrow> string \<Rightarrow> string \<Rightarrow> 'e KvClerk \<Rightarrow> 'w \<Rightarrow> 'w" where
  "Kv_PutAppend key val op ck w = w"

definition Kv_Put :: "string \<Rightarrow> string \<Rightarrow> 'e KvClerk \<Rightarrow> 'w \<Rightarrow> 'w" where
  "Kv_Put key val ck w = Kv_PutAppend key val ''Put'' ck w"

definition Kv_Append :: "string \<Rightarrow> string \<Rightarrow> 'e KvClerk \<Rightarrow> 'w \<Rightarrow> 'w" where
  "Kv_Append key val ck w = Kv_PutAppend key val ''Append'' ck w"

section \<open>shardctrler\<close>

definition NShards :: nat where
  "NShards = 10"

record Config =
  cfg_Num :: int
  cfg_Shards :: "int list"
  cfg_Groups :: "int \<rightharpoonup> string list"

definition zero_Config :: Config where
  "zero_Config = \<lparr>cfg_Num = 0, cfg_Shards = replicate NShards 0, cfg_Groups = Map.empty\<rparr>"

record JoinArgs =
  join_Servers :: "int \<rightharpoonup> string list"

record LeaveArgs =
  leave_GIDs :: "int list"

record MoveArgs =
  move_Shard :: int
  move_GID :: int

record QueryArgs =
  query_Num :: int

text \<open>\<open>JoinReply\<close>, \<open>LeaveReply\<close> and \<open>MoveReply\<close> have the same two fields.\<close>

record CtrlerReply =
  WrongLeader :: bool
  ctrler_Err :: Err

record QueryReply = CtrlerReply +
  query_Config :: Config

record 'c ShardCtrler =
  sc_me :: int
  sc_rf :: "'c Raft"
  sc_configs :: "Config list"

definition Ctrler_Join :: "JoinArgs \<Rightarrow> CtrlerReply \<Rightarrow> 'c ShardCtrler \<Rightarrow> 'c ShardCtrler \<times> CtrlerReply" where
  "Ctrler_Join args reply sc = (sc, reply)"

definition Ctrler_Leave :: "LeaveArgs \<Rightarrow> CtrlerReply \<Rightarrow> 'c ShardCtrler \<Rightarrow> 'c ShardCtrler \<times> CtrlerReply" where
  "Ctrler_Leave args reply sc = (sc, reply)"

definition Ctrler_Move :: "MoveArgs \<Rightarrow> CtrlerReply \<Rightarrow> 'c ShardCtrler \<Rightarrow> 'c ShardCtrler \<times> CtrlerReply" where
  "Ctrler_Move args reply sc = (sc, reply)"

definition Ctrler_Query :: "QueryArgs \<Rightarrow> QueryReply \<Rightarrow> 'c ShardCtrler \<Rightarrow> 'c ShardCtrler \<times> QueryReply" where
  "Ctrler_Query args reply sc = (sc, reply)"

definition Ctrler_Kill :: "'c ShardCtrler \<Rightarrow> 'c ShardCtrler" where
  "Ctrler_Kill sc = sc \<lparr>sc_rf := Kill (sc_rf sc)\<rparr>"

definition Ctrler_Raft :: "'c ShardCtrler \<Rightarrow> 'c Raft" where
  "Ctrler_Raft sc = sc_rf sc"

definition Ctrler_StartServer :: "nat \<Rightarrow> int \<Rightarrow> Persister \<Rightarrow> 'c ShardCtrler" where
  "Ctrler_StartServer servers i persister =
     \<lparr>sc_me = i, sc_rf = Make servers i persister, sc_configs = [zero_Config]\<rparr>"

record 'e CtrlerClerk =
  cck_servers :: "'e list"

definition Ctrler_MakeClerk :: "'e list \<Rightarrow> 'e CtrlerClerk" where
  "Ctrler_MakeClerk servers = \<lparr>cck_servers = servers\<rparr>"

text \<open>
  One pass of a clerk over the servers it knows, up to the first that answers and is the leader, and
  the loop around it.
\<close>

fun try_each :: "('e \<Rightarrow> 'a \<Rightarrow> 'w \<Rightarrow> 'w \<times> 'r CtrlerReply_scheme option) \<Rightarrow> 'a \<Rightarrow> 'e list \<Rightarrow> 'w \<Rightarrow> 'w \<times> 'r CtrlerReply_scheme option" where
  "try_each call args [] w = (w, None)"
| "try_each call args (srv # srvs) w =
     (case call srv args w of (w, res) \<Rightarrow>
       (case res of Some reply \<Rightarrow> if WrongLeader reply = False then (w, Some reply) else try_each call args srvs w
        | None \<Rightarrow> try_each call args srvs w))"

partial_function (option) retry :: "('w \<Rightarrow> 'w) \<Rightarrow> ('w \<Rightarrow> 'w \<times> 'r option) \<Rightarrow> 'w \<Rightarrow> ('w \<times> 'r) option" where
  "retry sleep round w = (case round w of (w, Some reply) \<Rightarrow> Some (w, reply) | (w, None) \<Rightarrow> retry sleep round (sleep w))"

definition Ctrler_Clerk_Query :: "('w \<Rightarrow> 'w) \<Rightarrow> ('e \<Rightarrow> QueryArgs \<Rightarrow> 'w \<Rightarrow> 'w \<times> QueryReply option) \<Rightarrow> int \<Rightarrow> 'e CtrlerClerk \<Rightarrow> 'w \<Rightarrow> ('w \<times> Config) option" where
  "Ctrler_Clerk_Query sleep call num ck w =
     (let args = \<lparr>query_Num = num\<rparr> in map_option (\<lambda>(w, reply). (w, query_Config reply)) (retry sleep (try_each call args (cck_servers ck)) w))"

definition Ctrler_Clerk_Join :: "('w \<Rightarrow> 'w) \<Rightarrow> ('e \<Rightarrow> JoinArgs \<Rightarrow> 'w \<Rightarrow> 'w \<times> CtrlerReply option) \<Rightarrow> (int \<rightharpoonup> string list) \<Rightarrow> 'e CtrlerClerk \<Rightarrow> 'w \<Rightarrow> 'w option" where
  "Ctrler_Clerk_Join sleep call servers ck w =
     (let args = \<lparr>join_Servers = servers\<rparr> in map_option fst (retry sleep (try_each call args (cck_servers ck)) w))"

definition Ctrler_Clerk_Leave :: "('w \<Rightarrow> 'w) \<Rightarrow> ('e \<Rightarrow> LeaveArgs \<Rightarrow> 'w \<Rightarrow> 'w \<times> CtrlerReply option) \<Rightarrow> int list \<Rightarrow> 'e CtrlerClerk \<Rightarrow> 'w \<Rightarrow> 'w option" where
  "Ctrler_Clerk_Leave sleep call gids ck w =
     (let args = \<lparr>leave_GIDs = gids\<rparr> in map_option fst (retry sleep (try_each call args (cck_servers ck)) w))"

definition Ctrler_Clerk_Move :: "('w \<Rightarrow> 'w) \<Rightarrow> ('e \<Rightarrow> MoveArgs \<Rightarrow> 'w \<Rightarrow> 'w \<times> CtrlerReply option) \<Rightarrow> int \<Rightarrow> int \<Rightarrow> 'e CtrlerClerk \<Rightarrow> 'w \<Rightarrow> 'w option" where
  "Ctrler_Clerk_Move sleep call shard gid ck w =
     (let args = \<lparr>move_Shard = shard, move_GID = gid\<rparr> in map_option fst (retry sleep (try_each call args (cck_servers ck)) w))"

section \<open>shardkv\<close>

text \<open>The RPC types of \<open>shardkv\<close> are those of \<open>kvraft\<close>, with one more error.\<close>

definition key2shard :: "string \<Rightarrow> nat" where
  "key2shard key = (let shard = (if length key > 0 then of_char (key ! 0) else 0) in shard mod NShards)"

record ('c, 'e) ShardKV =
  skv_me :: int
  skv_rf :: "'c Raft"
  skv_make_end :: "string \<Rightarrow> 'e"
  skv_gid :: int
  skv_ctrlers :: "'e list"
  skv_maxraftstate :: int

definition ShardKV_Get :: "GetArgs \<Rightarrow> GetReply \<Rightarrow> ('c, 'e) ShardKV \<Rightarrow> ('c, 'e) ShardKV \<times> GetReply" where
  "ShardKV_Get args reply kv = (kv, reply)"

definition ShardKV_PutAppend :: "PutAppendArgs \<Rightarrow> PutAppendReply \<Rightarrow> ('c, 'e) ShardKV \<Rightarrow> ('c, 'e) ShardKV \<times> PutAppendReply" where
  "ShardKV_PutAppend args reply kv = (kv, reply)"

definition ShardKV_Kill :: "('c, 'e) ShardKV \<Rightarrow> ('c, 'e) ShardKV" where
  "ShardKV_Kill kv = kv \<lparr>skv_rf := Kill (skv_rf kv)\<rparr>"

definition ShardKV_StartServer :: "nat \<Rightarrow> int \<Rightarrow> Persister \<Rightarrow> int \<Rightarrow> int \<Rightarrow> 'e list \<Rightarrow> (string \<Rightarrow> 'e) \<Rightarrow> ('c, 'e) ShardKV" where
  "ShardKV_StartServer servers i persister maxraftstate gid ctrlers make_end =
     \<lparr>skv_me = i, skv_rf = Make servers i persister, skv_make_end = make_end, skv_gid = gid, skv_ctrlers = ctrlers,
      skv_maxraftstate = maxraftstate\<rparr>"

record 'e ShardClerk =
  sck_sm :: "'e CtrlerClerk"
  sck_config :: Config
  sck_make_end :: "string \<Rightarrow> 'e"

definition Shard_MakeClerk :: "'e list \<Rightarrow> (string \<Rightarrow> 'e) \<Rightarrow> 'e ShardClerk" where
  "Shard_MakeClerk ctrlers make_end = \<lparr>sck_sm = Ctrler_MakeClerk ctrlers, sck_config = zero_Config, sck_make_end = make_end\<rparr>"

text \<open>
  The inner loops of \<open>Get\<close> and \<open>PutAppend\<close> over the servers of a group: the reply that ends the
  call, or \<open>None\<close> when the servers are exhausted or one of them does not serve the shard.
\<close>

fun get_each :: "(string \<Rightarrow> 'e) \<Rightarrow> ('e \<Rightarrow> GetArgs \<Rightarrow> 'w \<Rightarrow> 'w \<times> GetReply option) \<Rightarrow> GetArgs \<Rightarrow> string list \<Rightarrow> 'w \<Rightarrow> 'w \<times> string option" where
  "get_each make_end call args [] w = (w, None)"
| "get_each make_end call args (server # servers) w =
     (case call (make_end server) args w of (w, res) \<Rightarrow>
       (case res of None \<Rightarrow> get_each make_end call args servers w
        | Some reply \<Rightarrow>
            if get_Err reply = ''OK'' \<or> get_Err reply = ''ErrNoKey'' then (w, Some (get_Value reply))
            else if get_Err reply = ''ErrWrongGroup'' then (w, None)
            else get_each make_end call args servers w))"

fun put_each :: "(string \<Rightarrow> 'e) \<Rightarrow> ('e \<Rightarrow> PutAppendArgs \<Rightarrow> 'w \<Rightarrow> 'w \<times> PutAppendReply option) \<Rightarrow> PutAppendArgs \<Rightarrow> string list \<Rightarrow> 'w \<Rightarrow> 'w \<times> unit option" where
  "put_each make_end call args [] w = (w, None)"
| "put_each make_end call args (server # servers) w =
     (case call (make_end server) args w of (w, res) \<Rightarrow>
       (case res of None \<Rightarrow> put_each make_end call args servers w
        | Some reply \<Rightarrow>
            if pa_Err reply = ''OK'' then (w, Some ())
            else if pa_Err reply = ''ErrWrongGroup'' then (w, None)
            else put_each make_end call args servers w))"

text \<open>One turn of the outer loop before the clerk sleeps and asks for a new configuration.\<close>

definition in_group :: "Config \<Rightarrow> string \<Rightarrow> (string list \<Rightarrow> 'w \<Rightarrow> 'w \<times> 'r option) \<Rightarrow> 'w \<Rightarrow> 'w \<times> 'r option" where
  "in_group config key each w =
     (let shard = key2shard key; gid = cfg_Shards config ! shard in
      case cfg_Groups config gid of Some servers \<Rightarrow> each servers w | None \<Rightarrow> (w, None))"

partial_function (option) group_loop :: "('w \<Rightarrow> 'w) \<Rightarrow> ('w \<Rightarrow> ('w \<times> Config) option) \<Rightarrow> string \<Rightarrow> (string list \<Rightarrow> 'w \<Rightarrow> 'w \<times> 'r option)
    \<Rightarrow> Config \<Rightarrow> 'w \<Rightarrow> ('w \<times> Config \<times> 'r) option" where
  "group_loop sleep query key each config w =
     (case in_group config key each w of
        (w, Some r) \<Rightarrow> Some (w, config, r)
      | (w, None) \<Rightarrow> (case query (sleep w) of None \<Rightarrow> None | Some (w, config) \<Rightarrow> group_loop sleep query key each config w))"

definition Shard_Get :: "('w \<Rightarrow> 'w) \<Rightarrow> ('e \<Rightarrow> QueryArgs \<Rightarrow> 'w \<Rightarrow> 'w \<times> QueryReply option) \<Rightarrow> ('e \<Rightarrow> GetArgs \<Rightarrow> 'w \<Rightarrow> 'w \<times> GetReply option)
    \<Rightarrow> string \<Rightarrow> 'e ShardClerk \<Rightarrow> 'w \<Rightarrow> ('w \<times> 'e ShardClerk \<times> string) option" where
  "Shard_Get sleep qcall gcall key ck w = (let args = \<lparr>get_Key = key\<rparr> in
     map_option (\<lambda>(w, config, r). (w, ck \<lparr>sck_config := config\<rparr>, r))
       (group_loop sleep (Ctrler_Clerk_Query sleep qcall (-1) (sck_sm ck)) key (get_each (sck_make_end ck) gcall args) (sck_config ck) w))"

definition Shard_PutAppend :: "('w \<Rightarrow> 'w) \<Rightarrow> ('e \<Rightarrow> QueryArgs \<Rightarrow> 'w \<Rightarrow> 'w \<times> QueryReply option) \<Rightarrow> ('e \<Rightarrow> PutAppendArgs \<Rightarrow> 'w \<Rightarrow> 'w \<times> PutAppendReply option)
    \<Rightarrow> string \<Rightarrow> string \<Rightarrow> string \<Rightarrow> 'e ShardClerk \<Rightarrow> 'w \<Rightarrow> ('w \<times> 'e ShardClerk) option" where
  "Shard_PutAppend sleep qcall pcall key val op ck w = (let args = \<lparr>pa_Key = key, pa_Value = val, pa_Op = op\<rparr> in
     map_option (\<lambda>(w, config, r). (w, ck \<lparr>sck_config := config\<rparr>))
       (group_loop sleep (Ctrler_Clerk_Query sleep qcall (-1) (sck_sm ck)) key (put_each (sck_make_end ck) pcall args) (sck_config ck) w))"

definition Shard_Put where
  "Shard_Put sleep qcall pcall key val ck w = Shard_PutAppend sleep qcall pcall key val ''Put'' ck w"

definition Shard_Append where
  "Shard_Append sleep qcall pcall key val ck w = Shard_PutAppend sleep qcall pcall key val ''Append'' ck w"

section \<open>The loops\<close>

text \<open>\<open>nth_round k\<close>: the world in which a clerk starts its round \<open>k\<close> if the rounds before failed.\<close>

fun nth_round :: "('w \<Rightarrow> 'w) \<Rightarrow> ('w \<Rightarrow> 'w \<times> 'r option) \<Rightarrow> nat \<Rightarrow> 'w \<Rightarrow> 'w" where
  "nth_round sleep round 0 w = w"
| "nth_round sleep round (Suc k) w = nth_round sleep round k (sleep (fst (round w)))"

definition first_success :: "('w \<Rightarrow> 'w) \<Rightarrow> ('w \<Rightarrow> 'w \<times> 'r option) \<Rightarrow> 'w \<Rightarrow> nat \<Rightarrow> 'w \<Rightarrow> 'r \<Rightarrow> bool" where
  "first_success sleep round w k w' r \<longleftrightarrow>
     (\<forall>j<k. snd (round (nth_round sleep round j w)) = None) \<and> round (nth_round sleep round k w) = (w', Some r)"

lemma first_success_Suc:
  "snd (round w) = None \<Longrightarrow> first_success sleep round w (Suc k) w' r \<longleftrightarrow> first_success sleep round (sleep (fst (round w))) k w' r"
  by (auto simp: first_success_def less_Suc_eq_0_disj)

lemma retry_complete: "first_success sleep round w k w' r \<Longrightarrow> retry sleep round w = Some (w', r)"
proof (induction k arbitrary: w)
  case 0
  then show ?case by (subst retry.simps) (simp add: first_success_def)
next
  case (Suc k)
  have n: "snd (round w) = None" using Suc(2) by (auto simp: first_success_def)
  with Suc have "retry sleep round (sleep (fst (round w))) = Some (w', r)" by (simp add: first_success_Suc)
  then show ?case using n by (subst retry.simps) (cases "round w"; simp)
qed

lemma retry_sound:
  assumes a: "retry sleep round w = Some y"
  shows "\<exists>k. first_success sleep round w k (fst y) (snd y)"
proof (rule retry.raw_induct [where P = "\<lambda>sleep round w y. \<exists>k. first_success sleep round w k (fst y) (snd y)", OF _ a])
  fix loop :: "('a \<Rightarrow> 'a) \<Rightarrow> ('a \<Rightarrow> 'a \<times> 'b option) \<Rightarrow> 'a \<Rightarrow> ('a \<times> 'b) option" and sleep round w y
  assume ih: "\<And>sleep round w y. loop sleep round w = Some y \<Longrightarrow> \<exists>k. first_success sleep round w k (fst y) (snd y)"
    and b: "(case round w of (w, None) \<Rightarrow> loop sleep round (sleep w) | (w, Some reply) \<Rightarrow> Some (w, reply)) = Some y"
  obtain w1 res where r: "round w = (w1, res)" by (cases "round w")
  show "\<exists>k. first_success sleep round w k (fst y) (snd y)"
  proof (cases res)
    case None
    then have "loop sleep round (sleep w1) = Some y" using b r by simp
    from ih [OF this] obtain k where "first_success sleep round (sleep w1) k (fst y) (snd y)" by blast
    then have "first_success sleep round w (Suc k) (fst y) (snd y)" using r None by (subst first_success_Suc) simp_all
    then show ?thesis by blast
  next
    case (Some reply)
    then show ?thesis using b r by (intro exI [of _ 0]) (auto simp: first_success_def)
  qed
qed

lemma retry_iff: "retry sleep round w = Some (w', r) \<longleftrightarrow> (\<exists>k. first_success sleep round w k w' r)"
  using retry_complete retry_sound [of sleep round w "(w', r)"] by auto

lemma try_each_sound:
  "try_each call args srvs w = (w', Some reply) \<Longrightarrow> \<not> WrongLeader reply \<and> (\<exists>srv\<in>set srvs. \<exists>w1. call srv args w1 = (w', Some reply))"
  by (induction srvs arbitrary: w) (auto split: prod.splits option.splits if_splits)

lemma get_each_sound:
  "get_each make_end call args srvs w = (w', Some v) \<Longrightarrow>
     \<exists>srv\<in>set srvs. \<exists>w1 reply. call (make_end srv) args w1 = (w', Some reply) \<and> get_Err reply \<in> {''OK'', ''ErrNoKey''} \<and> v = get_Value reply"
proof (induction srvs arbitrary: w)
  case (Cons a srvs)
  then show ?case by (auto split: prod.splits option.splits if_splits)
qed simp

lemma group_loop_sound:
  assumes a: "group_loop sleep query key each config w = Some y"
  shows "\<exists>w1. in_group (fst (snd y)) key each w1 = (fst y, Some (snd (snd y)))"
proof (rule group_loop.raw_induct [where P = "\<lambda>sleep query key each config w y. \<exists>w1. in_group (fst (snd y)) key each w1 = (fst y, Some (snd (snd y)))", OF _ a])
  fix loop :: "('a \<Rightarrow> 'a) \<Rightarrow> ('a \<Rightarrow> ('a \<times> Config) option) \<Rightarrow> string \<Rightarrow> (string list \<Rightarrow> 'a \<Rightarrow> 'a \<times> 'b option) \<Rightarrow> Config \<Rightarrow> 'a \<Rightarrow> ('a \<times> Config \<times> 'b) option"
    and sleep query key each config w y
  assume ih: "\<And>sleep query key each config w y. loop sleep query key each config w = Some y \<Longrightarrow>
      \<exists>w1. in_group (fst (snd y)) key each w1 = (fst y, Some (snd (snd y)))"
    and b: "(case in_group config key each w of
        (w, None) \<Rightarrow> (case query (sleep w) of None \<Rightarrow> None | Some (w, config) \<Rightarrow> loop sleep query key each config w)
      | (w, Some r) \<Rightarrow> Some (w, config, r)) = Some y"
  obtain w1 res where r: "in_group config key each w = (w1, res)" by (cases "in_group config key each w")
  show "\<exists>w1. in_group (fst (snd y)) key each w1 = (fst y, Some (snd (snd y)))"
  proof (cases res)
    case None
    then obtain w2 config2 where "loop sleep query key each config2 w2 = Some y" using b r by (auto split: option.splits prod.splits)
    from ih [OF this] show ?thesis .
  next
    case (Some v)
    then show ?thesis using b r by auto
  qed
qed

lemma key2shard_less: "key2shard key < NShards"
  by (simp add: key2shard_def NShards_def)

section \<open>What the clerks guarantee\<close>


text \<open>
  C34. If \<open>Get\<close> of the \<open>shardkv\<close> clerk returns, the value is one that a server of the group that holds
  the key's shard, in the configuration the clerk ends with, sent with \<open>OK\<close> or \<open>ErrNoKey\<close>. The shard of
  a key is always a valid index of the table of shards.
\<close>

theorem Shard_Get_sound:
  assumes "Shard_Get sleep qcall gcall key ck w = Some (w', ck', v)"
  shows "key2shard key < NShards \<and> (\<exists>servers. cfg_Groups (sck_config ck') (cfg_Shards (sck_config ck') ! key2shard key) = Some servers
    \<and> (\<exists>srv w1 reply. srv \<in> set servers \<and> gcall (sck_make_end ck srv) \<lparr>get_Key = key\<rparr> w1 = (w', Some reply)
         \<and> get_Err reply \<in> {''OK'', ''ErrNoKey''} \<and> v = get_Value reply))"
proof -
  from assms obtain config where c: "group_loop sleep (Ctrler_Clerk_Query sleep qcall (-1) (sck_sm ck)) key
      (get_each (sck_make_end ck) gcall \<lparr>get_Key = key\<rparr>) (sck_config ck) w = Some (w', config, v)" "ck' = ck \<lparr>sck_config := config\<rparr>"
    by (auto simp: Shard_Get_def Let_def)
  from group_loop_sound [OF c(1)] obtain w1 where
    "in_group config key (get_each (sck_make_end ck) gcall \<lparr>get_Key = key\<rparr>) w1 = (w', Some v)" by auto
  then show ?thesis using c(2) key2shard_less
    by (auto simp: in_group_def Let_def split: option.splits dest!: get_each_sound)
qed

definition sample_clerk :: "string ShardClerk" where
  "sample_clerk = (Shard_MakeClerk [''c0''] id) \<lparr>sck_config := \<lparr>cfg_Num = 1, cfg_Shards = replicate NShards 100, cfg_Groups = [100 \<mapsto> [''s0'', ''s1'']]\<rparr>\<rparr>"

definition sample_get :: "string \<Rightarrow> GetArgs \<Rightarrow> nat \<Rightarrow> nat \<times> GetReply option" where
  "sample_get srv args w = (w + 1, if srv = ''s1'' then Some \<lparr>get_Err = ''OK'', get_Value = ''v''\<rparr> else None)"

lemma sample_get_run: "Shard_Get id (\<lambda>_ _ w. (w, None)) sample_get ''k'' sample_clerk 0 = Some (2, sample_clerk, ''v'')"
  unfolding Shard_Get_def
  by (subst group_loop.simps) (simp add: sample_clerk_def Shard_MakeClerk_def sample_get_def in_group_def key2shard_less Let_def)

theorem Shard_Get_sound_witness:
  "\<exists>srv w1 reply. sample_get srv \<lparr>get_Key = ''k''\<rparr> w1 = (2, Some reply) \<and> ''v'' = get_Value reply"
  using Shard_Get_sound [OF sample_get_run] by (auto simp: sample_clerk_def Shard_MakeClerk_def)

text \<open>
  With the server of this repository, whose handler leaves the reply empty, \<open>Get\<close> of the \<open>shardkv\<close>
  clerk never returns: an empty error is neither \<open>OK\<close> nor \<open>ErrNoKey\<close>.
\<close>

theorem Shard_Get_never_returns:
  assumes "\<forall>srv args w1 w2 reply. gcall srv args w1 = (w2, Some reply) \<longrightarrow>
     (\<exists>kv :: (nat, 'e) ShardKV. reply = snd (ShardKV_Get args \<lparr>get_Err = [], get_Value = []\<rparr> kv))"
  shows "Shard_Get sleep qcall gcall key (ck :: 'e ShardClerk) w = None"
proof (rule ccontr)
  assume "Shard_Get sleep qcall gcall key ck w \<noteq> None"
  then obtain w' config v where "group_loop sleep (Ctrler_Clerk_Query sleep qcall (-1) (sck_sm ck)) key
      (get_each (sck_make_end ck) gcall \<lparr>get_Key = key\<rparr>) (sck_config ck) w = Some (w', config, v)"
    by (auto simp: Shard_Get_def Let_def)
  from group_loop_sound [OF this] obtain w1 where
    "in_group config key (get_each (sck_make_end ck) gcall \<lparr>get_Key = key\<rparr>) w1 = (w', Some v)" by auto
  then obtain srv w2 reply where "gcall srv \<lparr>get_Key = key\<rparr> w2 = (w', Some reply)" "get_Err reply \<in> {''OK'', ''ErrNoKey''}"
    by (auto simp: in_group_def Let_def split: option.splits dest!: get_each_sound)
  then show False using assms by (fastforce simp: ShardKV_Get_def)
qed

theorem Shard_Get_never_returns_witness:
  "Shard_Get id (\<lambda>_ _ w. (w, None)) (\<lambda>_ _ w. (w, Some \<lparr>get_Err = [], get_Value = []\<rparr>)) ''k'' sample_clerk (0::nat) = None"
  by (rule Shard_Get_never_returns) (simp add: ShardKV_Get_def)

end
