(* ===== verification/Kv_Config.thy ===== *)
theory Kv_Config
  imports Lab_Ends Lab_Services
begin

text \<open>
  The test configurations of \<open>kvraft/config.go\<close> and \<open>shardctrler/config.go\<close>. The two files have the
  same code for the network, the clients and the persisters; \<open>svc_config\<close> and the operations on it model
  this code once, for an arbitrary type \<open>'s\<close> of servers, and the two structures are \<open>kv_config\<close>, an
  extension of it, and \<open>svc_config\<close> itself. What differs (starting a server, \<open>Leader\<close>, \<open>make_config\<close>) is
  modelled for each. \<open>None\<close> is a panic or \<open>t.Fatal\<close>; random names, shuffles and addresses are arguments.
\<close>

section \<open>Configurations\<close>

text \<open>
  \<open>sv_clerks\<close> maps the addresses of clerks to the names of their ends. \<open>sv_old\<close> holds the servers that
  were killed.
\<close>

record 's svc_config =
  sv_failed :: bool
  sv_net :: "netname Network"
  sv_n :: nat
  sv_servers :: "'s option list"
  sv_saved :: "Persister option list"
  sv_endnames :: "string list option list"
  sv_clerks :: "nat \<rightharpoonup> string list"
  sv_nextClientId :: int
  sv_old :: "'s list"

record 'c kv_config = "'c KVServer svc_config" +
  kc_maxraftstate :: int
  kc_rpcs0 :: int
  kc_ops :: "32 word"

text \<open>\<open>rnd i\<close> is the result of \<open>rand.Intn(i + 1)\<close> in turn \<open>i\<close>.\<close>

definition random_handles :: "(nat \<Rightarrow> nat) \<Rightarrow> 'e list \<Rightarrow> 'e list" where
  "random_handles rnd kvh = foldl (\<lambda>sa i. let j = rnd i in sa[i := sa ! j, j := sa ! i]) kvh [0..<length kvh]"

definition svc_checkTimeout :: "int \<Rightarrow> ('s, 'z) svc_config_scheme \<Rightarrow> ('s, 'z) svc_config_scheme option" where
  "svc_checkTimeout elapsed cfg = (if \<not> sv_failed cfg \<and> elapsed > 120000 then None else Some cfg)"

text \<open>\<open>kill\<close> is the method \<open>Kill\<close> of the servers.\<close>

definition svc_cleanup :: "('s \<Rightarrow> 's) \<Rightarrow> int \<Rightarrow> ('s, 'z) svc_config_scheme \<Rightarrow> ('s, 'z) svc_config_scheme option" where
  "svc_cleanup kill elapsed cfg = do {
     let cfg = cfg \<lparr>sv_servers := map (map_option kill) (sv_servers cfg)\<rparr>;
     rn \<leftarrow> Cleanup (sv_net cfg);
     svc_checkTimeout elapsed (cfg \<lparr>sv_net := rn\<rparr>) }"

definition max_saved :: "(Persister \<Rightarrow> nat) \<Rightarrow> ('s, 'z) svc_config_scheme \<Rightarrow> nat option" where
  "max_saved sz cfg = foldo (\<lambda>i m. do {
     ps \<leftarrow> slice_get (sv_saved cfg) (int i); ps \<leftarrow> ps;
     Some (if sz ps > m then sz ps else m) }) [0..< sv_n cfg] 0"

definition svc_LogSize :: "('s, 'z) svc_config_scheme \<Rightarrow> nat option" where
  "svc_LogSize = max_saved RaftStateSize"

definition svc_SnapshotSize :: "('s, 'z) svc_config_scheme \<Rightarrow> nat option" where
  "svc_SnapshotSize = max_saved SnapshotSize"

section \<open>Connections\<close>

definition connectUnlocked :: "nat \<Rightarrow> nat list \<Rightarrow> ('s, 'z) svc_config_scheme \<Rightarrow> ('s, 'z) svc_config_scheme option" where
  "connectUnlocked i to cfg = do {
     let en = endname_of (sv_endnames cfg);
     rn \<leftarrow> Enable_each True (\<lambda>t. map_option Some (en i t)) to (sv_net cfg);
     rn \<leftarrow> Enable_each True (\<lambda>t. map_option Some (en t i)) to rn;
     Some (cfg \<lparr>sv_net := rn\<rparr>) }"

text \<open>The test of the second loop looks at the names of server \<open>j\<close>, not of server \<open>from[j]\<close>.\<close>

definition disconnectUnlocked :: "nat \<Rightarrow> nat list \<Rightarrow> ('s, 'z) svc_config_scheme \<Rightarrow> ('s, 'z) svc_config_scheme option" where
  "disconnectUnlocked i frm cfg = do {
     let en = endname_of (sv_endnames cfg);
     rn \<leftarrow> Enable_each False (\<lambda>t. if_named (sv_endnames cfg) i (en i t)) frm (sv_net cfg);
     rn \<leftarrow> Enable_each False (\<lambda>j. if_named (sv_endnames cfg) j (en (frm ! j) i)) [0..<length frm] rn;
     Some (cfg \<lparr>sv_net := rn\<rparr>) }"

definition svc_All :: "('s, 'z) svc_config_scheme \<Rightarrow> nat list" where
  "svc_All cfg = [0..< sv_n cfg]"

definition ConnectAll :: "('s, 'z) svc_config_scheme \<Rightarrow> ('s, 'z) svc_config_scheme option" where
  "ConnectAll cfg = foldo (\<lambda>i cfg. connectUnlocked i (svc_All cfg) cfg) [0..< sv_n cfg] cfg"

definition svc_partition :: "nat list \<Rightarrow> nat list \<Rightarrow> ('s, 'z) svc_config_scheme \<Rightarrow> ('s, 'z) svc_config_scheme option" where
  "svc_partition p1 p2 cfg = do {
     cfg \<leftarrow> foldo (\<lambda>i cfg. do { cfg \<leftarrow> disconnectUnlocked i p2 cfg; connectUnlocked i p1 cfg }) p1 cfg;
     foldo (\<lambda>i cfg. do { cfg \<leftarrow> disconnectUnlocked i p1 cfg; connectUnlocked i p2 cfg }) p2 cfg }"

section \<open>Clients\<close>

text \<open>A clerk that is not in the map has the nil slice of names.\<close>

definition client_ends :: "bool \<Rightarrow> nat \<Rightarrow> nat list \<Rightarrow> ('s, 'z) svc_config_scheme \<Rightarrow> ('s, 'z) svc_config_scheme option" where
  "client_ends b ck to cfg = do {
     let names = map_get0 [] (sv_clerks cfg) ck;
     rn \<leftarrow> Enable_each b (\<lambda>t. map_option Some (slice_get names (int t))) to (sv_net cfg);
     Some (cfg \<lparr>sv_net := rn\<rparr>) }"

definition ConnectClientUnlocked :: "nat \<Rightarrow> nat list \<Rightarrow> ('s, 'z) svc_config_scheme \<Rightarrow> ('s, 'z) svc_config_scheme option" where
  "ConnectClientUnlocked ck to cfg = client_ends True ck to cfg"

definition DisconnectClientUnlocked :: "nat \<Rightarrow> nat list \<Rightarrow> ('s, 'z) svc_config_scheme \<Rightarrow> ('s, 'z) svc_config_scheme option" where
  "DisconnectClientUnlocked ck frm cfg = client_ends False ck frm cfg"

text \<open>\<open>mk\<close> is \<open>MakeClerk\<close>, and \<open>ck\<close> the address of the clerk.\<close>

definition svc_makeClient :: "(netname list \<Rightarrow> 'k) \<Rightarrow> (nat \<Rightarrow> string) \<Rightarrow> (nat \<Rightarrow> nat) \<Rightarrow> nat \<Rightarrow> nat list \<Rightarrow> ('s, 'z) svc_config_scheme
    \<Rightarrow> (('s, 'z) svc_config_scheme \<times> 'k) option" where
  "svc_makeClient mk names rnd ck to cfg = do {
     let es = map names [0..< sv_n cfg];
     rn \<leftarrow> MakeEnds False (map (\<lambda>j. (names j, NInt (int j))) [0..< sv_n cfg]) (sv_net cfg);
     let clerk = mk (random_handles rnd (map NStr es));
     let cfg = cfg \<lparr>sv_net := rn, sv_clerks := (sv_clerks cfg)(ck \<mapsto> es), sv_nextClientId := sv_nextClientId cfg + 1\<rparr>;
     cfg \<leftarrow> ConnectClientUnlocked ck to cfg;
     Some (cfg, clerk) }"

definition Kv_makeClient :: "(nat \<Rightarrow> string) \<Rightarrow> (nat \<Rightarrow> nat) \<Rightarrow> nat \<Rightarrow> nat list \<Rightarrow> 'c kv_config \<Rightarrow> ('c kv_config \<times> netname KvClerk) option" where
  "Kv_makeClient = svc_makeClient Kv_MakeClerk"

definition Sc_makeClient :: "(nat \<Rightarrow> string) \<Rightarrow> (nat \<Rightarrow> nat) \<Rightarrow> nat \<Rightarrow> nat list \<Rightarrow> 'c ShardCtrler svc_config
    \<Rightarrow> ('c ShardCtrler svc_config \<times> netname CtrlerClerk) option" where
  "Sc_makeClient = svc_makeClient Ctrler_MakeClerk"

text \<open>The code also removes the files that have the names of the ends; there are none.\<close>

definition svc_deleteClient :: "nat \<Rightarrow> ('s, 'z) svc_config_scheme \<Rightarrow> ('s, 'z) svc_config_scheme" where
  "svc_deleteClient ck cfg = cfg \<lparr>sv_clerks := (sv_clerks cfg)(ck := None)\<rparr>"

section \<open>Servers\<close>

definition svc_ShutdownServer :: "('s \<Rightarrow> 's) \<Rightarrow> nat \<Rightarrow> ('s, 'z) svc_config_scheme \<Rightarrow> ('s, 'z) svc_config_scheme option" where
  "svc_ShutdownServer kill i cfg = do {
     cfg \<leftarrow> disconnectUnlocked i (svc_All cfg) cfg;
     let cfg = cfg \<lparr>sv_net := DeleteServer (NInt (int i)) (sv_net cfg)\<rparr>;
     ps \<leftarrow> slice_get (sv_saved cfg) (int i);
     let cfg = (if ps \<noteq> None then cfg \<lparr>sv_saved := (sv_saved cfg)[i := map_option Persister_Copy ps]\<rparr> else cfg);
     kv \<leftarrow> slice_get (sv_servers cfg) (int i);
     Some (case kv of Some kv \<Rightarrow> cfg \<lparr>sv_old := sv_old cfg @ [kill kv], sv_servers := (sv_servers cfg)[i := None]\<rparr> | None \<Rightarrow> cfg) }"

text \<open>\<open>start\<close> makes the server from its index and its persister, \<open>p\<close> is the address of the \<open>labrpc\<close> server.\<close>

definition svc_StartServer :: "(int \<Rightarrow> Persister \<Rightarrow> 's) \<Rightarrow> nat \<Rightarrow> (nat \<Rightarrow> string) \<Rightarrow> nat \<Rightarrow> ('s, 'z) svc_config_scheme
    \<Rightarrow> ('s, 'z) svc_config_scheme option" where
  "svc_StartServer start i names p cfg = do {
     en \<leftarrow> slice_set (sv_endnames cfg) (int i) (Some (map names [0..< sv_n cfg]));
     rn \<leftarrow> MakeEnds False (map (\<lambda>j. (names j, NInt (int j))) [0..< sv_n cfg]) (sv_net cfg);
     ps \<leftarrow> slice_get (sv_saved cfg) (int i);
     let ps = (case ps of Some ps \<Rightarrow> Persister_Copy ps | None \<Rightarrow> MakePersister);
     ss \<leftarrow> slice_set (sv_servers cfg) (int i) (Some (start (int i) ps));
     Some (cfg \<lparr>sv_endnames := en, sv_net := AddServer (NInt (int i)) p rn, sv_saved := (sv_saved cfg)[i := Some ps], sv_servers := ss\<rparr>) }"

definition Kv_StartServer :: "nat \<Rightarrow> (nat \<Rightarrow> string) \<Rightarrow> nat \<Rightarrow> 'c kv_config \<Rightarrow> 'c kv_config option" where
  "Kv_StartServer i names p cfg = svc_StartServer (\<lambda>i ps. StartKVServer (sv_n cfg) i ps (kc_maxraftstate cfg)) i names p cfg"

definition Sc_StartServer :: "nat \<Rightarrow> (nat \<Rightarrow> string) \<Rightarrow> nat \<Rightarrow> 'c ShardCtrler svc_config \<Rightarrow> 'c ShardCtrler svc_config option" where
  "Sc_StartServer i names p cfg = svc_StartServer (Ctrler_StartServer (sv_n cfg)) i names p cfg"

text \<open>
  \<open>Leader\<close>: the first server that says it is the leader. In \<open>kvraft\<close> a server that does not run is a nil
  dereference, in \<open>shardctrler\<close> it is skipped.
\<close>

fun Kv_Leader_from :: "nat list \<Rightarrow> 'c KVServer option list \<Rightarrow> (bool \<times> nat) option" where
  "Kv_Leader_from [] ss = Some (False, 0)"
| "Kv_Leader_from (i # is) ss = do {
     kv \<leftarrow> slice_get ss (int i);
     kv \<leftarrow> kv;
     if snd (GetState (kv_rf kv)) then Some (True, i) else Kv_Leader_from is ss }"

definition Kv_Leader :: "'c kv_config \<Rightarrow> (bool \<times> nat) option" where
  "Kv_Leader cfg = Kv_Leader_from [0..< sv_n cfg] (sv_servers cfg)"

fun Sc_Leader_from :: "nat list \<Rightarrow> 'c ShardCtrler option list \<Rightarrow> (bool \<times> nat) option" where
  "Sc_Leader_from [] ss = Some (False, 0)"
| "Sc_Leader_from (i # is) ss = do {
     sc \<leftarrow> slice_get ss (int i);
     case sc of
       Some sc \<Rightarrow> if snd (GetState (sc_rf sc)) then Some (True, i) else Sc_Leader_from is ss
     | None \<Rightarrow> Sc_Leader_from is ss }"

definition Sc_Leader :: "'c ShardCtrler svc_config \<Rightarrow> (bool \<times> nat) option" where
  "Sc_Leader cfg = Sc_Leader_from [0..< sv_n cfg] (sv_servers cfg)"

text \<open>\<open>make_partition\<close> for \<open>n\<close> servers with leader \<open>l\<close>; the state of its loop is \<open>p1\<close>, \<open>p2\<close> and \<open>j\<close>.\<close>

definition fill_parts :: "nat \<Rightarrow> nat \<Rightarrow> nat list \<times> nat list \<times> nat \<Rightarrow> (nat list \<times> nat list \<times> nat) option" where
  "fill_parts l i = (\<lambda>(p1, p2, j).
     if i \<noteq> l then
       if j < length p1 then do { p1 \<leftarrow> slice_set p1 (int j) i; Some (p1, p2, j + 1) }
       else do { p2 \<leftarrow> slice_set p2 (int j - int (length p1)) i; Some (p1, p2, j + 1) }
     else Some (p1, p2, j))"

definition parts_of :: "nat \<Rightarrow> nat \<Rightarrow> (nat list \<times> nat list) option" where
  "parts_of n l = do {
     (p1, p2, j) \<leftarrow> foldo (fill_parts l) [0..<n] (replicate (n div 2 + 1) 0, replicate (n div 2) 0, 0);
     p2 \<leftarrow> slice_set p2 (int (length p2) - 1) l;
     Some (p1, p2) }"

definition Kv_make_partition :: "'c kv_config \<Rightarrow> (nat list \<times> nat list) option" where
  "Kv_make_partition cfg = do { (_, l) \<leftarrow> Kv_Leader cfg; parts_of (sv_n cfg) l }"

definition Sc_make_partition :: "'c ShardCtrler svc_config \<Rightarrow> (nat list \<times> nat list) option" where
  "Sc_make_partition cfg = do { (_, l) \<leftarrow> Sc_Leader cfg; parts_of (sv_n cfg) l }"

definition Kv_make_config :: "(nat \<Rightarrow> nat \<Rightarrow> string) \<Rightarrow> (nat \<Rightarrow> nat) \<Rightarrow> nat \<Rightarrow> bool \<Rightarrow> int \<Rightarrow> 'c kv_config option" where
  "Kv_make_config names srvs n unreliable maxraftstate = do {
     let cfg = \<lparr>sv_failed = False, sv_net = MakeNetwork, sv_n = n, sv_servers = replicate n None, sv_saved = replicate n None,
       sv_endnames = replicate n None, sv_clerks = Map.empty, sv_nextClientId = int n + 1000, sv_old = [],
       kc_maxraftstate = maxraftstate, kc_rpcs0 = 0, kc_ops = 0\<rparr>;
     cfg \<leftarrow> foldo (\<lambda>i. Kv_StartServer i (names i) (srvs i)) [0..<n] cfg;
     cfg \<leftarrow> ConnectAll cfg;
     Some (cfg \<lparr>sv_net := Reliable (\<not> unreliable) (sv_net cfg)\<rparr>) }"

definition Sc_make_config :: "(nat \<Rightarrow> nat \<Rightarrow> string) \<Rightarrow> (nat \<Rightarrow> nat) \<Rightarrow> nat \<Rightarrow> bool \<Rightarrow> 'c ShardCtrler svc_config option" where
  "Sc_make_config names srvs n unreliable = do {
     let cfg = \<lparr>sv_failed = False, sv_net = MakeNetwork, sv_n = n, sv_servers = replicate n None, sv_saved = replicate n None,
       sv_endnames = replicate n None, sv_clerks = Map.empty, sv_nextClientId = int n + 1000, sv_old = []\<rparr>;
     cfg \<leftarrow> foldo (\<lambda>i. Sc_StartServer i (names i) (srvs i)) [0..<n] cfg;
     cfg \<leftarrow> ConnectAll cfg;
     Some (cfg \<lparr>sv_net := Reliable (\<not> unreliable) (sv_net cfg)\<rparr>) }"

section \<open>Statistics\<close>

definition Kv_rpcTotal :: "'c kv_config \<Rightarrow> int" where
  "Kv_rpcTotal cfg = GetTotalCount (sv_net cfg)"

definition Kv_begin :: "'c kv_config \<Rightarrow> 'c kv_config" where
  "Kv_begin cfg = cfg \<lparr>kc_rpcs0 := Kv_rpcTotal cfg, kc_ops := 0\<rparr>"

definition Kv_op :: "'c kv_config \<Rightarrow> 'c kv_config" where
  "Kv_op cfg = cfg \<lparr>kc_ops := kc_ops cfg + 1\<rparr>"

text \<open>The numbers \<open>end\<close> prints besides the time: peers, RPCs, operations.\<close>

definition Kv_end :: "int \<Rightarrow> 'c kv_config \<Rightarrow> (nat \<times> int \<times> int) option option" where
  "Kv_end elapsed cfg = do {
     cfg \<leftarrow> svc_checkTimeout elapsed cfg;
     if \<not> sv_failed cfg then Some (Some (sv_n cfg, Kv_rpcTotal cfg - kc_rpcs0 cfg, sint (kc_ops cfg))) else Some None }"

section \<open>Partitions\<close>

lemma random_handles_perm:
  assumes "\<And>i. i < length kvh \<Longrightarrow> rnd i \<le> i"
  shows "mset (random_handles rnd kvh) = mset kvh"
proof -
  have "n \<le> length kvh \<Longrightarrow> length (foldl (\<lambda>sa i. let j = rnd i in sa[i := sa ! j, j := sa ! i]) kvh [0..<n]) = length kvh
      \<and> mset (foldl (\<lambda>sa i. let j = rnd i in sa[i := sa ! j, j := sa ! i]) kvh [0..<n]) = mset kvh" for n
  proof (induction n)
    case (Suc n)
    then have "rnd n < length kvh" using assms [of n] by simp
    with Suc show ?case by (auto simp: Let_def mset_swap)
  qed simp
  then show ?thesis by (simp add: random_handles_def)
qed

text \<open>
  The state of the loop of \<open>make_partition\<close>: the servers seen so far, except \<open>l\<close>, fill first \<open>p1\<close> and
  then \<open>p2\<close>; \<open>k1\<close> and \<open>k2\<close> are the lengths.
\<close>

definition filled :: "nat \<Rightarrow> nat \<Rightarrow> nat list \<Rightarrow> nat list \<times> nat list \<times> nat" where
  "filled k1 k2 os = (take k1 os @ replicate (k1 - length os) 0, drop k1 os @ replicate (k2 - (length os - k1)) 0, length os)"

lemma fill_parts_filled:
  assumes "i \<noteq> l" and "length os < k1 + k2"
  shows "fill_parts l i (filled k1 k2 os) = Some (filled k1 k2 (os @ [i]))"
proof (cases "length os < k1")
  case True
  then have "replicate (k1 - length os) (0 :: nat) = 0 # replicate (k1 - Suc (length os)) 0"
    by (metis Suc_diff_Suc replicate_Suc)
  then show ?thesis using True assms by (simp add: fill_parts_def filled_def list_update_append)
next
  case False
  then have "replicate (k2 - (length os - k1)) (0 :: nat) = 0 # replicate (k2 - (Suc (length os) - k1)) 0"
    using assms(2) by (metis Suc_diff_Suc Suc_diff_le diff_less_mono2 le_add_diff_inverse less_diff_conv2 not_less replicate_Suc add.commute)
  moreover have "slice_set ys (int (length os) - int k1) i = (if length os - k1 < length ys then Some (ys[length os - k1 := i]) else None)" for ys
    using slice_set_nat [of ys "length os - k1" i] False by (simp add: of_nat_diff)
  ultimately show ?thesis using False assms
    by (simp add: fill_parts_def filled_def list_update_append)
qed

lemma fill_parts_loop:
  assumes "length (filter (\<lambda>i. i \<noteq> l) xs) + length os \<le> k1 + k2"
  shows "foldo (fill_parts l) xs (filled k1 k2 os) = Some (filled k1 k2 (os @ filter (\<lambda>i. i \<noteq> l) xs))"
  using assms
proof (induction xs arbitrary: os)
  case (Cons x xs)
  show ?case
  proof (cases "x = l")
    case True
    then show ?thesis using Cons by (simp add: fill_parts_def filled_def)
  next
    case False
    then show ?thesis using Cons fill_parts_filled [OF False, of os k1 k2] by simp
  qed
qed simp

lemma length_others: "l < n \<Longrightarrow> length (filter (\<lambda>i. i \<noteq> l) [0..<n]) = n - 1"
proof -
  assume "l < n"
  have "length (filter (\<lambda>i. i \<noteq> l) [0..<n]) = card (set (filter (\<lambda>i. i \<noteq> l) [0..<n]))" by (rule distinct_card [symmetric]) simp
  also have "set (filter (\<lambda>i. i \<noteq> l) [0..<n]) = {0..<n} - {l}" by auto
  finally show ?thesis using \<open>l < n\<close> by simp
qed

text \<open>The two parts, for three servers or more.\<close>

lemma parts_of_value:
  assumes "3 \<le> n" and "l < n"
  shows "parts_of n l = (let os = filter (\<lambda>i. i \<noteq> l) [0..<n]; k = n div 2 + 1 in
    Some (take k os, drop k os @ (if even n then [0] else []) @ [l]))"
proof -
  let ?os = "filter (\<lambda>i. i \<noteq> l) [0..<n]" and ?k1 = "n div 2 + 1" and ?k2 = "n div 2"
  have len: "length ?os = n - 1" by (rule length_others [OF assms(2)])
  have "filled ?k1 ?k2 [] = (replicate ?k1 0, replicate ?k2 0, 0)" by (simp add: filled_def)
  then have "foldo (fill_parts l) [0..<n] (replicate ?k1 0, replicate ?k2 0, 0) = Some (filled ?k1 ?k2 ?os)"
    using fill_parts_loop [of l "[0..<n]" "[]" ?k1 ?k2] len assms by simp
  moreover have "filled ?k1 ?k2 ?os = (take ?k1 ?os, drop ?k1 ?os @ (if even n then [0] else []) @ [0], n - 1)"
  proof -
    have "?k1 \<le> n - 1" using assms(1) by linarith
    moreover have "?k2 - (n - 1 - ?k1) = (if even n then 2 else 1)" using assms(1) by (auto elim!: evenE oddE)
    ultimately show ?thesis unfolding filled_def len by (simp add: numeral_2_eq_2)
  qed
  moreover have "slice_set (a @ b @ [0]) (int (length (a @ b @ [0])) - 1) l = Some (a @ b @ [l])" for a b
    by (simp add: slice_set_def list_update_append nat_add_distrib)
  ultimately show ?thesis unfolding parts_of_def Let_def by (simp only: Option.bind.bind_lunit prod.case)
qed

section \<open>The network\<close>

text \<open>The names of the ends belong to the servers they are meant for, and the clients have names of their own.\<close>

definition sv_ok :: "('s, 'z) svc_config_scheme \<Rightarrow> bool" where
  "sv_ok cfg \<longleftrightarrow> length (sv_endnames cfg) = sv_n cfg \<and> length (sv_servers cfg) = sv_n cfg
     \<and> (\<forall>i es. i < sv_n cfg \<longrightarrow> sv_endnames cfg ! i = Some es \<longrightarrow> length es = sv_n cfg)
     \<and> (\<exists>link. wired (endname_of (sv_endnames cfg)) link (sv_net cfg))
     \<and> (\<forall>ck es e. sv_clerks cfg ck = Some es \<longrightarrow> e \<in> set es \<longrightarrow> ends (sv_net cfg) (NStr e) \<noteq> None)
     \<and> (\<forall>i < sv_n cfg. map_get0 None (servers (sv_net cfg)) (NInt (int i)) \<noteq> None \<longleftrightarrow> sv_servers cfg ! i \<noteq> None)"

lemma Enable_each_ok:
  assumes "sv_ok cfg" and "Enable_each b pick js (sv_net cfg) = Some rn"
  shows "sv_ok (cfg \<lparr>sv_net := rn\<rparr>)"
proof -
  from assms(1) obtain link where w: "wired (endname_of (sv_endnames cfg)) link (sv_net cfg)" by (auto simp: sv_ok_def)
  let ?l = "\<lambda>i j. if picked pick js (NStr (the (endname_of (sv_endnames cfg) i j))) then b else link i j"
  have "wired (endname_of (sv_endnames cfg)) ?l rn" by (rule wired_Enable_each [OF w assms(2)]) simp
  moreover have "ends rn = ends (sv_net cfg)" "servers rn = servers (sv_net cfg)" using assms(2) by (simp_all add: Enable_each_value)
  ultimately show ?thesis using assms(1) by (auto simp: sv_ok_def)
qed

lemma connectUnlocked_ok: "sv_ok cfg \<Longrightarrow> connectUnlocked i to cfg = Some cfg' \<Longrightarrow> sv_ok cfg'"
  by (fastforce simp: connectUnlocked_def Let_def split: bind_splits dest: Enable_each_ok)

lemma disconnectUnlocked_ok: "sv_ok cfg \<Longrightarrow> disconnectUnlocked i frm cfg = Some cfg' \<Longrightarrow> sv_ok cfg'"
  by (fastforce simp: disconnectUnlocked_def Let_def split: bind_splits dest: Enable_each_ok)

lemma client_ends_ok: "sv_ok cfg \<Longrightarrow> client_ends b ck to cfg = Some cfg' \<Longrightarrow> sv_ok cfg'"
  by (auto simp: client_ends_def Let_def split: bind_splits dest: Enable_each_ok)

lemma ConnectAll_ok: "sv_ok cfg \<Longrightarrow> ConnectAll cfg = Some cfg' \<Longrightarrow> sv_ok cfg'"
  unfolding ConnectAll_def by (erule foldo_inv [where P = sv_ok]) (auto intro: connectUnlocked_ok)

definition part_body :: "nat list \<Rightarrow> nat list \<Rightarrow> nat \<Rightarrow> ('s, 'z) svc_config_scheme \<Rightarrow> ('s, 'z) svc_config_scheme option" where
  "part_body p q i cfg = do { cfg \<leftarrow> disconnectUnlocked i q cfg; connectUnlocked i p cfg }"

lemma part_body_Some:
  "part_body p q i cfg = Some c2 \<longleftrightarrow> (\<exists>c1. disconnectUnlocked i q cfg = Some c1 \<and> connectUnlocked i p c1 = Some c2)"
  by (auto simp: part_body_def split: bind_splits)

lemma if_named_range: "if_named en i x \<noteq> None \<Longrightarrow> i < length en"
  by (cases "i < length en") (simp_all add: if_named_def)

lemma part_body_ok: "sv_ok cfg \<Longrightarrow> part_body p q i cfg = Some cfg' \<Longrightarrow> sv_ok cfg'"
  by (auto simp: part_body_def split: bind_splits dest: disconnectUnlocked_ok connectUnlocked_ok)

lemma partition_bodies: "svc_partition p1 p2 cfg = do { cfg \<leftarrow> foldo (part_body p1 p2) p1 cfg; foldo (part_body p2 p1) p2 cfg }"
  by (simp add: svc_partition_def part_body_def [abs_def])

lemma partition_ok: "sv_ok cfg \<Longrightarrow> svc_partition p1 p2 cfg = Some cfg' \<Longrightarrow> sv_ok cfg'"
  unfolding partition_bodies by (auto split: bind_splits elim!: foldo_inv [where P = sv_ok] intro: part_body_ok)

lemma StartServer_ok:
  assumes "sv_ok cfg" and "svc_StartServer start i names p cfg = Some cfg'"
  shows "sv_ok cfg'"
proof -
  let ?n = "sv_n cfg" and ?es = "map (\<lambda>j. (names j, NInt (int j))) [0..< sv_n cfg]" and ?en = "endname_of (sv_endnames cfg)"
  from assms obtain rn ps srv where i: "i < ?n" and rn: "MakeEnds False ?es (sv_net cfg) = Some rn"
    and cfg': "cfg' = cfg \<lparr>sv_endnames := (sv_endnames cfg)[i := Some (map names [0..< ?n])], sv_net := AddServer (NInt (int i)) p rn,
       sv_saved := ps, sv_servers := (sv_servers cfg)[i := Some srv]\<rparr>"
    by (auto simp: svc_StartServer_def sv_ok_def Let_def split: bind_splits if_splits)
  from assms(1) obtain link where w: "wired ?en link (sv_net cfg)" and len: "length (sv_endnames cfg) = ?n" by (auto simp: sv_ok_def)
  have en: "endname_of (sv_endnames cfg') = ?en(i := \<lambda>j. if j < ?n then Some (names j) else None)"
    using i by (intro ext) (simp add: cfg' endname_of_update len)
  have "wired (endname_of (sv_endnames cfg')) (\<lambda>a c. a \<noteq> i \<and> link a c) rn" unfolding en by (rule wired_restart [OF w rn])
  then have "wired (endname_of (sv_endnames cfg')) (\<lambda>a c. a \<noteq> i \<and> link a c) (sv_net cfg')"
    by (rule wired_cong) (simp_all add: cfg' AddServer_def)
  moreover have "ends rn (NStr e) \<noteq> None" if "ends (sv_net cfg) (NStr e) \<noteq> None" for e
    using that rn by (simp add: MakeEnds_value add_ends_def)
  moreover have "servers rn = servers (sv_net cfg)" using rn by (simp add: MakeEnds_value add_ends_def)
  ultimately show ?thesis using assms(1) i by (auto simp: sv_ok_def cfg' AddServer_def nth_list_update)
qed

lemma ShutdownServer_ok:
  assumes "sv_ok cfg" and "svc_ShutdownServer kill i cfg = Some cfg'"
  shows "sv_ok cfg'"
proof -
  from assms(2) obtain cfg1 where d: "disconnectUnlocked i (svc_All cfg) cfg = Some cfg1" by (auto simp: svc_ShutdownServer_def split: bind_splits)
  note ok = disconnectUnlocked_ok [OF assms(1) d]
  have cfg': "\<exists>ps old. cfg' = cfg1 \<lparr>sv_net := DeleteServer (NInt (int i)) (sv_net cfg1), sv_saved := ps, sv_old := old,
      sv_servers := (sv_servers cfg1)[i := None]\<rparr>" and il: "i < length (sv_servers cfg1)"
    using assms(2) unfolding svc_ShutdownServer_def d
    by (cases cfg1; auto simp: Let_def split: option.splits if_splits bind_splits dest!: list_update_None)+
  from ok obtain link where "wired (endname_of (sv_endnames cfg1)) link (sv_net cfg1)" by (auto simp: sv_ok_def)
  then have "wired (endname_of (sv_endnames cfg1)) link (DeleteServer (NInt (int i)) (sv_net cfg1))"
    by (rule wired_cong) (simp_all add: DeleteServer_def)
  then show ?thesis using ok cfg' il by (auto simp: sv_ok_def DeleteServer_def nth_list_update split: if_splits)
qed

lemma makeClient_ok:
  assumes "sv_ok cfg" and "svc_makeClient mk names rnd ck to cfg = Some (cfg', clerk)"
  shows "sv_ok cfg'"
proof -
  let ?n = "sv_n cfg" and ?es = "map (\<lambda>j. (names j, NInt (int j))) [0..< sv_n cfg]"
  from assms(2) obtain rn cfg1 where rn: "MakeEnds False ?es (sv_net cfg) = Some rn"
    and cfg1: "cfg1 = cfg \<lparr>sv_net := rn, sv_clerks := (sv_clerks cfg)(ck \<mapsto> map names [0..< ?n]), sv_nextClientId := sv_nextClientId cfg + 1\<rparr>"
    and c: "client_ends True ck to cfg1 = Some cfg'"
    by (auto simp: svc_makeClient_def ConnectClientUnlocked_def Let_def split: bind_splits)
  from rn have v: "distinct (map fst ?es)" "\<forall>e\<in>fst ` set ?es. ends (sv_net cfg) (NStr e) = None" "rn = add_ends False ?es (sv_net cfg)"
    by (simp_all add: MakeEnds_value)
  from assms(1) obtain link where w: "wired (endname_of (sv_endnames cfg)) link (sv_net cfg)" by (auto simp: sv_ok_def)
  have "wired (endname_of (sv_endnames cfg)) link rn"
  proof (rule wired_other [OF w])
    fix i j e assume "endname_of (sv_endnames cfg) i j = Some e"
    from wiredD(2) [OF w this] v(2) have "NStr e \<notin> NStr ` fst ` set ?es" by auto
    from add_ends_other [OF this] show "ends rn (NStr e) = ends (sv_net cfg) (NStr e)
      \<and> connections rn (NStr e) = connections (sv_net cfg) (NStr e) \<and> enabled rn (NStr e) = enabled (sv_net cfg) (NStr e)"
      by (simp add: v(3))
  qed
  moreover have "ends rn (NStr e) \<noteq> None" if "ends (sv_net cfg) (NStr e) \<noteq> None" for e
    using that by (simp add: v(3) add_ends_def)
  moreover have "ends rn (NStr (names j)) \<noteq> None" if "j < ?n" for j
    using add_ends_new(1) [OF v(1), of "names j" "NInt (int j)"] that by (simp add: v(3))
  moreover have "servers rn = servers (sv_net cfg)" by (simp add: v(3) add_ends_def)
  ultimately have "sv_ok cfg1" using assms(1) unfolding sv_ok_def cfg1 by auto
  then show ?thesis by (rule client_ends_ok [OF _ c])
qed

text \<open>Which links the operations make and cut.\<close>

lemma connect_link:
  assumes "wired (endname_of (sv_endnames cfg)) link (sv_net cfg)" and "connectUnlocked i to cfg = Some cfg'"
  shows "\<exists>rn. cfg' = cfg \<lparr>sv_net := rn\<rparr> \<and> servers rn = servers (sv_net cfg)
    \<and> wired (endname_of (sv_endnames cfg)) (\<lambda>a b. link a b \<or> a = i \<and> b \<in> set to \<or> b = i \<and> a \<in> set to) rn"
proof -
  let ?en = "endname_of (sv_endnames cfg)"
  from assms(2) obtain rn1 rn2 where rn1: "Enable_each True (\<lambda>t. map_option Some (?en i t)) to (sv_net cfg) = Some rn1"
    and rn2: "Enable_each True (\<lambda>t. map_option Some (?en t i)) to rn1 = Some rn2" and cfg': "cfg' = cfg \<lparr>sv_net := rn2\<rparr>"
    by (auto simp: connectUnlocked_def Let_def split: bind_splits)
  have pick: "picked (\<lambda>t. map_option Some (?en i t)) to (NStr e) \<longleftrightarrow> a = i \<and> b \<in> set to"
    "picked (\<lambda>t. map_option Some (?en t i)) to (NStr e) \<longleftrightarrow> b = i \<and> a \<in> set to" if "?en a b = Some e" for a b e
    by (auto simp: picked_def wired_name [OF assms(1) that])
  have "wired ?en (\<lambda>a b. link a b \<or> a = i \<and> b \<in> set to) rn1" by (rule wired_Enable_each [OF assms(1) rn1]) (auto simp: pick)
  then have "wired ?en (\<lambda>a b. (link a b \<or> a = i \<and> b \<in> set to) \<or> b = i \<and> a \<in> set to) rn2"
    by (rule wired_Enable_each [OF _ rn2]) (auto simp: pick)
  moreover have "servers rn2 = servers (sv_net cfg)" using rn1 rn2 by (simp add: Enable_each_value)
  ultimately show ?thesis using cfg' by (auto simp: disj_assoc)
qed

lemma disconnect_link:
  assumes "wired (endname_of (sv_endnames cfg)) link (sv_net cfg)" and "disconnectUnlocked i frm cfg = Some cfg'"
    and "None \<notin> set (sv_endnames cfg)"
  shows "\<exists>rn. cfg' = cfg \<lparr>sv_net := rn\<rparr> \<and> servers rn = servers (sv_net cfg)
    \<and> wired (endname_of (sv_endnames cfg)) (\<lambda>a b. link a b \<and> \<not> (a = i \<and> b \<in> set frm) \<and> \<not> (b = i \<and> a \<in> set frm)) rn"
proof -
  let ?en = "endname_of (sv_endnames cfg)"
  from assms(2) obtain rn1 rn2 where rn1: "Enable_each False (\<lambda>t. if_named (sv_endnames cfg) i (?en i t)) frm (sv_net cfg) = Some rn1"
    and rn2: "Enable_each False (\<lambda>j. if_named (sv_endnames cfg) j (?en (frm ! j) i)) [0..<length frm] rn1 = Some rn2"
    and cfg': "cfg' = cfg \<lparr>sv_net := rn2\<rparr>"
    by (auto simp: disconnectUnlocked_def Let_def split: bind_splits)
  have named: "j < length (sv_endnames cfg) \<Longrightarrow> sv_endnames cfg ! j \<noteq> None" for j using assms(3) by (metis nth_mem)
  have "if_named (sv_endnames cfg) j (?en (frm ! j) i) \<noteq> None" if "j < length frm" for j using rn2 that by (auto simp: Enable_each_value)
  then have inr: "j < length (sv_endnames cfg)" if "j < length frm" for j using that by (blast intro: if_named_range)
  have pick: "picked (\<lambda>t. if_named (sv_endnames cfg) i (?en i t)) frm (NStr e) \<longleftrightarrow> a = i \<and> b \<in> set frm"
    "picked (\<lambda>j. if_named (sv_endnames cfg) j (?en (frm ! j) i)) [0..<length frm] (NStr e) \<longleftrightarrow> b = i \<and> a \<in> set frm"
    if e: "?en a b = Some e" for a b e
  proof -
    have "a < length (sv_endnames cfg)" using e by (simp add: endname_of_Some)
    then show "picked (\<lambda>t. if_named (sv_endnames cfg) i (?en i t)) frm (NStr e) \<longleftrightarrow> a = i \<and> b \<in> set frm"
      using named by (auto simp: picked_def if_named_Some wired_name [OF assms(1) e])
    show "picked (\<lambda>j. if_named (sv_endnames cfg) j (?en (frm ! j) i)) [0..<length frm] (NStr e) \<longleftrightarrow> b = i \<and> a \<in> set frm"
      using named inr by (auto simp: picked_def if_named_Some wired_name [OF assms(1) e] in_set_conv_nth)
  qed
  have "wired ?en (\<lambda>a b. link a b \<and> \<not> (a = i \<and> b \<in> set frm)) rn1" by (rule wired_Enable_each [OF assms(1) rn1]) (auto simp: pick)
  then have "wired ?en (\<lambda>a b. (link a b \<and> \<not> (a = i \<and> b \<in> set frm)) \<and> \<not> (b = i \<and> a \<in> set frm)) rn2"
    by (rule wired_Enable_each [OF _ rn2]) (auto simp: pick)
  moreover have "servers rn2 = servers (sv_net cfg)" using rn1 rn2 by (simp add: Enable_each_value)
  ultimately show ?thesis using cfg' by auto
qed

lemma part_loop_link:
  assumes "wired (endname_of (sv_endnames cfg)) link (sv_net cfg)" and "foldo (part_body p q) ps cfg = Some cfg'"
    and "None \<notin> set (sv_endnames cfg)" and "set ps \<subseteq> set p" and "set p \<inter> set q = {}"
  shows "\<exists>rn. cfg' = cfg \<lparr>sv_net := rn\<rparr> \<and> servers rn = servers (sv_net cfg)
    \<and> wired (endname_of (sv_endnames cfg)) (\<lambda>a b. link a b \<and> \<not> (a \<in> set ps \<and> b \<in> set q) \<and> \<not> (b \<in> set ps \<and> a \<in> set q)
         \<or> a \<in> set ps \<and> b \<in> set p \<or> b \<in> set ps \<and> a \<in> set p) rn"
  using assms(1-4)
proof (induction ps arbitrary: cfg link)
  case Nil
  then show ?case by (intro exI [of _ "sv_net cfg"]) simp
next
  case (Cons x ps)
  let ?en = "endname_of (sv_endnames cfg)"
  from Cons.prems(2) obtain c1 c2 where c: "disconnectUnlocked x q cfg = Some c1" "connectUnlocked x p c1 = Some c2"
    "foldo (part_body p q) ps c2 = Some cfg'" by (auto simp: part_body_Some split: bind_splits)
  from disconnect_link [OF Cons.prems(1) c(1) Cons.prems(3)] obtain r1 where r1: "c1 = cfg \<lparr>sv_net := r1\<rparr>" "servers r1 = servers (sv_net cfg)"
    "wired ?en (\<lambda>a b. link a b \<and> \<not> (a = x \<and> b \<in> set q) \<and> \<not> (b = x \<and> a \<in> set q)) r1" by blast
  from connect_link [OF _ c(2)] r1 obtain r2 where r2: "c2 = cfg \<lparr>sv_net := r2\<rparr>" "servers r2 = servers (sv_net cfg)"
    "wired ?en (\<lambda>a b. (link a b \<and> \<not> (a = x \<and> b \<in> set q) \<and> \<not> (b = x \<and> a \<in> set q)) \<or> a = x \<and> b \<in> set p \<or> b = x \<and> a \<in> set p) r2" by auto
  from Cons.IH [OF _ c(3)] r2 Cons.prems(3,4) obtain rn where rn: "cfg' = cfg \<lparr>sv_net := rn\<rparr>" "servers rn = servers (sv_net cfg)"
    "wired ?en (\<lambda>a b. ((link a b \<and> \<not> (a = x \<and> b \<in> set q) \<and> \<not> (b = x \<and> a \<in> set q)) \<or> a = x \<and> b \<in> set p \<or> b = x \<and> a \<in> set p)
        \<and> \<not> (a \<in> set ps \<and> b \<in> set q) \<and> \<not> (b \<in> set ps \<and> a \<in> set q) \<or> a \<in> set ps \<and> b \<in> set p \<or> b \<in> set ps \<and> a \<in> set p) rn" by auto
  have "wired ?en (\<lambda>a b. link a b \<and> \<not> (a \<in> set (x # ps) \<and> b \<in> set q) \<and> \<not> (b \<in> set (x # ps) \<and> a \<in> set q)
         \<or> a \<in> set (x # ps) \<and> b \<in> set p \<or> b \<in> set (x # ps) \<and> a \<in> set p) rn"
    by (rule wired_cong [OF rn(3)]) (use Cons.prems(4) assms(5) in auto)
  with rn(1,2) show ?case by blast
qed

definition parted :: "nat list \<Rightarrow> nat list \<Rightarrow> (nat \<Rightarrow> nat \<Rightarrow> bool) \<Rightarrow> nat \<Rightarrow> nat \<Rightarrow> bool" where
  "parted p q link a b \<longleftrightarrow> link a b \<and> \<not> (a \<in> set p \<and> b \<in> set q) \<and> \<not> (b \<in> set p \<and> a \<in> set q)
     \<or> a \<in> set p \<and> b \<in> set p \<or> b \<in> set p \<and> a \<in> set p"

lemma part_loop:
  assumes "wired (endname_of (sv_endnames cfg)) link (sv_net cfg)" and "foldo (part_body p q) p cfg = Some cfg'"
    and "None \<notin> set (sv_endnames cfg)" and "set p \<inter> set q = {}"
  shows "\<exists>rn. cfg' = cfg \<lparr>sv_net := rn\<rparr> \<and> wired (endname_of (sv_endnames cfg)) (parted p q link) rn"
  using part_loop_link [OF assms(1-3) subset_refl assms(4)] unfolding parted_def [abs_def] by blast

section \<open>Reachable configurations\<close>

text \<open>
  The configurations a test of \<open>kvraft\<close> gets to. The last rule stands for everything that changes
  neither the names nor the tables of the network: the servers, the clerks and their calls, \<open>begin\<close>,
  \<open>op\<close>, \<open>cleanup\<close>.
\<close>

inductive kv_reach :: "'c kv_config \<Rightarrow> bool" where
  make: "Kv_make_config names srvs n unreliable maxraftstate = Some cfg \<Longrightarrow> kv_reach cfg"
| start: "kv_reach cfg \<Longrightarrow> Kv_StartServer i names p cfg = Some cfg' \<Longrightarrow> kv_reach cfg'"
| shutdown: "kv_reach cfg \<Longrightarrow> svc_ShutdownServer KVServer_Kill i cfg = Some cfg' \<Longrightarrow> kv_reach cfg'"
| connect: "kv_reach cfg \<Longrightarrow> connectUnlocked i to cfg = Some cfg' \<Longrightarrow> kv_reach cfg'"
| disconnect: "kv_reach cfg \<Longrightarrow> disconnectUnlocked i frm cfg = Some cfg' \<Longrightarrow> kv_reach cfg'"
| connect_all: "kv_reach cfg \<Longrightarrow> ConnectAll cfg = Some cfg' \<Longrightarrow> kv_reach cfg'"
| part: "kv_reach cfg \<Longrightarrow> svc_partition p1 p2 cfg = Some cfg' \<Longrightarrow> kv_reach cfg'"
| client: "kv_reach cfg \<Longrightarrow> Kv_makeClient names rnd ck to cfg = Some (cfg', clerk) \<Longrightarrow> kv_reach cfg'"
| delete: "kv_reach cfg \<Longrightarrow> kv_reach (svc_deleteClient ck cfg)"
| client_ends: "kv_reach cfg \<Longrightarrow> client_ends b ck to cfg = Some cfg' \<Longrightarrow> kv_reach cfg'"
| other: "kv_reach cfg \<Longrightarrow> cfg' = cfg \<lparr>sv_net := rn, sv_servers := ss, sv_failed := f, kc_rpcs0 := r, kc_ops := ops\<rparr> \<Longrightarrow>
    length ss = length (sv_servers cfg) \<Longrightarrow> \<forall>i<length ss. ss ! i = None \<longleftrightarrow> sv_servers cfg ! i = None \<Longrightarrow>
    ends rn = ends (sv_net cfg) \<Longrightarrow> enabled rn = enabled (sv_net cfg) \<Longrightarrow> connections rn = connections (sv_net cfg) \<Longrightarrow>
    servers rn = servers (sv_net cfg) \<Longrightarrow> kv_reach cfg'"

definition kv_ok :: "'c kv_config \<Rightarrow> bool" where
  "kv_ok cfg \<longleftrightarrow> sv_ok cfg \<and> None \<notin> set (sv_endnames cfg)"

lemma same_names:
  "connectUnlocked i to cfg = Some cfg' \<Longrightarrow> sv_endnames cfg' = sv_endnames cfg"
  "disconnectUnlocked i to cfg = Some cfg' \<Longrightarrow> sv_endnames cfg' = sv_endnames cfg"
  "client_ends b ck to cfg = Some cfg' \<Longrightarrow> sv_endnames cfg' = sv_endnames cfg"
  by (auto simp: connectUnlocked_def disconnectUnlocked_def client_ends_def Let_def split: bind_splits)

lemma same_names_loops:
  "ConnectAll cfg = Some cfg' \<Longrightarrow> sv_endnames cfg' = sv_endnames cfg"
  "foldo (part_body p q) ps cfg = Some cfg' \<Longrightarrow> sv_endnames cfg' = sv_endnames cfg"
  unfolding ConnectAll_def by (erule foldo_inv; auto simp: part_body_Some same_names)+

lemma same_names_servers:
  "svc_makeClient mk names rnd ck to cfg = Some (cfg', clerk) \<Longrightarrow> sv_endnames cfg' = sv_endnames cfg"
  "svc_partition p1 p2 cfg = Some cfg' \<Longrightarrow> sv_endnames cfg' = sv_endnames cfg"
  "svc_ShutdownServer kill i cfg = Some cfg' \<Longrightarrow> sv_endnames cfg' = sv_endnames cfg"
  by (auto simp: svc_makeClient_def partition_bodies svc_ShutdownServer_def ConnectClientUnlocked_def Let_def same_names
      split: bind_splits if_splits option.splits dest!: same_names(3) same_names_loops(2))

lemma StartServer_names: "svc_StartServer start i names p cfg = Some cfg' \<Longrightarrow>
  \<exists>es. sv_endnames cfg' = (sv_endnames cfg)[i := Some es] \<and> i < length (sv_endnames cfg)"
  by (auto simp: svc_StartServer_def Let_def split: bind_splits if_splits)

lemma kv_make_config_ok:
  assumes "Kv_make_config names srvs n unreliable maxraftstate = Some cfg"
  shows "kv_ok cfg"
proof -
  let ?c0 = "\<lparr>sv_failed = False, sv_net = MakeNetwork, sv_n = n, sv_servers = replicate n None, sv_saved = replicate n None,
       sv_endnames = replicate n None, sv_clerks = Map.empty, sv_nextClientId = int n + 1000, sv_old = [],
       kc_maxraftstate = maxraftstate, kc_rpcs0 = 0, kc_ops = 0\<rparr>"
  from assms obtain c1 c2 where c: "foldo (\<lambda>i. Kv_StartServer i (names i) (srvs i)) [0..<n] ?c0 = Some c1" "ConnectAll c1 = Some c2"
    "cfg = c2 \<lparr>sv_net := Reliable (\<not> unreliable) (sv_net c2)\<rparr>" by (auto simp: Kv_make_config_def Let_def split: bind_splits)
  let ?P = "\<lambda>k (c :: 'a kv_config). sv_ok c \<and> length (sv_endnames c) = n \<and> (\<forall>j<k. sv_endnames c ! j \<noteq> None)"
  have "?P 0 ?c0" by (auto simp: sv_ok_def wired_def endname_of_Some MakeNetwork_def map_get0_def)
  with c(1) have "?P n c1"
  proof (rule foldo_upt)
    fix i s t assume a: "i < n" "?P i s" "Kv_StartServer i (names i) (srvs i) s = Some t"
    from StartServer_names [OF a(3) [unfolded Kv_StartServer_def]] StartServer_ok [OF _ a(3) [unfolded Kv_StartServer_def]] a(1,2)
    show "?P (Suc i) t" by (auto simp: nth_list_update less_Suc_eq)
  qed
  then have c2: "sv_ok c2" "None \<notin> set (sv_endnames c2)" using ConnectAll_ok [OF _ c(2)] same_names_loops(1) [OF c(2)]
    by (auto simp: in_set_conv_nth)
  then obtain link where "wired (endname_of (sv_endnames c2)) link (sv_net c2)" by (auto simp: sv_ok_def)
  then have "wired (endname_of (sv_endnames c2)) link (Reliable (\<not> unreliable) (sv_net c2))"
    by (rule wired_cong) (simp_all add: Reliable_def)
  then show ?thesis using c2 by (auto simp: kv_ok_def c(3) sv_ok_def Reliable_def)
qed

lemma kv_reach_ok: "kv_reach cfg \<Longrightarrow> kv_ok cfg"
proof (induction rule: kv_reach.induct)
  case (start cfg i names p cfg')
  from StartServer_names [OF start(2) [unfolded Kv_StartServer_def]] StartServer_ok [OF _ start(2) [unfolded Kv_StartServer_def]] start(3)
  show ?case by (auto simp: kv_ok_def dest: set_update_subset_insert [THEN subsetD])
next
  case (delete cfg ck)
  then show ?case by (auto simp: kv_ok_def sv_ok_def svc_deleteClient_def)
next
  case (other cfg cfg' ops r f ss rn)
  then obtain link where "wired (endname_of (sv_endnames cfg)) link (sv_net cfg)" by (auto simp: kv_ok_def sv_ok_def)
  then have "wired (endname_of (sv_endnames cfg)) link rn" by (rule wired_cong) (use other in simp_all)
  with other show ?case by (auto simp: kv_ok_def sv_ok_def)
qed (auto simp: kv_ok_def Kv_makeClient_def same_names same_names_loops same_names_servers
    intro: kv_make_config_ok [unfolded kv_ok_def] ShutdownServer_ok connectUnlocked_ok disconnectUnlocked_ok ConnectAll_ok partition_ok
      makeClient_ok client_ends_ok dest: kv_make_config_ok [unfolded kv_ok_def])

text \<open>
  C16. After \<open>partition\<close> with two disjoint lists of servers, a request that one of these servers sends to
  another of them gets there exactly if the two are in the same list and the receiver is running, in
  every configuration a test can get to.
\<close>

theorem partition_isolates:
  assumes "kv_reach cfg" and "svc_partition p1 p2 cfg = Some cfg'" and "set p1 \<inter> set p2 = {}"
    and "i \<in> set p1 \<union> set p2" and "j \<in> set p1 \<union> set p2" and "endname_of (sv_endnames cfg') i j = Some e"
  shows "reach_server (req \<lparr>req_endname := NStr e\<rparr>) (sv_net cfg') \<noteq> None \<longleftrightarrow>
    (i \<in> set p1 \<longleftrightarrow> j \<in> set p1) \<and> sv_servers cfg' ! j \<noteq> None"
proof -
  have ok: "sv_ok cfg" "None \<notin> set (sv_endnames cfg)" using kv_reach_ok [OF assms(1)] by (auto simp: kv_ok_def)
  then obtain link where w: "wired (endname_of (sv_endnames cfg)) link (sv_net cfg)" by (auto simp: sv_ok_def)
  from assms(2) obtain c1 where c1: "foldo (part_body p1 p2) p1 cfg = Some c1" "foldo (part_body p2 p1) p2 c1 = Some cfg'"
    by (auto simp: partition_bodies split: bind_splits)
  from part_loop [OF w c1(1) ok(2) assms(3)] obtain r1 where r1: "c1 = cfg \<lparr>sv_net := r1\<rparr>"
    "wired (endname_of (sv_endnames cfg)) (parted p1 p2 link) r1" by auto
  from part_loop [of c1 "parted p1 p2 link" p2 p1 cfg'] r1 c1(2) ok(2) assms(3) obtain r2 where r2: "cfg' = cfg \<lparr>sv_net := r2\<rparr>"
    "wired (endname_of (sv_endnames cfg)) (parted p2 p1 (parted p1 p2 link)) r2" by (auto simp: Int_commute)
  have "sv_ok cfg'" by (rule partition_ok [OF ok(1) assms(2)])
  moreover have "j < sv_n cfg'" using \<open>sv_ok cfg'\<close> assms(6) by (auto simp: sv_ok_def endname_of_Some)
  ultimately have "map_get0 None (servers (sv_net cfg')) (NInt (int j)) \<noteq> None \<longleftrightarrow> sv_servers cfg' ! j \<noteq> None" by (simp add: sv_ok_def)
  moreover have "parted p2 p1 (parted p1 p2 link) i j \<longleftrightarrow> (i \<in> set p1 \<longleftrightarrow> j \<in> set p1)" using assms(3-5) unfolding parted_def by blast
  ultimately show ?thesis using wired_reach(1) [OF r2(2), of i j e "req \<lparr>req_endname := NStr e\<rparr>"] assms(6) r2(1) by simp
qed

text \<open>Three servers, for the witnesses.\<close>

definition kv_names :: "nat \<Rightarrow> nat \<Rightarrow> string" where
  "kv_names i j = [char_of (65 + i), char_of (97 + j)]"

definition sample_kv :: "nat kv_config option" where
  "sample_kv = Kv_make_config kv_names (\<lambda>i. i) 3 False (-1)"

definition sample_kv_req :: "netname reqMsg" where
  "sample_kv_req = \<lparr>req_endname = NInt 0, svcMeth = [], argsType = 0, req_args = []\<rparr>"

theorem partition_isolates_witness:
  "\<exists>cfg cfg' :: nat kv_config. kv_reach cfg \<and> svc_partition [1, 2] [0] cfg = Some cfg'
     \<and> reach_server (sample_kv_req \<lparr>req_endname := NStr ''Bc''\<rparr>) (sv_net cfg') \<noteq> None
     \<and> reach_server (sample_kv_req \<lparr>req_endname := NStr ''Ba''\<rparr>) (sv_net cfg') = None"
proof -
  have "case sample_kv of None \<Rightarrow> False | Some cfg \<Rightarrow> (case svc_partition [1, 2] [0] cfg of None \<Rightarrow> False
      | Some cfg' \<Rightarrow> endname_of (sv_endnames cfg') 1 2 = Some ''Bc'' \<and> endname_of (sv_endnames cfg') 1 0 = Some ''Ba''
          \<and> \<not> Option.is_none (sv_servers cfg' ! 2))" by code_simp
  then obtain cfg cfg' where c: "sample_kv = Some cfg" "svc_partition [1, 2] [0] cfg = Some cfg'"
    "endname_of (sv_endnames cfg') 1 2 = Some ''Bc''" "endname_of (sv_endnames cfg') 1 0 = Some ''Ba''" "sv_servers cfg' ! 2 \<noteq> None"
    by (auto simp: Option.is_none_def split: option.splits)
  have r: "kv_reach cfg" using c(1) unfolding sample_kv_def by (rule kv_reach.make)
  have "reach_server (sample_kv_req \<lparr>req_endname := NStr ''Bc''\<rparr>) (sv_net cfg') \<noteq> None"
    using partition_isolates [OF r c(2) _ _ _ c(3), of sample_kv_req] c(5) by simp
  moreover have "reach_server (sample_kv_req \<lparr>req_endname := NStr ''Ba''\<rparr>) (sv_net cfg') = None"
    using partition_isolates [OF r c(2) _ _ _ c(4), of sample_kv_req] by simp
  ultimately show ?thesis using r c(2) by blast
qed

lemma Kv_Leader_from_running:
  assumes "\<forall>i\<in>set is. i < length ss" and "None \<notin> set ss"
  shows "\<exists>b l. Kv_Leader_from is ss = Some (b, l) \<and> (l \<in> set is \<or> l = 0)"
  using assms(1)
proof (induction "is")
  case (Cons i "is")
  then have "ss ! i \<noteq> None" using assms(2) by (metis list.set_intros(1) nth_mem)
  with Cons show ?case by auto
qed auto



end
