(* ===== verification/Shard_Config.thy ===== *)
theory Shard_Config
  imports Lab_Ends Lab_Services
begin

text \<open>
  The test configuration of \<open>shardkv/config.go\<close>: three controllers, three groups of servers, their ends
  on the network, and the clerks. \<open>None\<close> is a panic or \<open>t.Fatal\<close>; random names and the addresses of
  new objects are arguments. The function \<open>make_end\<close> that a server or clerk is given makes a fresh end
  with each call; it is \<open>sk_make_end\<close> on the network, and an argument where it is only stored.
\<close>

section \<open>Configurations\<close>

record ('c, 'e) group =
  g_gid :: int
  g_servers :: "('c, 'e) ShardKV option list"
  g_saved :: "Persister option list"
  g_endnames :: "string list option list"
  g_mendnames :: "string list option list"

text \<open>\<open>sk_old\<close> holds the servers that were killed.\<close>

record ('c, 'e) shard_config =
  sk_failed :: bool
  sk_net :: "netname Network"
  sk_nctrlers :: nat
  sk_ctrlerservers :: "'c ShardCtrler option list"
  sk_mck :: "netname CtrlerClerk option"
  sk_ngroups :: nat
  sk_n :: nat
  sk_groups :: "('c, 'e) group option list"
  sk_clerks :: "nat \<rightharpoonup> string list"
  sk_nextClientId :: int
  sk_maxraftstate :: int
  sk_old :: "('c, 'e) ShardKV list"

text \<open>The numbers in names are never negative.\<close>

definition ctrlername :: "nat \<Rightarrow> string" where
  "ctrlername i = ''ctrler'' @ itoa i"

definition servername :: "int \<Rightarrow> nat \<Rightarrow> string" where
  "servername gid i = ''server-'' @ itoa (nat gid) @ ''-'' @ itoa i"

definition sk_make_end :: "string \<Rightarrow> string \<Rightarrow> netname Network \<Rightarrow> netname Network option" where
  "sk_make_end name sn rn = fresh_end True (name, NStr sn) rn"

text \<open>\<open>cfg.groups[gi]\<close>; a nil group panics when its fields are used.\<close>

definition group_of :: "nat \<Rightarrow> ('c, 'e) shard_config \<Rightarrow> ('c, 'e) group option" where
  "group_of gi cfg = do { gg \<leftarrow> slice_get (sk_groups cfg) (int gi); gg }"

definition set_group :: "nat \<Rightarrow> ('c, 'e) group \<Rightarrow> ('c, 'e) shard_config \<Rightarrow> ('c, 'e) shard_config" where
  "set_group gi gg cfg = cfg \<lparr>sk_groups := (sk_groups cfg)[gi := Some gg]\<rparr>"

definition sk_checkTimeout :: "int \<Rightarrow> ('c, 'e) shard_config \<Rightarrow> ('c, 'e) shard_config option" where
  "sk_checkTimeout elapsed cfg = (if \<not> sk_failed cfg \<and> elapsed > 120000 then None else Some cfg)"

definition checklogs1 :: "('c, 'e) group \<Rightarrow> nat \<Rightarrow> ('c, 'e) shard_config \<Rightarrow> ('c, 'e) shard_config option" where
  "checklogs1 gg i cfg = do {
     ps \<leftarrow> slice_get (g_saved gg) (int i);
     ps \<leftarrow> ps;
     let sz = int (RaftStateSize ps);
     let snap = bytes_len (ReadSnapshot ps);
     if sk_maxraftstate cfg \<ge> 0 \<and> sz > 8 * sk_maxraftstate cfg then None
     else if sk_maxraftstate cfg < 0 \<and> snap > 0 then None
     else Some cfg }"

definition checklogs :: "('c, 'e) shard_config \<Rightarrow> ('c, 'e) shard_config option" where
  "checklogs cfg = foldo (\<lambda>gi cfg. do { gg \<leftarrow> group_of gi cfg; foldo (checklogs1 gg) [0..< sk_n cfg] cfg }) [0..< sk_ngroups cfg] cfg"

section \<open>Clerks\<close>

text \<open>The slice of names has length \<open>cfg.n\<close>, the loop has a turn for each controller.\<close>

definition sk_makeClient :: "(nat \<Rightarrow> string) \<Rightarrow> (string \<Rightarrow> netname) \<Rightarrow> nat \<Rightarrow> ('c, 'e) shard_config
    \<Rightarrow> (('c, 'e) shard_config \<times> netname ShardClerk) option" where
  "sk_makeClient names make_end ck cfg = do {
     (rn, es) \<leftarrow> foldo (\<lambda>j (rn, es). do {
         es \<leftarrow> slice_set es (int j) (names j);
         rn \<leftarrow> fresh_end True (names j, NStr (ctrlername j)) rn;
         Some (rn, es) }) [0..< sk_nctrlers cfg] (sk_net cfg, replicate (sk_n cfg) []);
     let clerk = Shard_MakeClerk (map (\<lambda>j. NStr (names j)) [0..< sk_nctrlers cfg]) make_end;
     Some (cfg \<lparr>sk_net := rn, sk_clerks := (sk_clerks cfg)(ck \<mapsto> es), sk_nextClientId := sk_nextClientId cfg + 1\<rparr>, clerk) }"

text \<open>The code also removes the files that have the names of the ends; there are none.\<close>

definition sk_deleteClient :: "nat \<Rightarrow> ('c, 'e) shard_config \<Rightarrow> ('c, 'e) shard_config" where
  "sk_deleteClient ck cfg = cfg \<lparr>sk_clerks := (sk_clerks cfg)(ck := None)\<rparr>"

definition shardclerk :: "(nat \<Rightarrow> string) \<Rightarrow> ('c, 'e) shard_config \<Rightarrow> (('c, 'e) shard_config \<times> netname CtrlerClerk) option" where
  "shardclerk names cfg = do {
     rn \<leftarrow> MakeEnds True (map (\<lambda>j. (names j, NStr (ctrlername j))) [0..< sk_nctrlers cfg]) (sk_net cfg);
     Some (cfg \<lparr>sk_net := rn\<rparr>, Ctrler_MakeClerk (map (\<lambda>j. NStr (names j)) [0..< sk_nctrlers cfg])) }"

section \<open>Servers\<close>

definition sk_ShutdownServer :: "nat \<Rightarrow> nat \<Rightarrow> ('c, 'e) shard_config \<Rightarrow> ('c, 'e) shard_config option" where
  "sk_ShutdownServer gi i cfg = do {
     gg \<leftarrow> group_of gi cfg;
     rn \<leftarrow> Enable_each False (\<lambda>j. map_option Some (endname_of (g_endnames gg) i j)) [0..<length (g_servers gg)] (sk_net cfg);
     mes \<leftarrow> slice_get (g_mendnames gg) (int i);
     let mes = (case mes of Some mes \<Rightarrow> mes | None \<Rightarrow> []);
     rn \<leftarrow> Enable_each False (\<lambda>j. map_option Some (slice_get mes (int j))) [0..<length mes] rn;
     let rn = DeleteServer (NStr (servername (g_gid gg) i)) rn;
     ps \<leftarrow> slice_get (g_saved gg) (int i);
     let gg = (if ps \<noteq> None then gg \<lparr>g_saved := (g_saved gg)[i := map_option Persister_Copy ps]\<rparr> else gg);
     kv \<leftarrow> slice_get (g_servers gg) (int i);
     let old = (case kv of Some kv \<Rightarrow> [ShardKV_Kill kv] | None \<Rightarrow> []);
     let gg = (if kv \<noteq> None then gg \<lparr>g_servers := (g_servers gg)[i := None]\<rparr> else gg);
     Some ((set_group gi gg cfg) \<lparr>sk_net := rn, sk_old := sk_old cfg @ old\<rparr>) }"

definition sk_ShutdownGroup :: "nat \<Rightarrow> ('c, 'e) shard_config \<Rightarrow> ('c, 'e) shard_config option" where
  "sk_ShutdownGroup gi cfg = foldo (sk_ShutdownServer gi) [0..< sk_n cfg] cfg"

text \<open>\<open>names\<close> and \<open>mnames\<close>: the random names of the ends to the group and to the controllers.\<close>

definition sk_StartServer :: "(string \<Rightarrow> 'e) \<Rightarrow> (nat \<Rightarrow> 'e) \<Rightarrow> nat \<Rightarrow> nat \<Rightarrow> (nat \<Rightarrow> string) \<Rightarrow> (nat \<Rightarrow> string) \<Rightarrow> nat
    \<Rightarrow> ('c, 'e) shard_config \<Rightarrow> ('c, 'e) shard_config option" where
  "sk_StartServer make_end mends gi i names mnames p cfg = do {
     gg \<leftarrow> group_of gi cfg;
     en \<leftarrow> slice_set (g_endnames gg) (int i) (Some (map names [0..< sk_n cfg]));
     rn \<leftarrow> MakeEnds True (map (\<lambda>j. (names j, NStr (servername (g_gid gg) j))) [0..< sk_n cfg]) (sk_net cfg);
     men \<leftarrow> slice_set (g_mendnames gg) (int i) (Some (map mnames [0..< sk_nctrlers cfg]));
     rn \<leftarrow> MakeEnds True (map (\<lambda>j. (mnames j, NStr (ctrlername j))) [0..< sk_nctrlers cfg]) rn;
     ps \<leftarrow> slice_get (g_saved gg) (int i);
     let ps = (case ps of Some ps \<Rightarrow> Persister_Copy ps | None \<Rightarrow> MakePersister);
     let kv = ShardKV_StartServer (sk_n cfg) (int i) ps (sk_maxraftstate cfg) (g_gid gg) (map mends [0..< sk_nctrlers cfg]) make_end;
     ss \<leftarrow> slice_set (g_servers gg) (int i) (Some kv);
     let gg = gg \<lparr>g_endnames := en, g_mendnames := men, g_saved := (g_saved gg)[i := Some ps], g_servers := ss\<rparr>;
     Some ((set_group gi gg cfg) \<lparr>sk_net := AddServer (NStr (servername (g_gid gg) i)) p rn\<rparr>) }"

definition sk_StartGroup :: "(string \<Rightarrow> 'e) \<Rightarrow> (nat \<Rightarrow> 'e) \<Rightarrow> nat \<Rightarrow> (nat \<Rightarrow> nat \<Rightarrow> string) \<Rightarrow> (nat \<Rightarrow> nat \<Rightarrow> string) \<Rightarrow> (nat \<Rightarrow> nat)
    \<Rightarrow> ('c, 'e) shard_config \<Rightarrow> ('c, 'e) shard_config option" where
  "sk_StartGroup make_end mends gi names mnames srvs cfg =
     foldo (\<lambda>i. sk_StartServer make_end mends gi i (names i) (mnames i) (srvs i)) [0..< sk_n cfg] cfg"

definition StartCtrlerserver :: "nat \<Rightarrow> (nat \<Rightarrow> string) \<Rightarrow> nat \<Rightarrow> ('c, 'e) shard_config \<Rightarrow> ('c, 'e) shard_config option" where
  "StartCtrlerserver i names p cfg = do {
     rn \<leftarrow> MakeEnds True (map (\<lambda>j. (names j, NStr (ctrlername j))) [0..< sk_nctrlers cfg]) (sk_net cfg);
     cs \<leftarrow> slice_set (sk_ctrlerservers cfg) (int i) (Some (Ctrler_StartServer (sk_nctrlers cfg) (int i) MakePersister));
     Some (cfg \<lparr>sk_net := AddServer (NStr (ctrlername i)) p rn, sk_ctrlerservers := cs\<rparr>) }"

definition sk_cleanup :: "int \<Rightarrow> ('c, 'e) shard_config \<Rightarrow> ('c, 'e) shard_config option" where
  "sk_cleanup elapsed cfg = do {
     cfg \<leftarrow> foldo sk_ShutdownGroup [0..< sk_ngroups cfg] cfg;
     cs \<leftarrow> foldo (\<lambda>i cs. do { c \<leftarrow> slice_get cs (int i); c \<leftarrow> c; slice_set cs (int i) (Some (Ctrler_Kill c)) })
       [0..< sk_nctrlers cfg] (sk_ctrlerservers cfg);
     rn \<leftarrow> Cleanup (sk_net cfg);
     sk_checkTimeout elapsed (cfg \<lparr>sk_ctrlerservers := cs, sk_net := rn\<rparr>) }"

section \<open>Joining and leaving\<close>

text \<open>For \<open>joinm\<close> and \<open>leavem\<close> the result \<open>None\<close> also stands for a clerk that tries forever.\<close>

definition join_servers :: "nat list \<Rightarrow> ('c, 'e) shard_config \<Rightarrow> (int \<rightharpoonup> string list) option" where
  "join_servers gis cfg = foldo (\<lambda>g m. do {
     gg \<leftarrow> group_of g cfg;
     Some (m(g_gid gg \<mapsto> map (servername (g_gid gg)) [0..< sk_n cfg])) }) gis Map.empty"

definition joinm :: "('w \<Rightarrow> 'w) \<Rightarrow> (netname \<Rightarrow> JoinArgs \<Rightarrow> 'w \<Rightarrow> 'w \<times> CtrlerReply option) \<Rightarrow> nat list \<Rightarrow> ('c, 'e) shard_config \<Rightarrow> 'w \<Rightarrow> 'w option" where
  "joinm sleep call gis cfg w = do { m \<leftarrow> join_servers gis cfg; mck \<leftarrow> sk_mck cfg; Ctrler_Clerk_Join sleep call m mck w }"

definition sk_join :: "('w \<Rightarrow> 'w) \<Rightarrow> (netname \<Rightarrow> JoinArgs \<Rightarrow> 'w \<Rightarrow> 'w \<times> CtrlerReply option) \<Rightarrow> nat \<Rightarrow> ('c, 'e) shard_config \<Rightarrow> 'w \<Rightarrow> 'w option" where
  "sk_join sleep call gi cfg w = joinm sleep call [gi] cfg w"

definition leavem :: "('w \<Rightarrow> 'w) \<Rightarrow> (netname \<Rightarrow> LeaveArgs \<Rightarrow> 'w \<Rightarrow> 'w \<times> CtrlerReply option) \<Rightarrow> nat list \<Rightarrow> ('c, 'e) shard_config \<Rightarrow> 'w \<Rightarrow> 'w option" where
  "leavem sleep call gis cfg w = do {
     gids \<leftarrow> foldo (\<lambda>g gids. do { gg \<leftarrow> group_of g cfg; Some (gids @ [g_gid gg]) }) gis [];
     mck \<leftarrow> sk_mck cfg;
     Ctrler_Clerk_Leave sleep call gids mck w }"

definition sk_leave :: "('w \<Rightarrow> 'w) \<Rightarrow> (netname \<Rightarrow> LeaveArgs \<Rightarrow> 'w \<Rightarrow> 'w \<times> CtrlerReply option) \<Rightarrow> nat \<Rightarrow> ('c, 'e) shard_config \<Rightarrow> 'w \<Rightarrow> 'w option" where
  "sk_leave sleep call gi cfg w = leavem sleep call [gi] cfg w"

section \<open>Making a configuration\<close>

text \<open>
  The random names: \<open>cnames i j\<close> for the controllers, \<open>kname\<close> for the clerk, \<open>names gi i j\<close> and
  \<open>mnames gi i j\<close> for the servers; \<open>csrvs\<close> and \<open>srvs\<close> are the addresses of the \<open>labrpc\<close> servers. The slice
  of names for the controllers has an entry for each controller, not for each server.
\<close>

definition new_group :: "nat \<Rightarrow> nat \<Rightarrow> nat \<Rightarrow> ('c, 'e) group" where
  "new_group gi n nctrlers = \<lparr>g_gid = 100 + int gi, g_servers = replicate n None, g_saved = replicate n None,
     g_endnames = replicate n None, g_mendnames = replicate nctrlers None\<rparr>"

definition make_group :: "(string \<Rightarrow> 'e) \<Rightarrow> (nat \<Rightarrow> 'e) \<Rightarrow> (nat \<Rightarrow> nat \<Rightarrow> nat \<Rightarrow> string) \<Rightarrow> (nat \<Rightarrow> nat \<Rightarrow> nat \<Rightarrow> string) \<Rightarrow> (nat \<Rightarrow> nat \<Rightarrow> nat) \<Rightarrow> nat
    \<Rightarrow> ('c, 'e) shard_config \<Rightarrow> ('c, 'e) shard_config option" where
  "make_group make_end mends names mnames srvs gi cfg =
     foldo (\<lambda>i. sk_StartServer make_end mends gi i (names gi i) (mnames gi i) (srvs gi i)) [0..< sk_n cfg]
       (set_group gi (new_group gi (sk_n cfg) (sk_nctrlers cfg)) cfg)"

definition sk_make_config :: "(string \<Rightarrow> 'e) \<Rightarrow> (nat \<Rightarrow> 'e) \<Rightarrow> (nat \<Rightarrow> nat \<Rightarrow> string) \<Rightarrow> (nat \<Rightarrow> string) \<Rightarrow> (nat \<Rightarrow> nat \<Rightarrow> nat \<Rightarrow> string)
    \<Rightarrow> (nat \<Rightarrow> nat \<Rightarrow> nat \<Rightarrow> string) \<Rightarrow> (nat \<Rightarrow> nat) \<Rightarrow> (nat \<Rightarrow> nat \<Rightarrow> nat) \<Rightarrow> nat \<Rightarrow> bool \<Rightarrow> int \<Rightarrow> ('c, 'e) shard_config option" where
  "sk_make_config make_end mends cnames kname names mnames csrvs srvs n unreliable maxraftstate = do {
     let cfg = \<lparr>sk_failed = False, sk_net = MakeNetwork, sk_nctrlers = 3, sk_ctrlerservers = replicate 3 None, sk_mck = None, sk_ngroups = 0,
       sk_n = 0, sk_groups = [], sk_clerks = Map.empty, sk_nextClientId = 0, sk_maxraftstate = maxraftstate, sk_old = []\<rparr>;
     cfg \<leftarrow> foldo (\<lambda>i. StartCtrlerserver i (cnames i) (csrvs i)) [0..< sk_nctrlers cfg] cfg;
     (cfg, mck) \<leftarrow> shardclerk kname cfg;
     let cfg = cfg \<lparr>sk_mck := Some mck, sk_ngroups := 3, sk_groups := replicate 3 None, sk_n := n\<rparr>;
     cfg \<leftarrow> foldo (make_group make_end mends names mnames srvs) [0..< sk_ngroups cfg] cfg;
     Some (cfg \<lparr>sk_clerks := Map.empty, sk_nextClientId := int (sk_n cfg) + 1000, sk_net := Reliable (\<not> unreliable) (sk_net cfg)\<rparr>) }"

section \<open>Names\<close>

lemma servername_inj: "0 \<le> gid \<Longrightarrow> 0 \<le> gid' \<Longrightarrow> servername gid i = servername gid' i' \<longleftrightarrow> gid = gid' \<and> i = i'"
  using append_sep_eq [of "CHR ''-''" "itoa (nat gid)" "itoa (nat gid')" "itoa i" "itoa i'"] itoa_no_dash
  by (auto simp: servername_def itoa_inj eq_nat_nat_iff)

lemma ctrlername_inj: "ctrlername i = ctrlername j \<longleftrightarrow> i = j"
  by (simp add: ctrlername_def itoa_inj)

lemma server_not_ctrler: "servername gid i \<noteq> ctrlername j"
  by (simp add: servername_def ctrlername_def)

section \<open>What the configurations have in common\<close>

text \<open>\<open>served cfg name\<close>: the network has a server of this name.\<close>

definition served :: "('c, 'e) shard_config \<Rightarrow> string \<Rightarrow> bool" where
  "served cfg name \<longleftrightarrow> map_get0 None (servers (sk_net cfg)) (NStr name) \<noteq> None"

lemma MakeEnds_servers: "MakeEnds b es rn = Some rn' \<Longrightarrow> servers rn' = servers rn"
  by (auto simp: MakeEnds_value add_ends_def)

lemma StartServer_effect:
  assumes "sk_StartServer make_end mends gi i names mnames p cfg = Some cfg'" and "group_of gi cfg = Some gg"
  shows "sk_n cfg' = sk_n cfg \<and> sk_nctrlers cfg' = sk_nctrlers cfg \<and> sk_ngroups cfg' = sk_ngroups cfg \<and> i < length (g_mendnames gg)
    \<and> (\<exists>gg'. sk_groups cfg' = (sk_groups cfg)[gi := Some gg'] \<and> g_gid gg' = g_gid gg \<and> length (g_mendnames gg') = length (g_mendnames gg))
    \<and> (\<forall>name. served cfg' name \<longleftrightarrow> name = servername (g_gid gg) i \<or> served cfg name)"
  using assms
  by (auto simp: sk_StartServer_def set_group_def served_def AddServer_def Let_def split: bind_splits if_splits
      dest!: MakeEnds_servers slice_set_length)

definition grp_inv :: "nat \<Rightarrow> nat \<Rightarrow> nat \<Rightarrow> ('c, 'e) shard_config \<Rightarrow> nat \<Rightarrow> ('c, 'e) shard_config \<Rightarrow> bool" where
  "grp_inv n k gi cfg0 i cfg \<longleftrightarrow> sk_n cfg = n \<and> sk_nctrlers cfg = k \<and> sk_ngroups cfg = sk_ngroups cfg0 \<and> i \<le> k
     \<and> length (sk_groups cfg) = length (sk_groups cfg0) \<and> (\<forall>h. h \<noteq> gi \<longrightarrow> sk_groups cfg ! h = sk_groups cfg0 ! h)
     \<and> (\<exists>gg. group_of gi cfg = Some gg \<and> g_gid gg = 100 + int gi \<and> length (g_mendnames gg) = k)
     \<and> (\<forall>name. served cfg name \<longleftrightarrow> (\<exists>j<i. name = servername (100 + int gi) j) \<or> served cfg0 name)"

lemma make_group_inv:
  assumes "make_group make_end mends names mnames srvs gi cfg = Some cfg'" and "gi < length (sk_groups cfg)"
  shows "grp_inv (sk_n cfg) (sk_nctrlers cfg) gi cfg (sk_n cfg) cfg'"
proof -
  let ?n = "sk_n cfg" and ?k = "sk_nctrlers cfg"
  have "grp_inv ?n ?k gi cfg 0 (set_group gi (new_group gi ?n ?k) cfg)"
    using assms(2) by (simp add: grp_inv_def set_group_def group_of_def new_group_def served_def)
  with assms(1) [unfolded make_group_def] show ?thesis
  proof (rule foldo_upt)
    fix i s t assume a: "i < ?n" "grp_inv ?n ?k gi cfg i s" "sk_StartServer make_end mends gi i (names gi i) (mnames gi i) (srvs gi i) s = Some t"
    then obtain gg where gg: "group_of gi s = Some gg" "g_gid gg = 100 + int gi" "length (g_mendnames gg) = ?k" by (auto simp: grp_inv_def)
    from StartServer_effect [OF a(3) gg(1)] gg a(2) assms(2) show "grp_inv ?n ?k gi cfg (Suc i) t"
      by (auto simp: grp_inv_def group_of_def less_Suc_eq)
  qed
qed

definition groups_inv :: "nat \<Rightarrow> nat \<Rightarrow> ('c, 'e) shard_config \<Rightarrow> bool" where
  "groups_inv n k cfg \<longleftrightarrow> sk_n cfg = n \<and> sk_nctrlers cfg = 3 \<and> sk_ngroups cfg = 3 \<and> length (sk_groups cfg) = 3 \<and> (0 < k \<longrightarrow> n \<le> 3)
     \<and> (\<forall>h<k. \<exists>gg. group_of h cfg = Some gg \<and> g_gid gg = 100 + int h \<and> (\<forall>j<n. served cfg (servername (100 + int h) j)))"

lemma make_group_groups:
  assumes "make_group make_end mends names mnames srvs gi cfg = Some cfg'" and "groups_inv n gi cfg" and "gi < 3"
  shows "groups_inv n (Suc gi) cfg'"
proof -
  have "grp_inv n 3 gi cfg n cfg'"
    using make_group_inv [OF assms(1)] assms(2, 3) by (simp add: groups_inv_def)
  with assms(2, 3) show ?thesis
    by (auto simp: groups_inv_def grp_inv_def group_of_def less_Suc_eq slice_get_def)
qed

lemma StartCtrlerserver_keeps: "StartCtrlerserver i names p cfg = Some cfg' \<Longrightarrow> sk_nctrlers cfg' = sk_nctrlers cfg"
  by (auto simp: StartCtrlerserver_def split: bind_splits)

lemma make_config_groups:
  assumes "sk_make_config make_end mends cnames kname names mnames csrvs srvs n unreliable maxraftstate = Some cfg"
  shows "groups_inv n 3 (cfg :: ('c, 'e) shard_config)"
proof -
  define cfg0 :: "('c, 'e) shard_config" where "cfg0 = \<lparr>sk_failed = False, sk_net = MakeNetwork, sk_nctrlers = 3,
    sk_ctrlerservers = replicate 3 None, sk_mck = None, sk_ngroups = 0, sk_n = 0, sk_groups = [], sk_clerks = Map.empty,
    sk_nextClientId = 0, sk_maxraftstate = maxraftstate, sk_old = []\<rparr>"
  then have c0: "sk_nctrlers cfg0 = 3" by simp
  from assms obtain cfg1 cfg2 mck cfg3
    where c1: "foldo (\<lambda>i. StartCtrlerserver i (cnames i) (csrvs i)) [0..<3] cfg0 = Some cfg1"
    and c2: "shardclerk kname cfg1 = Some (cfg2, mck)"
    and c3: "foldo (make_group make_end mends names mnames srvs) [0..<3] (cfg2 \<lparr>sk_mck := Some mck, sk_ngroups := 3, sk_groups := replicate 3 None, sk_n := n\<rparr>) = Some cfg3"
    and c: "cfg = cfg3 \<lparr>sk_clerks := Map.empty, sk_nextClientId := int (sk_n cfg3) + 1000, sk_net := Reliable (\<not> unreliable) (sk_net cfg3)\<rparr>"
    by (auto simp: sk_make_config_def cfg0_def split: bind_splits)
  from c1 c0 have "sk_nctrlers cfg1 = 3"
    by (rule foldo_upt [where P = "\<lambda>_ cfg. sk_nctrlers cfg = 3"]) (simp add: StartCtrlerserver_keeps)
  with c2 have "sk_nctrlers cfg2 = 3" by (auto simp: shardclerk_def split: bind_splits)
  then have "groups_inv n 0 (cfg2 \<lparr>sk_mck := Some mck, sk_ngroups := 3, sk_groups := replicate 3 None, sk_n := n\<rparr>)"
    by (simp add: groups_inv_def)
  with c3 have "groups_inv n 3 cfg3" by (rule foldo_upt) (rule make_group_groups)
  then show ?thesis by (auto simp: c groups_inv_def group_of_def served_def Reliable_def)
qed

section \<open>Properties\<close>

text \<open>A concrete configuration: the names of all ends differ.\<close>

definition sample_names :: "char \<Rightarrow> nat \<Rightarrow> nat \<Rightarrow> nat \<Rightarrow> string" where
  "sample_names c a b d = [c] @ itoa a @ ''.'' @ itoa b @ ''.'' @ itoa d"

definition sample_shard_config :: "(unit, unit) shard_config option" where
  "sample_shard_config = sk_make_config (\<lambda>_. ()) (\<lambda>_. ()) (sample_names (CHR ''c'') 0) (sample_names (CHR ''k'') 0 0)
     (sample_names (CHR ''s'')) (sample_names (CHR ''m'')) id (\<lambda>gi i. 3 + 3 * gi + i) 3 False 1000"

lemma makeClient_names:
  assumes "sk_makeClient names make_end ck cfg \<noteq> None"
  shows "sk_nctrlers cfg \<le> sk_n cfg"
proof -
  obtain r where "foldo (\<lambda>j (rn, es). do { es \<leftarrow> slice_set es (int j) (names j); rn \<leftarrow> fresh_end True (names j, NStr (ctrlername j)) rn; Some (rn, es) })
    [0..< sk_nctrlers cfg] (sk_net cfg, replicate (sk_n cfg) []) = Some r"
    using assms by (force simp: sk_makeClient_def split: bind_splits)
  then have "length (snd r) = sk_n cfg \<and> sk_nctrlers cfg \<le> sk_n cfg"
    by (rule foldo_upt [where P = "\<lambda>j r. length (snd r) = sk_n cfg \<and> j \<le> sk_n cfg"])
      (auto split: bind_splits if_splits)
  then show ?thesis ..
qed

text \<open>
  C30. A configuration can be made, and a clerk for it, only with three servers in a group: more servers run past the
  slice of names for the controllers, with fewer the clerk's slice of names is too short.
\<close>
theorem shard_config_only_three:
  assumes "sk_make_config make_end mends cnames kname names mnames csrvs srvs n unreliable maxraftstate = Some cfg"
    and "sk_makeClient cknames ck_end ck cfg \<noteq> None"
  shows "n = 3"
proof -
  have g: "groups_inv n 3 cfg" using assms(1) by (rule make_config_groups)
  moreover have "sk_nctrlers cfg \<le> sk_n cfg" using assms(2) by (rule makeClient_names)
  ultimately show ?thesis by (simp add: groups_inv_def)
qed

lemma sample_shard_config_made: "sample_shard_config \<noteq> None"
  by code_simp

lemma sample_client_made:
  "(case sample_shard_config of Some cfg \<Rightarrow> sk_makeClient (sample_names (CHR ''x'') 0 0) NStr 0 cfg \<noteq> None | None \<Rightarrow> False)"
  by code_simp

text \<open>The configuration of the tests.\<close>
theorem shard_config_only_three_witness: "\<exists>n. n = (3 :: nat) \<and> sample_shard_config \<noteq> None"
proof -
  obtain cfg where "sample_shard_config = Some cfg" "sk_makeClient (sample_names (CHR ''x'') 0 0) NStr 0 cfg \<noteq> None"
    using sample_client_made by (auto split: option.splits)
  from shard_config_only_three [OF this(1) [unfolded sample_shard_config_def] this(2)] sample_shard_config_made
  show ?thesis by blast
qed

lemma join_servers_value:
  assumes "groups_inv n 3 cfg" and "set gis \<subseteq> {0..<3}"
  shows "foldo (\<lambda>g m. do { gg \<leftarrow> group_of g cfg; Some (m(g_gid gg \<mapsto> map (servername (g_gid gg)) [0..< sk_n cfg])) }) gis m0
    = Some (\<lambda>gid. if gid \<in> (\<lambda>g. 100 + int g) ` set gis then Some (map (servername gid) [0..<n]) else m0 gid)"
  using assms(2)
proof (induction gis arbitrary: m0)
  case (Cons g gis)
  from Cons.prems have "g < 3" by simp
  with assms(1) obtain gg where "group_of g cfg = Some gg" "g_gid gg = 100 + int g" "sk_n cfg = n" by (auto simp: groups_inv_def)
  with Cons show ?case by auto
qed simp

text \<open>
  What a test tells the controllers in \<open>join\<close> is true of the network: for any of the groups, the names are there,
  one for each server, and each is the name of a server that was added to the network; the name of a server is the
  name of no other server and of no controller.
\<close>
theorem join_names_served:
  assumes "sk_make_config make_end mends cnames kname names mnames csrvs srvs n unreliable maxraftstate = Some cfg"
    and "set gis \<subseteq> {0..<3}"
  shows "\<exists>m. join_servers gis cfg = Some m \<and> dom m = (\<lambda>g. 100 + int g) ` set gis \<and>
    (\<forall>gid ns. m gid = Some ns \<longrightarrow> length ns = n \<and> distinct ns \<and> list_all (served cfg) ns \<and> set ns \<inter> range ctrlername = {} \<and>
      (\<forall>gid' ns'. m gid' = Some ns' \<and> gid' \<noteq> gid \<longrightarrow> set ns \<inter> set ns' = {}))"
proof -
  have g: "groups_inv n 3 cfg" using assms(1) by (rule make_config_groups)
  then have "list_all (served cfg) (map (servername (100 + int h)) [0..<n])" if "h < 3" for h
    using that by (auto simp: groups_inv_def list_all_iff)
  moreover have "h < 3" if "h \<in> set gis" for h using assms(2) that by auto
  ultimately show ?thesis
    using join_servers_value [OF g assms(2), of Map.empty]
    by (auto simp: join_servers_def dom_def distinct_map inj_on_def servername_inj server_not_ctrler split: if_splits)
qed

text \<open>Groups 0 and 2 of the concrete configuration.\<close>
theorem join_names_served_witness:
  "\<exists>cfg m. sample_shard_config = Some cfg \<and> join_servers [0, 2] cfg = Some m \<and> dom m = {100, 102}"
proof -
  obtain cfg where cfg: "sample_shard_config = Some cfg" using sample_shard_config_made by auto
  from join_names_served [OF this [unfolded sample_shard_config_def], of "[0, 2]"] cfg
  show ?thesis by auto
qed

end
