(* ===== verification/Porcupine_Visual.thy ===== *)
theory Porcupine_Visual
  imports Kv_Model
begin

text \<open>
  \<open>porcupine/visualization.go\<close>: the data of the page that shows a checked history. The result is
  \<open>None\<close> when the code panics, which it does on purpose when a reported partial linearization is
  refused by the model. The code sorts the partial linearizations in place, so the information it was
  given is returned with the data; the sorting function is an argument. \<open>nilv\<close> is the nil interface
  value, what a map returns for an absent key.

  The theorem composes the checker with this code: on what \<open>CheckOperationsVerbose\<close> reports it never
  panics, and what it shows is right.
\<close>

section \<open>The data of the page\<close>

record historyElement =
  he_ClientId :: int
  he_Start :: int
  he_End :: int
  he_Description :: string

record linearizationStep =
  ls_Index :: int
  ls_StateDescription :: string

type_synonym partialLinearization = "linearizationStep list"

record partitionVisualizationData =
  pv_History :: "historyElement list"
  pv_PartialLinearizations :: "partialLinearization list"
  pv_Largest :: "int \<rightharpoonup> int"

type_synonym visualizationData = "partitionVisualizationData list"

text \<open>One turn of the loop over the entries.\<close>

definition vis_entry ::
  "('v \<Rightarrow> 'v \<Rightarrow> string option) \<Rightarrow> 'v \<Rightarrow> 'v entry \<Rightarrow> historyElement list \<times> (int \<rightharpoonup> 'v) \<times> (int \<rightharpoonup> 'v)
     \<Rightarrow> (historyElement list \<times> (int \<rightharpoonup> 'v) \<times> (int \<rightharpoonup> 'v)) option" where
  "vis_entry describe nilv elem = (\<lambda>(history, callValue, returnValue).
     case ent_kind elem of
       callEntry \<Rightarrow> do {
         h \<leftarrow> slice_get history (ent_id elem);
         history \<leftarrow> slice_set history (ent_id elem) (h\<lparr>he_ClientId := ent_clientId elem, he_Start := ent_time elem\<rparr>);
         Some (history, callValue(ent_id elem \<mapsto> ent_value elem), returnValue) }
     | returnEntry \<Rightarrow> do {
         h \<leftarrow> slice_get history (ent_id elem);
         d \<leftarrow> describe (map_get0 nilv callValue (ent_id elem)) (ent_value elem);
         history \<leftarrow> slice_set history (ent_id elem) (h\<lparr>he_End := ent_time elem, he_Description := d\<rparr>);
         Some (history, callValue, returnValue(ent_id elem \<mapsto> ent_value elem)) })"

definition vis_history ::
  "('v \<Rightarrow> 'v \<Rightarrow> string option) \<Rightarrow> 'v \<Rightarrow> 'v entry list \<Rightarrow> (historyElement list \<times> (int \<rightharpoonup> 'v) \<times> (int \<rightharpoonup> 'v)) option" where
  "vis_history describe nilv es = foldo (vis_entry describe nilv) es
     (replicate (length es div 2) \<lparr>he_ClientId = 0, he_Start = 0, he_End = 0, he_Description = []\<rparr>, Map.empty, Map.empty)"

text \<open>One turn of the inner loop: step the model, and remember the partial linearization \<open>i\<close> if it is the largest so far.\<close>

definition vis_step ::
  "('s \<Rightarrow> 'v \<Rightarrow> 'v \<Rightarrow> (bool \<times> 's) option) \<Rightarrow> ('s \<Rightarrow> string) \<Rightarrow> (int \<Rightarrow> 'v \<times> 'v) \<Rightarrow> nat \<Rightarrow> nat \<Rightarrow> int
     \<Rightarrow> 's \<times> partialLinearization \<times> (int \<rightharpoonup> int) \<times> (int \<rightharpoonup> int) \<Rightarrow> ('s \<times> partialLinearization \<times> (int \<rightharpoonup> int) \<times> (int \<rightharpoonup> int)) option" where
  "vis_step step describe io i len histId = (\<lambda>(state, linearization, largestSize, largestIndex). do {
     (ok, state) \<leftarrow> step state (fst (io histId)) (snd (io histId));
     if \<not> ok then None
     else do {
       let linearization = linearization @ [\<lparr>ls_Index = histId, ls_StateDescription = describe state\<rparr>];
       if map_get0 0 largestSize histId < int len
       then Some (state, linearization, largestSize(histId \<mapsto> int len), largestIndex(histId \<mapsto> int i))
       else Some (state, linearization, largestSize, largestIndex) } })"

definition vis_partial ::
  "('s \<Rightarrow> 'v \<Rightarrow> 'v \<Rightarrow> (bool \<times> 's) option) \<Rightarrow> 's \<Rightarrow> ('s \<Rightarrow> string) \<Rightarrow> (int \<Rightarrow> 'v \<times> 'v) \<Rightarrow> nat \<times> int list
     \<Rightarrow> partialLinearization list \<times> (int \<rightharpoonup> int) \<times> (int \<rightharpoonup> int) \<Rightarrow> (partialLinearization list \<times> (int \<rightharpoonup> int) \<times> (int \<rightharpoonup> int)) option" where
  "vis_partial step init describe io = (\<lambda>(i, partial) (linearizations, largestSize, largestIndex). do {
     (_, linearization, largestSize, largestIndex) \<leftarrow>
       foldo (vis_step step describe io i (length partial)) partial (init, [], largestSize, largestIndex);
     Some (linearizations @ [linearization], largestSize, largestIndex) })"

text \<open>One partition: its data, and its partial linearizations as the code leaves them.\<close>

definition vis_partition ::
  "(int list list \<Rightarrow> int list list) \<Rightarrow> 'v \<Rightarrow> ('s, 'v) Model \<Rightarrow> 'v entry list \<Rightarrow> int list list
     \<Rightarrow> (partitionVisualizationData \<times> int list list) option" where
  "vis_partition srt nilv model es partials = do {
     describeOp \<leftarrow> DescribeOperation model;
     describeSt \<leftarrow> DescribeState model;
     (history, callValue, returnValue) \<leftarrow> vis_history describeOp nilv es;
     let partials = srt partials;
     (linearizations, _, largestIndex) \<leftarrow>
       foldo (vis_partial (Step model) (Init model) describeSt (\<lambda>i. (map_get0 nilv callValue i, map_get0 nilv returnValue i)))
         (enumerate 0 partials) ([], Map.empty, Map.empty);
     Some (\<lparr>pv_History = history, pv_PartialLinearizations = linearizations, pv_Largest = largestIndex\<rparr>, partials) }"

definition computeVisualizationData ::
  "('v \<Rightarrow> string) \<Rightarrow> ('s \<Rightarrow> string) \<Rightarrow> (int list list \<Rightarrow> int list list) \<Rightarrow> 'v \<Rightarrow> ('s, 'v) Model \<Rightarrow> 'v linearizationInfo
     \<Rightarrow> (visualizationData \<times> 'v linearizationInfo) option" where
  "computeVisualizationData fmtv fmts srt nilv model info = do {
     let model = fillDefault fmtv fmts model;
     (data, parts) \<leftarrow> foldo (\<lambda>partition (data, parts). do {
         es \<leftarrow> slice_get (li_history info) (int partition);
         partials \<leftarrow> slice_get parts (int partition);
         (d, partials) \<leftarrow> vis_partition srt nilv model es partials;
         parts \<leftarrow> slice_set parts (int partition) partials;
         Some (data @ [d], parts) }) [0..<length (li_history info)] ([], li_partialLinearizations info);
     Some (data, info\<lparr>li_partialLinearizations := parts\<rparr>) }"

text \<open>
  \<open>marshal\<close> is \<open>json.Marshal\<close>; \<open>write\<close> prints the page with the encoded data into the writer, which
  is an argument of the code too; \<open>create\<close> and \<open>close\<close> are the file system. An error is \<open>Some\<close>.
\<close>

definition Visualize ::
  "(visualizationData \<Rightarrow> 'err + string) \<Rightarrow> (string \<Rightarrow> 'w \<Rightarrow> 'w \<times> 'err option) \<Rightarrow> ('v \<Rightarrow> string) \<Rightarrow> ('s \<Rightarrow> string)
     \<Rightarrow> (int list list \<Rightarrow> int list list) \<Rightarrow> 'v \<Rightarrow> ('s, 'v) Model \<Rightarrow> 'v linearizationInfo \<Rightarrow> 'w
     \<Rightarrow> ('w \<times> 'err option \<times> 'v linearizationInfo) option" where
  "Visualize marshal write fmtv fmts srt nilv model info output = do {
     (data, info) \<leftarrow> computeVisualizationData fmtv fmts srt nilv model info;
     case marshal data of
       Inl err \<Rightarrow> Some (output, Some err, info)
     | Inr jsonData \<Rightarrow> (case write jsonData output of (output, err) \<Rightarrow> Some (output, err, info)) }"

definition VisualizePath ::
  "(string \<Rightarrow> 'w \<Rightarrow> 'err + 'w) \<Rightarrow> ('w \<Rightarrow> 'w) \<Rightarrow> (visualizationData \<Rightarrow> 'err + string) \<Rightarrow> (string \<Rightarrow> 'w \<Rightarrow> 'w \<times> 'err option)
     \<Rightarrow> ('v \<Rightarrow> string) \<Rightarrow> ('s \<Rightarrow> string) \<Rightarrow> (int list list \<Rightarrow> int list list) \<Rightarrow> 'v \<Rightarrow> ('s, 'v) Model \<Rightarrow> 'v linearizationInfo
     \<Rightarrow> string \<Rightarrow> 'w \<Rightarrow> ('w \<times> 'err option \<times> 'v linearizationInfo) option" where
  "VisualizePath create close marshal write fmtv fmts srt nilv model info path w =
     (case create path w of
        Inl err \<Rightarrow> Some (w, Some err, info)
      | Inr w \<Rightarrow> do {
          (w, err, info) \<leftarrow> Visualize marshal write fmtv fmts srt nilv model info w;
          Some (close w, err, info) })"

section \<open>What the page should show\<close>

text \<open>
  The history shows for each operation its client, its times and its description. Every step of a
  partial linearization shows the state the model has after it. \<open>Largest\<close> gives for an operation the
  first partial linearization that contains it, and no other that contains it is longer.
\<close>

definition history_shown ::
  "('v \<Rightarrow> 'v \<Rightarrow> string option) \<Rightarrow> 'v entry list \<Rightarrow> nat \<Rightarrow> historyElement list \<Rightarrow> bool" where
  "history_shown describe es n history \<longleftrightarrow> length history = n \<and> (\<forall>i<n. \<exists>c\<in>set es. \<exists>r\<in>set es.
     key c = (callEntry, int i) \<and> key r = (returnEntry, int i) \<and> he_ClientId (history ! i) = ent_clientId c
     \<and> he_Start (history ! i) = ent_time c \<and> he_End (history ! i) = ent_time r
     \<and> describe (ent_value c) (ent_value r) = Some (he_Description (history ! i)))"

definition steps_shown ::
  "('s \<Rightarrow> 'v \<Rightarrow> 'v \<Rightarrow> (bool \<times> 's) option) \<Rightarrow> 's \<Rightarrow> ('s \<Rightarrow> string) \<Rightarrow> (int \<Rightarrow> 'v \<times> 'v) \<Rightarrow> int list \<Rightarrow> partialLinearization \<Rightarrow> bool" where
  "steps_shown step s describe io \<sigma> l \<longleftrightarrow> map ls_Index l = \<sigma> \<and> (\<forall>j<length \<sigma>.
     map_option describe (run_steps step s (map io (take (Suc j) \<sigma>))) = Some (ls_StateDescription (l ! j)))"

definition largest_shown :: "int list list \<Rightarrow> (int \<rightharpoonup> int) \<Rightarrow> bool" where
  "largest_shown ps largest \<longleftrightarrow> (\<forall>x. largest x =
     (if \<exists>\<sigma>\<in>set ps. x \<in> set \<sigma> then Some (int (length (takeWhile (\<lambda>\<sigma>. x \<notin> set \<sigma>) ps))) else None))
     \<and> (\<forall>x i \<sigma>. largest x = Some i \<longrightarrow> \<sigma> \<in> set ps \<longrightarrow> x \<in> set \<sigma> \<longrightarrow> length \<sigma> \<le> length (ps ! nat i))"

section \<open>Entries and values\<close>

lemma foldo_prefix:
  assumes "P [] s" and "\<And>us x vs s. xs = us @ x # vs \<Longrightarrow> P us s \<Longrightarrow> \<exists>t. f x s = Some t \<and> P (us @ [x]) t"
  shows "\<exists>t. foldo f xs s = Some t \<and> P xs t"
proof -
  have "xs = us @ vs \<Longrightarrow> P us s \<Longrightarrow> \<exists>t. foldo f vs s = Some t \<and> P xs t" for us vs s
  proof (induction vs arbitrary: us s)
    case (Cons x vs)
    from assms(2) [OF Cons.prems] obtain t where "f x s = Some t" "P (us @ [x]) t" by blast
    with Cons.IH [of "us @ [x]" t] Cons.prems(1) show ?case by simp
  qed simp
  from this [of "[]"] assms(1) show ?thesis by simp
qed

text \<open>What the loop over the entries has recorded of an entry.\<close>

definition entry_seen ::
  "('v \<Rightarrow> 'v \<Rightarrow> string option) \<Rightarrow> 'v entry set \<Rightarrow> historyElement list \<Rightarrow> (int \<rightharpoonup> 'v) \<Rightarrow> (int \<rightharpoonup> 'v) \<Rightarrow> 'v entry \<Rightarrow> bool" where
  "entry_seen describe us history cv rv e \<longleftrightarrow> (case ent_kind e of
     callEntry \<Rightarrow> cv (ent_id e) = Some (ent_value e) \<and> he_ClientId (history ! nat (ent_id e)) = ent_clientId e
       \<and> he_Start (history ! nat (ent_id e)) = ent_time e
   | returnEntry \<Rightarrow> rv (ent_id e) = Some (ent_value e) \<and> he_End (history ! nat (ent_id e)) = ent_time e
       \<and> (\<exists>c\<in>us. key c = (callEntry, ent_id e) \<and> describe (ent_value c) (ent_value e) = Some (he_Description (history ! nat (ent_id e)))))"

definition entries_seen ::
  "('v \<Rightarrow> 'v \<Rightarrow> string option) \<Rightarrow> nat \<Rightarrow> 'v entry list \<Rightarrow> historyElement list \<times> (int \<rightharpoonup> 'v) \<times> (int \<rightharpoonup> 'v) \<Rightarrow> bool" where
  "entries_seen describe n us = (\<lambda>(history, cv, rv). length history = n \<and> (\<forall>e\<in>set us. entry_seen describe (set us) history cv rv e))"

lemma entry_seen_mono: "entry_seen describe us history cv rv e \<Longrightarrow> us \<subseteq> us' \<Longrightarrow> entry_seen describe us' history cv rv e"
  by (auto simp: entry_seen_def split: entryKind.splits)

lemma entry_seen_call:
  assumes "entry_seen describe us history cv rv f" and "key f \<noteq> (callEntry, i)" and "0 \<le> ent_id f" and "0 \<le> i" and "nat i < length history"
  shows "entry_seen describe us (history[nat i := (history ! nat i)\<lparr>he_ClientId := a, he_Start := t\<rparr>]) (cv(i \<mapsto> v)) rv f"
  using assms by (auto simp: entry_seen_def nth_list_update split: entryKind.splits)

lemma entry_seen_return:
  assumes "entry_seen describe us history cv rv f" and "key f \<noteq> (returnEntry, i)" and "0 \<le> ent_id f" and "0 \<le> i" and "nat i < length history"
  shows "entry_seen describe us (history[nat i := (history ! nat i)\<lparr>he_End := t, he_Description := d\<rparr>]) cv (rv(i \<mapsto> v)) f"
  using assms by (auto simp: entry_seen_def nth_list_update split: entryKind.splits)

lemma vis_entry_seen:
  assumes wf: "wf_history es n" and vals: "vals_ok in_ok out_ok es" and es: "es = us @ e # vs" and seen: "entries_seen describe n us st"
    and desc: "\<And>i v. in_ok i \<Longrightarrow> out_ok v \<Longrightarrow> describe i v \<noteq> None"
  shows "\<exists>st'. vis_entry describe nilv e st = Some st' \<and> entries_seen describe n (us @ [e]) st'"
proof -
  obtain history cv rv where st: "st = (history, cv, rv)" by (cases st)
  have e: "e \<in> set es" "0 \<le> ent_id e" "nat (ent_id e) < length history" "length history = n"
    using wf_id_range [OF wf, of e] es seen by (auto simp: st entries_seen_def)
  have old: "entry_seen describe (set (us @ [e])) history cv rv f" "key f \<noteq> key e" "0 \<le> ent_id f" if "f \<in> set us" for f
    using that es wf_id_range [OF wf, of f] wf_key_inj [OF wf, of f e] wf_distinct [OF wf] seen
    by (auto simp: st entries_seen_def intro: entry_seen_mono)
  show ?thesis
  proof (cases "ent_kind e")
    case callEntry
    then have "vis_entry describe nilv e st = Some (history[nat (ent_id e) := (history ! nat (ent_id e))\<lparr>he_ClientId := ent_clientId e, he_Start := ent_time e\<rparr>],
        cv(ent_id e \<mapsto> ent_value e), rv)" using e by (simp add: st vis_entry_def slice_get_def slice_set_def)
    moreover have "entry_seen describe (set (us @ [e])) (history[nat (ent_id e) := (history ! nat (ent_id e))\<lparr>he_ClientId := ent_clientId e, he_Start := ent_time e\<rparr>])
        (cv(ent_id e \<mapsto> ent_value e)) rv f" if "f \<in> set (us @ [e])" for f
      using that callEntry e entry_seen_call [OF old(1) _ old(3) e(2,3)] old(2) by (auto simp: entry_seen_def [of _ _ _ _ _ e])
    ultimately show ?thesis using e(4) by (simp add: entries_seen_def del: set_append)
  next
    case returnEntry
    with calls_first_split [of "{}" us e vs] wf_calls_first [OF wf] es obtain c where c: "c \<in> set us" "key c = (callEntry, ent_id e)" by auto
    with old(1) [OF c(1)] have cv: "cv (ent_id e) = Some (ent_value c)" by (simp add: entry_seen_def)
    have "in_ok (ent_value c)" "out_ok (ent_value e)" using vals c es e(1) returnEntry by (auto simp: vals_ok_def)
    from desc [OF this] obtain d where d: "describe (ent_value c) (ent_value e) = Some d" by blast
    with returnEntry cv have "vis_entry describe nilv e st = Some (history[nat (ent_id e) := (history ! nat (ent_id e))\<lparr>he_End := ent_time e, he_Description := d\<rparr>],
        cv, rv(ent_id e \<mapsto> ent_value e))" using e by (simp add: st vis_entry_def slice_get_def slice_set_def map_get0_def)
    moreover have "entry_seen describe (set (us @ [e])) (history[nat (ent_id e) := (history ! nat (ent_id e))\<lparr>he_End := ent_time e, he_Description := d\<rparr>])
        cv (rv(ent_id e \<mapsto> ent_value e)) f" if "f \<in> set (us @ [e])" for f
      using that returnEntry e c d entry_seen_return [OF old(1) _ old(3) e(2,3)] old(2) by (auto simp: entry_seen_def [of _ _ _ _ _ e])
    ultimately show ?thesis using e(4) by (simp add: entries_seen_def del: set_append)
  qed
qed

lemma vis_history_shown:
  assumes wf: "wf_history es n" and vals: "vals_ok in_ok out_ok es"
    and desc: "\<And>i v. in_ok i \<Longrightarrow> out_ok v \<Longrightarrow> describe i v \<noteq> None"
  shows "\<exists>history cv rv. vis_history describe nilv es = Some (history, cv, rv) \<and> history_shown describe es n history
    \<and> (\<forall>i\<in>ent_id ` set es. (map_get0 nilv cv i, map_get0 nilv rv i) = io_at es i)"
proof -
  let ?s0 = "(replicate (length es div 2) \<lparr>he_ClientId = 0, he_Start = 0, he_End = 0, he_Description = []\<rparr>, Map.empty, Map.empty)"
  have "entries_seen describe n [] ?s0" using wf_length [OF wf] by (simp add: entries_seen_def)
  then have "\<exists>st. foldo (vis_entry describe nilv) es ?s0 = Some st \<and> entries_seen describe n es st"
    by (rule foldo_prefix) (rule vis_entry_seen [OF wf vals _ _ desc])
  then obtain st where "foldo (vis_entry describe nilv) es ?s0 = Some st" "entries_seen describe n es st" by blast
  then obtain history cv rv where fold: "vis_history describe nilv es = Some (history, cv, rv)" and seen: "entries_seen describe n es (history, cv, rv)"
    by (cases st) (simp add: vis_history_def)
  have ops: "\<exists>c\<in>set es. \<exists>r\<in>set es. key c = (callEntry, i) \<and> key r = (returnEntry, i) \<and> entry_seen describe (set es) history cv rv c
      \<and> entry_seen describe (set es) history cv rv r" if i: "0 \<le> i" "i < int n" for i
    using wf_entry_ex [OF wf i, of callEntry] wf_entry_ex [OF wf i, of returnEntry] seen by (simp add: entries_seen_def)
  have "history_shown describe es n history"
    unfolding history_shown_def
  proof (intro conjI allI impI)
    show "length history = n" using seen by (simp add: entries_seen_def)
    fix i assume "i < n"
    with ops [of "int i"] obtain c r where cr: "c \<in> set es" "r \<in> set es" "key c = (callEntry, int i)" "key r = (returnEntry, int i)"
      "entry_seen describe (set es) history cv rv c" "entry_seen describe (set es) history cv rv r" by auto
    then obtain c' where "c' \<in> set es" "key c' = (callEntry, int i)" "describe (ent_value c') (ent_value r) = Some (he_Description (history ! i))"
      by (auto simp: entry_seen_def)
    moreover from this(1,2) cr(1,3) have "c' = c" by (intro wf_key_inj [OF wf]) auto
    ultimately show "\<exists>c\<in>set es. \<exists>r\<in>set es. key c = (callEntry, int i) \<and> key r = (returnEntry, int i) \<and> he_ClientId (history ! i) = ent_clientId c
       \<and> he_Start (history ! i) = ent_time c \<and> he_End (history ! i) = ent_time r \<and> describe (ent_value c) (ent_value r) = Some (he_Description (history ! i))"
      using cr by (intro bexI [of _ c] bexI [of _ r]) (auto simp: entry_seen_def)
  qed
  moreover have "(map_get0 nilv cv (ent_id e), map_get0 nilv rv (ent_id e)) = io_at es (ent_id e)" if "e \<in> set es" for e
  proof -
    from ops [of "ent_id e"] wf_id_range [OF wf that] obtain c r where cr: "c \<in> set es" "r \<in> set es" "key c = (callEntry, ent_id e)"
      "key r = (returnEntry, ent_id e)" "entry_seen describe (set es) history cv rv c" "entry_seen describe (set es) history cv rv r" by auto
    with wf_value_at [OF wf cr(1)] wf_value_at [OF wf cr(2)] show ?thesis by (simp add: entry_seen_def io_at_def map_get0_def)
  qed
  ultimately show ?thesis using fold by blast
qed

section \<open>Steps and largest linearizations\<close>

lemma vis_steps_shown:
  assumes "run_steps step s (map io \<sigma>) \<noteq> None"
  shows "\<exists>s' l. foldo (vis_step step describe io i len) \<sigma> (s, l0, sizes, largest) = Some (s', l0 @ l,
      (\<lambda>x. if x \<in> set \<sigma> \<and> map_get0 0 sizes x < int len then Some (int len) else sizes x),
      (\<lambda>x. if x \<in> set \<sigma> \<and> map_get0 0 sizes x < int len then Some (int i) else largest x)) \<and> steps_shown step s describe io \<sigma> l"
  using assms
proof (induction \<sigma> arbitrary: s l0 sizes largest)
  case Nil
  show ?case by (simp add: steps_shown_def)
next
  case (Cons x \<sigma>)
  then obtain t where t: "step s (fst (io x)) (snd (io x)) = Some (True, t)" "run_steps step t (map io \<sigma>) \<noteq> None"
    by (cases "io x") (auto split: option.splits bool.splits prod.splits)
  let ?e = "\<lparr>ls_Index = x, ls_StateDescription = describe t\<rparr>"
  define sizes' where "sizes' = (if map_get0 0 sizes x < int len then sizes(x \<mapsto> int len) else sizes)"
  define largest' where "largest' = (if map_get0 0 sizes x < int len then largest(x \<mapsto> int i) else largest)"
  from Cons.IH [OF t(2), of "l0 @ [?e]" sizes' largest'] obtain s' l where
    l: "foldo (vis_step step describe io i len) \<sigma> (t, l0 @ [?e], sizes', largest') = Some (s', (l0 @ [?e]) @ l,
      (\<lambda>x. if x \<in> set \<sigma> \<and> map_get0 0 sizes' x < int len then Some (int len) else sizes' x),
      (\<lambda>x. if x \<in> set \<sigma> \<and> map_get0 0 sizes' x < int len then Some (int i) else largest' x))" "steps_shown step t describe io \<sigma> l" by blast
  have "vis_step step describe io i len x (s, l0, sizes, largest) = Some (t, l0 @ [?e], sizes', largest')"
    by (simp add: vis_step_def t(1) sizes'_def largest'_def)
  moreover have "steps_shown step s describe io (x # \<sigma>) (?e # l)"
    using l(2) t(1) by (cases "io x") (auto simp: steps_shown_def nth_Cons less_Suc_eq_0_disj split: nat.splits)
  moreover have "(\<lambda>y. if y \<in> set \<sigma> \<and> map_get0 0 sizes' y < int len then Some (int len) else sizes' y)
      = (\<lambda>y. if y \<in> set (x # \<sigma>) \<and> map_get0 0 sizes y < int len then Some (int len) else sizes y)"
    "(\<lambda>y. if y \<in> set \<sigma> \<and> map_get0 0 sizes' y < int len then Some (int i) else largest' y)
      = (\<lambda>y. if y \<in> set (x # \<sigma>) \<and> map_get0 0 sizes y < int len then Some (int i) else largest y)"
    by (auto simp: sizes'_def largest'_def fun_eq_iff)
  ultimately show ?case using l(1) by (intro exI [of _ s'] exI [of _ "?e # l"]) simp
qed

definition first_in :: "int list list \<Rightarrow> int \<rightharpoonup> int" where
  "first_in ps x = (if \<exists>\<sigma>\<in>set ps. x \<in> set \<sigma> then Some (int (length (takeWhile (\<lambda>\<sigma>. x \<notin> set \<sigma>) ps))) else None)"

definition size_in :: "int list list \<Rightarrow> int \<rightharpoonup> int" where
  "size_in ps x = map_option (\<lambda>i. int (length (ps ! nat i))) (first_in ps x)"

lemma takeWhile_stops: "\<exists>x\<in>set xs. \<not> P x \<Longrightarrow> length (takeWhile P xs) < length xs"
  by (induction xs) auto

lemma first_in_Some:
  assumes "first_in ps x = Some i"
  shows "0 \<le> i \<and> nat i < length ps \<and> x \<in> set (ps ! nat i)"
  using assms nth_length_takeWhile [of "\<lambda>\<sigma>. x \<notin> set \<sigma>" ps] takeWhile_stops [of ps "\<lambda>\<sigma>. x \<notin> set \<sigma>"]
  by (auto simp: first_in_def split: if_splits)

lemma first_in_snoc:
  "first_in (ps @ [\<sigma>]) x = (case first_in ps x of Some i \<Rightarrow> Some i | None \<Rightarrow> if x \<in> set \<sigma> then Some (int (length ps)) else None)"
  by (auto simp: first_in_def takeWhile_append)

lemma size_in_snoc:
  "size_in (ps @ [\<sigma>]) x = (case size_in ps x of Some i \<Rightarrow> Some i | None \<Rightarrow> if x \<in> set \<sigma> then Some (int (length \<sigma>)) else None)"
  using first_in_Some [of ps x] by (auto simp: size_in_def first_in_snoc nth_append split: option.splits)

lemma size_in_None: "size_in ps x = None \<longleftrightarrow> first_in ps x = None"
  by (simp add: size_in_def)

lemma size_in_le:
  assumes "sorted_wrt (\<lambda>a b. length b \<le> length a) (ps @ [\<sigma>])" and "x \<in> set \<sigma>"
  shows "map_get0 0 (size_in ps) x < int (length \<sigma>) \<longleftrightarrow> first_in ps x = None"
proof (cases "first_in ps x")
  case None
  with assms(2) show ?thesis by (auto simp: size_in_def map_get0_def)
next
  case (Some i)
  with first_in_Some [OF this] assms(1) have "length \<sigma> \<le> length (ps ! nat i)" by (simp add: sorted_wrt_append)
  with Some show ?thesis by (simp add: size_in_def map_get0_def)
qed

lemma vis_partials_shown:
  assumes "sorted_wrt (\<lambda>a b. length b \<le> length a) (us @ vs)" and "\<forall>\<sigma>\<in>set vs. run_steps step s (map io \<sigma>) \<noteq> None"
    and "list_all2 (steps_shown step s describe io) us ls"
  shows "\<exists>ls'. foldo (vis_partial step s describe io) (enumerate (length us) vs) (ls, size_in us, first_in us)
      = Some (ls', size_in (us @ vs), first_in (us @ vs)) \<and> list_all2 (steps_shown step s describe io) (us @ vs) ls'"
  using assms
proof (induction vs arbitrary: us ls)
  case (Cons \<sigma> vs)
  have sorted: "sorted_wrt (\<lambda>a b. length b \<le> length a) (us @ [\<sigma>])" using Cons.prems(1) by (simp add: sorted_wrt_append)
  obtain t l where l: "foldo (vis_step step describe io (length us) (length \<sigma>)) \<sigma> (s, [], size_in us, first_in us) = Some (t, [] @ l,
      (\<lambda>x. if x \<in> set \<sigma> \<and> map_get0 0 (size_in us) x < int (length \<sigma>) then Some (int (length \<sigma>)) else size_in us x),
      (\<lambda>x. if x \<in> set \<sigma> \<and> map_get0 0 (size_in us) x < int (length \<sigma>) then Some (int (length us)) else first_in us x))"
    "steps_shown step s describe io \<sigma> l"
    using vis_steps_shown [of step s io \<sigma> describe "length us" "length \<sigma>" "[]" "size_in us" "first_in us"] Cons.prems(2) by auto
  have "(\<lambda>x. if x \<in> set \<sigma> \<and> map_get0 0 (size_in us) x < int (length \<sigma>) then Some (int (length \<sigma>)) else size_in us x) = size_in (us @ [\<sigma>])"
    "(\<lambda>x. if x \<in> set \<sigma> \<and> map_get0 0 (size_in us) x < int (length \<sigma>) then Some (int (length us)) else first_in us x) = first_in (us @ [\<sigma>])"
    using size_in_le [OF sorted] by (auto simp: fun_eq_iff first_in_snoc size_in_snoc split: option.splits dest: size_in_None [THEN iffD1] size_in_None [THEN iffD2])
  with l(1) have "vis_partial step s describe io (length us, \<sigma>) (ls, size_in us, first_in us) = Some (ls @ [l], size_in (us @ [\<sigma>]), first_in (us @ [\<sigma>]))"
    by (simp add: vis_partial_def)
  with Cons.IH [of "us @ [\<sigma>]" "ls @ [l]"] Cons.prems l(2) show ?case by (simp add: list_all2_appendI)
qed simp

lemma largest_shown_first_in:
  assumes "sorted_wrt (\<lambda>a b. length b \<le> length a) ps"
  shows "largest_shown ps (first_in ps)"
  unfolding largest_shown_def
proof (intro conjI allI impI)
  fix x i \<sigma> assume a: "first_in ps x = Some i" "\<sigma> \<in> set ps" "x \<in> set \<sigma>"
  then obtain k where k: "k < length ps" "\<sigma> = ps ! k" by (auto simp: in_set_conv_nth)
  from a(1) have i: "nat i = length (takeWhile (\<lambda>\<sigma>. x \<notin> set \<sigma>) ps)" by (auto simp: first_in_def split: if_splits)
  have "\<not> k < nat i" using a(3) k set_takeWhileD [of "ps ! k" "\<lambda>\<sigma>. x \<notin> set \<sigma>" ps] unfolding i by (metis nth_mem takeWhile_nth)
  with k assms show "length \<sigma> \<le> length (ps ! nat i)" by (cases "nat i = k") (auto simp: sorted_wrt_iff_nth_less)
qed (simp add: first_in_def)

section \<open>A partition\<close>

text \<open>The less function of \<open>sort.Slice\<close>, and its contract for a slice of linearizations.\<close>

abbreviation longer :: "int list \<Rightarrow> int list \<Rightarrow> bool" where
  "longer a b \<equiv> length a > length b"

interpretation lp: go_sort longer "insertionSort longer"
  by (rule insertionSort_go_sort) (auto simp: weak_order_def)

definition partition_shown :: "('s, 'v) Model \<Rightarrow> 'v entry list \<Rightarrow> int list list \<Rightarrow> partitionVisualizationData \<Rightarrow> bool" where
  "partition_shown model es ps d \<longleftrightarrow>
     (\<exists>describe. DescribeOperation model = Some describe \<and> history_shown describe es (length es div 2) (pv_History d))
     \<and> (\<exists>describe. DescribeState model = Some describe
          \<and> list_all2 (steps_shown (Step model) (Init model) describe (io_at es)) ps (pv_PartialLinearizations d))
     \<and> largest_shown ps (pv_Largest d)"

lemma steps_shown_cong: "(\<And>i. i \<in> set \<sigma> \<Longrightarrow> io i = io' i) \<Longrightarrow> steps_shown step s d io \<sigma> l = steps_shown step s d io' \<sigma> l"
  unfolding steps_shown_def by (intro conj_cong refl all_cong1 imp_cong) (metis (mono_tags) in_set_takeD map_cong)

lemma vis_partition_shown:
  assumes srt: "go_sort longer srt" and wf: "wf_history es n" and vals: "vals_ok in_ok out_ok es"
    and desc: "DescribeOperation model = Some describe" "\<And>i v. in_ok i \<Longrightarrow> out_ok v \<Longrightarrow> describe i v \<noteq> None"
    and descst: "DescribeState model = Some describeSt" and ps: "\<forall>\<sigma>\<in>set ps. lin_prefix (Step model) (Init model) es \<sigma>"
  shows "\<exists>d. vis_partition srt nilv model es ps = Some (d, srt ps) \<and> partition_shown model es (srt ps) d"
proof -
  from vis_history_shown [OF wf vals, of describe nilv] desc(2) obtain history cv rv where h: "vis_history describe nilv es = Some (history, cv, rv)"
    "history_shown describe es n history" "\<forall>i\<in>ent_id ` set es. (map_get0 nilv cv i, map_get0 nilv rv i) = io_at es i" by blast
  let ?io = "\<lambda>i. (map_get0 nilv cv i, map_get0 nilv rv i)"
  have sorted: "sorted_wrt (\<lambda>a b. length b \<le> length a) ([] @ srt ps)" using go_sort.srt_ordered [OF srt, of ps] by (simp add: not_less)
  have set: "set (srt ps) = set ps" by (rule go_sort.srt_set [OF srt])
  have io: "map ?io \<sigma> = map (io_at es) \<sigma>" if "\<sigma> \<in> set (srt ps)" for \<sigma>
    using ps h(3) that unfolding set lin_prefix_def by (intro map_cong refl) blast
  have "\<forall>\<sigma>\<in>set (srt ps). run_steps (Step model) (Init model) (map ?io \<sigma>) \<noteq> None"
  proof
    fix \<sigma> assume "\<sigma> \<in> set (srt ps)"
    with ps show "run_steps (Step model) (Init model) (map ?io \<sigma>) \<noteq> None" unfolding io [OF \<open>\<sigma> \<in> set (srt ps)\<close>] by (simp add: set lin_prefix_def linearizes_def)
  qed
  from vis_partials_shown [OF sorted this, of describeSt "[]"] obtain ls where
    ls: "foldo (vis_partial (Step model) (Init model) describeSt ?io) (enumerate 0 (srt ps)) ([], size_in [], first_in []) = Some (ls, size_in (srt ps), first_in (srt ps))"
      "list_all2 (steps_shown (Step model) (Init model) describeSt ?io) (srt ps) ls" by auto
  have shown: "steps_shown (Step model) (Init model) describeSt ?io \<sigma> l = steps_shown (Step model) (Init model) describeSt (io_at es) \<sigma> l"
    if "\<sigma> \<in> set (srt ps)" for \<sigma> l using io [OF that] by (intro steps_shown_cong) simp
  have "size_in [] = Map.empty" "first_in [] = Map.empty" by (auto simp: size_in_def first_in_def)
  with ls(1) h(1) desc(1) descst have "vis_partition srt nilv model es ps = Some (\<lparr>pv_History = history, pv_PartialLinearizations = ls, pv_Largest = first_in (srt ps)\<rparr>, srt ps)"
    by (simp add: vis_partition_def Let_def)
  moreover have "list_all2 (steps_shown (Step model) (Init model) describeSt (io_at es)) (srt ps) ls"
    using ls(2) by (rule list.rel_mono_strong) (simp only: shown)
  moreover have "largest_shown (srt ps) (first_in (srt ps))" using largest_shown_first_in sorted by simp
  ultimately show ?thesis using desc(1) descst h(2) wf_length [OF wf] by (auto simp: partition_shown_def)
qed

section \<open>All partitions\<close>

lemma compute_shown:
  assumes srt: "go_sort longer srt" and info: "info_ok (Step m) (Init m) in_ok out_ok info" and m: "m = fillDefault fmtv fmts model"
    and desc: "DescribeOperation m = Some describe" "\<And>i v. in_ok i \<Longrightarrow> out_ok v \<Longrightarrow> describe i v \<noteq> None" "DescribeState m = Some describeSt"
  shows "\<exists>data. computeVisualizationData fmtv fmts srt nilv model info = Some (data, info\<lparr>li_partialLinearizations := map srt (li_partialLinearizations info)\<rparr>)
    \<and> length data = length (li_history info) \<and> (\<forall>j<length data. partition_shown m (li_history info ! j) (srt (li_partialLinearizations info ! j)) (data ! j))"
proof -
  let ?H = "li_history info" and ?L = "li_partialLinearizations info"
  let ?f = "\<lambda>partition (data, parts). do { es \<leftarrow> slice_get ?H (int partition); partials \<leftarrow> slice_get parts (int partition);
      (d, partials) \<leftarrow> vis_partition srt nilv m es partials; parts \<leftarrow> slice_set parts (int partition) partials; Some (data @ [d], parts) }"
  let ?P = "\<lambda>us (data, parts). length data = length us \<and> parts = map srt (take (length us) ?L) @ drop (length us) ?L
      \<and> (\<forall>j<length us. partition_shown m (?H ! j) (srt (?L ! j)) (data ! j))"
  have len: "length ?L = length ?H" using info by (simp add: info_ok_def)
  have "\<exists>t. foldo ?f [0..<length ?H] ([], ?L) = Some t \<and> ?P [0..<length ?H] t"
  proof (rule foldo_prefix)
    fix us k vs s assume us: "[0..<length ?H] = us @ k # vs" and P: "?P us s"
    obtain data parts where s: "s = (data, parts)" by (cases s)
    have "length us < length ?H" using arg_cong [OF us, of length] by simp
    with arg_cong [OF us, of "\<lambda>xs. xs ! length us"] have k: "length us = k" "k < length ?H" by simp_all
    with info obtain n where "wf_history (?H ! k) n" "vals_ok in_ok out_ok (?H ! k)" "\<forall>\<sigma>\<in>set (?L ! k). lin_prefix (Step m) (Init m) (?H ! k) \<sigma>"
      by (auto simp: info_ok_def)
    from vis_partition_shown [OF srt this(1,2) desc(1) _ desc(3) this(3), of nilv] desc(2) obtain d where
      d: "vis_partition srt nilv m (?H ! k) (?L ! k) = Some (d, srt (?L ! k))" "partition_shown m (?H ! k) (srt (?L ! k)) d" by blast
    have parts: "length parts = length ?H" "parts ! k = ?L ! k" "parts[k := srt (?L ! k)] = map srt (take (Suc k) ?L) @ drop (Suc k) ?L"
      using P k len by (auto simp: s nth_append take_Suc_conv_app_nth list_update_append Cons_nth_drop_Suc [symmetric])
    have "?f k s = Some (data @ [d], parts[k := srt (?L ! k)])" using d(1) k parts by (simp add: s)
    moreover have "?P (us @ [k]) (data @ [d], parts[k := srt (?L ! k)])"
      using P k parts(3) d(2) by (auto simp: s nth_append less_Suc_eq)
    ultimately show "\<exists>t. ?f k s = Some t \<and> ?P (us @ [k]) t" by blast
  qed simp
  then obtain data where "foldo ?f [0..<length ?H] ([], ?L) = Some (data, map srt ?L)" "length data = length ?H"
    "\<forall>j<length ?H. partition_shown m (?H ! j) (srt (?L ! j)) (data ! j)" using len by auto
  then show ?thesis by (simp add: computeVisualizationData_def Let_def m [symmetric])
qed

section \<open>Properties\<close>

text \<open>
  C9. The page can always be made from what \<open>CheckOperationsVerbose\<close> reports for \<open>KvModel\<close>, also after a
  timeout: no reported partial linearization is refused by the model and no index is out of range. There is
  one partition for each key; its history shows every operation with its own client, times and
  description, every step of a linearization the state after it, and \<open>Largest\<close> the first of the
  longest linearizations that contain the operation.
\<close>

theorem visualize_after_check:
  assumes "entry_sort srt" and "kv_ops h" and "ops_ok h" and "h \<noteq> []" and "sched_ok (card (op_key ` set h)) timeout sched"
    and "\<And>xs. mset (rng xs) = mset xs" and "go_sort longer psrt"
  shows "\<exists>res info data info'. CheckOperationsVerbose fmtv fmts srt KvModel h sched kills rng = Some (res, info)
    \<and> computeVisualizationData fmtv fmts psrt nilv KvModel info = Some (data, info') \<and> length data = card (op_key ` set h)
    \<and> (\<forall>j<length data. mset (li_partialLinearizations info' ! j) = mset (li_partialLinearizations info ! j)
         \<and> partition_shown (fillDefault fmtv fmts KvModel) (li_history info ! j) (li_partialLinearizations info' ! j) (data ! j))"
proof -
  let ?m = "fillDefault fmtv fmts KvModel"
  from checkOperations_kv [OF assms(1-6), of fmtv fmts True kills] obtain res info where
    r: "CheckOperationsVerbose fmtv fmts srt KvModel h sched kills rng = Some (res, info)" "length (li_history info) = card (op_key ` set h)"
      "info_ok (Step ?m) (Init ?m) is_in is_out info" by (auto simp: CheckOperationsVerbose_def fillDefault_KvModel)
  have d: "DescribeOperation ?m = Some Kv_DescribeOperation" "DescribeState ?m = Some (DefaultDescribeState fmts)"
    by (simp_all add: fillDefault_def KvModel_def Let_def)
  have "Kv_DescribeOperation i v \<noteq> None" if "is_in i" "is_out v" for i v using that by (auto simp: Kv_DescribeOperation_def is_in_def is_out_def)
  from compute_shown [OF assms(7) r(3) refl d(1) this d(2), of nilv] obtain data where
    data: "computeVisualizationData fmtv fmts psrt nilv KvModel info = Some (data, info\<lparr>li_partialLinearizations := map psrt (li_partialLinearizations info)\<rparr>)"
      "length data = length (li_history info)" "\<forall>j<length data. partition_shown ?m (li_history info ! j) (psrt (li_partialLinearizations info ! j)) (data ! j)"
    by blast
  have "length (li_partialLinearizations info) = length data" using r(3) data(2) by (simp add: info_ok_def)
  with r(1,2) data show ?thesis by (intro exI conjI) (auto simp: go_sort.srt_mset [OF assms(7)])
qed

text \<open>Two overlapping operations on one key and one on another.\<close>

theorem visualize_after_check_witness:
  "\<exists>res info data info'. CheckOperationsVerbose (\<lambda>_. []) id (insertionSort byTime_Less) KvModel
      [kv_op 0 ''x'' [] [] 0 3, kv_op 1 ''x'' ''v'' [] 1 2, kv_op 2 ''y'' ''w'' [] 1 2] [Recv 1, Recv 0] (\<lambda>_ _. False) id = Some (res, info)
    \<and> computeVisualizationData (\<lambda>_. []) id (insertionSort longer) (VOut \<lparr>out_Value = []\<rparr>) KvModel info = Some (data, info') \<and> length data = 2"
proof -
  let ?h = "[kv_op 0 ''x'' [] [] 0 3, kv_op 1 ''x'' ''v'' [] 1 2, kv_op 2 ''y'' ''w'' [] 1 2]"
  have c: "card (op_key ` set ?h) = 2" by (simp add: kv_sample_simps)
  have s: "sched_ok (card (op_key ` set ?h)) 0 [Recv 1, Recv 0]" unfolding c by (auto simp: sched_ok_def)
  have "kv_ops ?h" "ops_ok ?h" by (simp_all add: kv_sample_simps)
  from visualize_after_check [OF bt.entry_sort_axioms this _ s, of id "insertionSort longer" "\<lambda>_. []" id "\<lambda>_ _. False" "VOut \<lparr>out_Value = []\<rparr>"]
    lp.go_sort_axioms show ?thesis unfolding c by auto
qed

end
