(* ===== verification/Main_Programs.thy ===== *)
theory Main_Programs
  imports Mr_Worker
begin

text \<open>
  The programs of \<open>main/\<close> and the loop of \<open>Worker\<close> (\<open>mr/worker.go\<close>). A program or loop is \<open>Running\<close>
  after the given number of turns, has \<open>Returned\<close>, or was ended by \<open>log.Fatal\<close>, \<open>os.Exit\<close> or a panic.

  The worker is related to the steps of the system of \<open>Mr_Worker\<close>: it runs against calls of which only
  this is assumed, that a reply comes from \<open>HandleWorker\<close> and a finish message goes to \<open>HandleFinish\<close> or
  is lost, while other workers and the timers go on. The coordinator waits while the system runs.
  The programs of the older labs only read their arguments: the packages they start are not part of
  the repository, and are arguments here.
\<close>

section \<open>Runs of programs\<close>

datatype 'w run = Running 'w | Returned 'w | Fatal 'w

primrec run_state :: "'w run \<Rightarrow> 'w" where
  "run_state (Running w) = w"
| "run_state (Returned w) = w"
| "run_state (Fatal w) = w"

section \<open>The worker process\<close>

text \<open>What \<open>call\<close> does: the coordinator cannot be reached, the call fails, or it returns a reply.\<close>

datatype 'a rpc = Dial_fails | Call_fails | Reply 'a

definition Worker_turn ::
  "(KeyValue list \<Rightarrow> KeyValue list) \<Rightarrow> (string \<Rightarrow> string \<Rightarrow> KeyValue list) \<Rightarrow> (string \<Rightarrow> string list \<Rightarrow> string) \<Rightarrow> (mr_sys \<Rightarrow> mr_sys)
     \<Rightarrow> (mr_sys \<Rightarrow> mr_sys \<times> CoordinatorReply rpc) \<Rightarrow> (CoordinatorFinishArgs \<Rightarrow> mr_sys \<Rightarrow> mr_sys \<times> unit rpc) \<Rightarrow> mr_sys \<Rightarrow> mr_sys run" where
  "Worker_turn srt mapf reducef sleep ask fin s = (case ask (sleep s) of
     (s, Dial_fails) \<Rightarrow> Fatal s
   | (s, Call_fails) \<Rightarrow> Returned s
   | (s, Reply reply) \<Rightarrow> (case run_job srt mapf reducef reply (sys_fs s) of
       None \<Rightarrow> Fatal s
     | Some (fs, []) \<Rightarrow> Running (s\<lparr>sys_fs := fs\<rparr>)
     | Some (fs, finishArgs # _) \<Rightarrow> (case fin finishArgs (s\<lparr>sys_fs := fs\<rparr>) of
         (s, Dial_fails) \<Rightarrow> Fatal s
       | (s, _) \<Rightarrow> Running s)))"

primrec Worker ::
  "nat \<Rightarrow> (KeyValue list \<Rightarrow> KeyValue list) \<Rightarrow> (string \<Rightarrow> string \<Rightarrow> KeyValue list) \<Rightarrow> (string \<Rightarrow> string list \<Rightarrow> string) \<Rightarrow> (mr_sys \<Rightarrow> mr_sys)
     \<Rightarrow> (mr_sys \<Rightarrow> mr_sys \<times> CoordinatorReply rpc) \<Rightarrow> (CoordinatorFinishArgs \<Rightarrow> mr_sys \<Rightarrow> mr_sys \<times> unit rpc) \<Rightarrow> mr_sys \<Rightarrow> mr_sys run" where
  "Worker 0 srt mapf reducef sleep ask fin s = Running s"
| "Worker (Suc n) srt mapf reducef sleep ask fin s = (case Worker_turn srt mapf reducef sleep ask fin s of
     Running s \<Rightarrow> Worker n srt mapf reducef sleep ask fin s
   | r \<Rightarrow> r)"

text \<open>
  \<open>loadPlugin\<close> of \<open>mrworker.go\<close> and \<open>mrsequential.go\<close>: opening a plugin, looking up a symbol and the two
  type assertions are arguments. \<open>None\<close> is \<open>log.Fatalf\<close> or the panic of a failed assertion.
\<close>

definition loadPlugin ::
  "(string \<rightharpoonup> 'p) \<Rightarrow> ('p \<Rightarrow> string \<rightharpoonup> 'sym) \<Rightarrow> ('sym \<rightharpoonup> (string \<Rightarrow> string \<Rightarrow> KeyValue list)) \<Rightarrow> ('sym \<rightharpoonup> (string \<Rightarrow> string list \<Rightarrow> string))
     \<Rightarrow> string \<Rightarrow> ((string \<Rightarrow> string \<Rightarrow> KeyValue list) \<times> (string \<Rightarrow> string list \<Rightarrow> string)) option" where
  "loadPlugin opn lookup as_map as_reduce filename = do {
     p \<leftarrow> opn filename;
     xmapf \<leftarrow> lookup p ''Map'';
     mapf \<leftarrow> as_map xmapf;
     xreducef \<leftarrow> lookup p ''Reduce'';
     reducef \<leftarrow> as_reduce xreducef;
     Some (mapf, reducef) }"

definition mrworker_main ::
  "(string \<Rightarrow> ((string \<Rightarrow> string \<Rightarrow> KeyValue list) \<times> (string \<Rightarrow> string list \<Rightarrow> string)) option) \<Rightarrow> nat \<Rightarrow> (KeyValue list \<Rightarrow> KeyValue list) \<Rightarrow> (mr_sys \<Rightarrow> mr_sys)
     \<Rightarrow> (mr_sys \<Rightarrow> mr_sys \<times> CoordinatorReply rpc) \<Rightarrow> (CoordinatorFinishArgs \<Rightarrow> mr_sys \<Rightarrow> mr_sys \<times> unit rpc) \<Rightarrow> string list \<Rightarrow> mr_sys \<Rightarrow> mr_sys run" where
  "mrworker_main load n srt sleep ask fin args s = (if length args \<noteq> 2 then Fatal s
     else case load (args ! 1) of None \<Rightarrow> Fatal s | Some (mapf, reducef) \<Rightarrow> Worker n srt mapf reducef sleep ask fin s)"

definition mrsequential_main ::
  "(string \<Rightarrow> ((string \<Rightarrow> string \<Rightarrow> KeyValue list) \<times> (string \<Rightarrow> string list \<Rightarrow> string)) option) \<Rightarrow> (KeyValue list \<Rightarrow> KeyValue list) \<Rightarrow> string list \<Rightarrow> fs \<Rightarrow> fs run" where
  "mrsequential_main load srt args fs = (if length args < 3 then Fatal fs
     else case load (args ! 1) of None \<Rightarrow> Fatal fs
     | Some (mapf, reducef) \<Rightarrow> (case mrsequential srt mapf reducef (drop 2 args) fs of None \<Rightarrow> Fatal fs | Some fs \<Rightarrow> Returned fs))"

section \<open>The coordinator process\<close>

text \<open>The loop that waits for the job; the system runs during \<open>sleep\<close>. \<open>None\<close>: it waits forever.\<close>

partial_function (option) wait_done :: "(mr_sys \<Rightarrow> mr_sys) \<Rightarrow> mr_sys \<Rightarrow> mr_sys run option" where
  "wait_done sleep s = (case coord_Done (sys_coord s) of
     None \<Rightarrow> Some (Fatal s)
   | Some d \<Rightarrow> if d then Some (Returned (sleep s)) else wait_done sleep (sleep s))"

definition mrcoordinator_main :: "(mr_sys \<Rightarrow> mr_sys) \<Rightarrow> string list \<Rightarrow> fs \<Rightarrow> mr_sys run option" where
  "mrcoordinator_main sleep args fs = (if length args < 2 then Some (Fatal (mr_start [] 10 fs)) else wait_done sleep (mr_start (tl args) 10 fs))"

section \<open>The programs of the older labs\<close>

text \<open>
  \<open>strconv.ParseInt(s, 10, 64)\<close>, and \<open>strconv.Atoi\<close> with 64-bit integers, where the error is ignored: 0 for
  a string that is not a number, the nearest 64-bit number for one out of range. \<open>strconv.ParseBool\<close>
  likewise gives false.
\<close>

definition digit :: "char \<Rightarrow> bool" where
  "digit c \<longleftrightarrow> 48 \<le> (of_char c :: nat) \<and> (of_char c :: nat) \<le> 57"

definition ParseInt :: "string \<Rightarrow> int" where
  "ParseInt s =
     (let neg = (s \<noteq> [] \<and> hd s = CHR ''-'');
          ds = (if s \<noteq> [] \<and> (hd s = CHR ''-'' \<or> hd s = CHR ''+'') then tl s else s);
          v = foldl (\<lambda>a c. 10 * a + (int (of_char c) - 48)) 0 ds
      in if ds = [] \<or> \<not> list_all digit ds then 0
         else if neg then max (- (2 ^ 63)) (- v) else min (2 ^ 63 - 1) v)"

definition ParseBool :: "string \<Rightarrow> bool" where
  "ParseBool s \<longleftrightarrow> s \<in> set [''1'', ''t'', ''T'', ''true'', ''TRUE'', ''True'']"

record diskvd_opts =
  gid :: int
  masters :: "string list"
  replicas :: "string list"
  dv_me :: int
  unreliable :: bool
  dir :: string
  restart :: bool

text \<open>The loop takes the arguments in pairs and ignores a last one without a partner; \<open>None\<close> is \<open>usage\<close>.\<close>

fun diskvd_parse :: "string list \<Rightarrow> diskvd_opts \<Rightarrow> diskvd_opts option" where
  "diskvd_parse (a0 # a1 # rest) v =
     (if a0 = ''-g'' then diskvd_parse rest (v\<lparr>gid := ParseInt a1\<rparr>)
      else if a0 = ''-m'' then diskvd_parse rest (v\<lparr>masters := masters v @ [a1]\<rparr>)
      else if a0 = ''-s'' then diskvd_parse rest (v\<lparr>replicas := replicas v @ [a1]\<rparr>)
      else if a0 = ''-i'' then diskvd_parse rest (v\<lparr>dv_me := ParseInt a1\<rparr>)
      else if a0 = ''-u'' then diskvd_parse rest (v\<lparr>unreliable := ParseBool a1\<rparr>)
      else if a0 = ''-d'' then diskvd_parse rest (v\<lparr>dir := a1\<rparr>)
      else if a0 = ''-r'' then diskvd_parse rest (v\<lparr>restart := ParseBool a1\<rparr>)
      else None)"
| "diskvd_parse _ v = Some v"

text \<open>\<open>start\<close> is \<open>diskv.StartServer\<close> with \<open>Setunreliable\<close>; the process then sleeps and kills itself.\<close>

definition diskvd_main :: "(diskvd_opts \<Rightarrow> 'w \<Rightarrow> 'w) \<Rightarrow> string list \<Rightarrow> 'w \<Rightarrow> 'w run" where
  "diskvd_main start args w =
     (case diskvd_parse (tl args) \<lparr>gid = -1, masters = [], replicas = [], dv_me = -1, unreliable = False, dir = [], restart = False\<rparr> of
        None \<Rightarrow> Fatal w
      | Some v \<Rightarrow> if gid v < 0 \<or> dv_me v < 0 \<or> length (masters v) < 1 \<or> dv_me v \<ge> int (length (replicas v)) \<or> dir v = [] then Fatal w
                  else Fatal (start v w))"

definition lockc_main :: "(string \<Rightarrow> string \<Rightarrow> string \<Rightarrow> 'w \<Rightarrow> 'w) \<Rightarrow> (string \<Rightarrow> string \<Rightarrow> string \<Rightarrow> 'w \<Rightarrow> 'w) \<Rightarrow> string list \<Rightarrow> 'w \<Rightarrow> 'w run" where
  "lockc_main lock unlock args w =
     (if length args = 5 then
        if args ! 1 = ''-l'' then Returned (lock (args ! 2) (args ! 3) (args ! 4) w)
        else if args ! 1 = ''-u'' then Returned (unlock (args ! 2) (args ! 3) (args ! 4) w)
        else Fatal w
      else Fatal w)"

text \<open>The servers sleep forever once they are started.\<close>

definition lockd_main :: "(string \<Rightarrow> string \<Rightarrow> bool \<Rightarrow> 'w \<Rightarrow> 'w) \<Rightarrow> string list \<Rightarrow> 'w \<Rightarrow> 'w run" where
  "lockd_main start args w =
     (if length args = 4 \<and> args ! 1 = ''-p'' then Running (start (args ! 2) (args ! 3) True w)
      else if length args = 4 \<and> args ! 1 = ''-b'' then Running (start (args ! 2) (args ! 3) False w)
      else Fatal w)"

definition pbc_main :: "(string \<Rightarrow> string \<Rightarrow> 'w \<Rightarrow> 'w) \<Rightarrow> (string \<Rightarrow> string \<Rightarrow> string \<Rightarrow> 'w \<Rightarrow> 'w) \<Rightarrow> string list \<Rightarrow> 'w \<Rightarrow> 'w run" where
  "pbc_main get put args w =
     (if length args = 3 then Returned (get (args ! 1) (args ! 2) w)
      else if length args = 4 then Returned (put (args ! 1) (args ! 2) (args ! 3) w)
      else Fatal w)"

definition pbd_main :: "(string \<Rightarrow> string \<Rightarrow> 'w \<Rightarrow> 'w) \<Rightarrow> string list \<Rightarrow> 'w \<Rightarrow> 'w run" where
  "pbd_main start args w = (if length args \<noteq> 3 then Fatal w else Running (start (args ! 1) (args ! 2) w))"

definition viewd_main :: "(string \<Rightarrow> 'w \<Rightarrow> 'w) \<Rightarrow> string list \<Rightarrow> 'w \<Rightarrow> 'w run" where
  "viewd_main start args w = (if length args \<noteq> 2 then Fatal w else Running (start (args ! 1) w))"

section \<open>A worker is a part of the system\<close>

definition calls_ok ::
  "(mr_sys \<Rightarrow> mr_sys \<Rightarrow> bool) \<Rightarrow> (mr_sys \<Rightarrow> mr_sys) \<Rightarrow> (mr_sys \<Rightarrow> mr_sys \<times> CoordinatorReply rpc) \<Rightarrow> (CoordinatorFinishArgs \<Rightarrow> mr_sys \<Rightarrow> mr_sys \<times> unit rpc) \<Rightarrow> bool" where
  "calls_ok step sleep ask fin \<longleftrightarrow> (\<forall>s. step\<^sup>*\<^sup>* s (sleep s))
     \<and> (\<forall>s. case ask s of (s', Reply reply) \<Rightarrow> step\<^sup>*\<^sup>* s (s'\<lparr>sys_jobs := reply # sys_jobs s'\<rparr>) | (s', _) \<Rightarrow> step\<^sup>*\<^sup>* s s')
     \<and> (\<forall>args s. step\<^sup>*\<^sup>* (s\<lparr>sys_msgs := args # sys_msgs s\<rparr>) (fst (fin args s)))"

lemma calls_ok_ask:
  assumes "calls_ok step sleep ask fin" and "ask s = (s', r)"
  shows "case r of Reply reply \<Rightarrow> step\<^sup>*\<^sup>* s (s'\<lparr>sys_jobs := reply # sys_jobs s'\<rparr>) | _ \<Rightarrow> step\<^sup>*\<^sup>* s s'"
proof -
  have "case ask s of (s', Reply reply) \<Rightarrow> step\<^sup>*\<^sup>* s (s'\<lparr>sys_jobs := reply # sys_jobs s'\<rparr>) | (s', _) \<Rightarrow> step\<^sup>*\<^sup>* s s'"
    using assms(1) unfolding calls_ok_def by (elim conjE) (erule allE [where x = s])
  then show ?thesis by (simp add: assms(2))
qed

lemma run_job_msgs: "run_job srt mapf reducef reply fs = Some (fs', msgs) \<Longrightarrow> length msgs \<le> 1"
  by (auto simp: run_job_def split: if_splits bind_splits)

lemma run_job_total:
  assumes "go_sort ByKey_Less srt" and "job_ok files nReduce fs0" and "sys_inv mapf reducef files nReduce fs0 s" and "reply \<in> set (sys_jobs s)"
  shows "run_job srt mapf reducef reply (sys_fs s) \<noteq> None"
proof -
  have "reply_ok files nReduce (sys_coord s) reply" "\<forall>f\<in>set files. sys_fs s f = fs0 f" using assms(3,4) by (auto simp: sys_inv_def)
  then show ?thesis
  proof (elim reply_ok_def [THEN iffD1, elim_format] disjE exE conjE, goal_cases)
    case (1 i)
    from assms(2) nth_mem [OF 1(2)] obtain content where c: "fs0 (files ! i) = Some content" by (auto simp: job_ok_def)
    with 1 have "sys_fs s (files ! i) = Some content" by simp
    moreover have "0 < nat nReduce" using assms(2) by (simp add: job_ok_def)
    ultimately obtain fs' where "doMap srt mapf [files ! i] (i + 1) (nat nReduce) (sys_fs s) = Some fs'"
      using doMap_correct [OF assms(1)] by blast
    with 1(3) show ?case by (simp add: run_job_def nat_add_distrib)
  qed (simp_all add: run_job_def zero_reply_def)
qed

lemma Worker_turn_steps:
  assumes calls: "calls_ok (mr_step srt mapf reducef) sleep ask fin"
  shows "(mr_step srt mapf reducef)\<^sup>*\<^sup>* s (run_state (Worker_turn srt mapf reducef sleep ask fin s))"
proof -
  let ?step = "mr_step srt mapf reducef"
  obtain s1 r where ask: "ask (sleep s) = (s1, r)" by fastforce
  have sl: "?step\<^sup>*\<^sup>* s (sleep s)" using calls by (simp add: calls_ok_def)
  note ask' = calls_ok_ask [OF calls ask]
  show ?thesis
  proof (cases r)
    case (Reply reply)
    let ?s1 = "s1\<lparr>sys_jobs := reply # sys_jobs s1\<rparr>"
    have s1: "?step\<^sup>*\<^sup>* s ?s1" using sl ask' Reply by (simp add: rtranclp_trans)
    have lost: "?step ?s1 s1" using mr_step.sys_crash [of ?s1 "[]" reply "sys_jobs s1"] by simp
    show ?thesis
    proof (cases "run_job srt mapf reducef reply (sys_fs s1)")
      case None
      with s1 lost ask Reply show ?thesis by (simp add: Worker_turn_def rtranclp.rtrancl_into_rtrancl)
    next
      case (Some p)
      obtain fs msgs where p: "p = (fs, msgs)" by (cases p)
      from mr_step.sys_run [of ?s1 "[]" reply "sys_jobs s1" srt mapf reducef fs msgs] Some p
      have ran: "?step\<^sup>*\<^sup>* s (s1\<lparr>sys_fs := fs, sys_msgs := msgs @ sys_msgs s1\<rparr>)" using s1 by (simp add: rtranclp.rtrancl_into_rtrancl)
      show ?thesis
      proof (cases msgs)
        case Nil
        with ran Some p ask Reply show ?thesis by (simp add: Worker_turn_def)
      next
        case (Cons args ms)
        with run_job_msgs [of srt mapf reducef reply "sys_fs s1" fs msgs] Some p have "ms = []" by simp
        with ran Cons have "?step\<^sup>*\<^sup>* s ((s1\<lparr>sys_fs := fs\<rparr>)\<lparr>sys_msgs := args # sys_msgs (s1\<lparr>sys_fs := fs\<rparr>)\<rparr>)" by simp
        also have "?step\<^sup>*\<^sup>* \<dots> (fst (fin args (s1\<lparr>sys_fs := fs\<rparr>)))" using calls unfolding calls_ok_def by blast
        finally show ?thesis using Some p ask Reply Cons by (auto simp: Worker_turn_def split: prod.splits rpc.splits)
      qed
    qed
  qed (use sl ask ask' in \<open>simp_all add: Worker_turn_def rtranclp_trans\<close>)
qed

lemma Worker_turn_Fatal:
  assumes calls: "calls_ok (mr_step srt mapf reducef) sleep ask fin" and srt: "go_sort ByKey_Less srt" and free: "order_free reducef"
    and job: "job_ok files nReduce fs0" and reach: "(mr_step srt mapf reducef)\<^sup>*\<^sup>* (mr_start files nReduce fs0) s"
    and fatal: "Worker_turn srt mapf reducef sleep ask fin s = Fatal s'"
  shows "(\<exists>t. snd (ask t) = Dial_fails) \<or> (\<exists>args t. snd (fin args t) = Dial_fails)"
proof (rule ccontr)
  assume no: "\<not> ?thesis"
  let ?step = "mr_step srt mapf reducef"
  obtain s1 r where ask: "ask (sleep s) = (s1, r)" by fastforce
  with no fatal obtain reply where r: "r = Reply reply" by (cases r) (auto simp: Worker_turn_def, metis snd_conv)
  from calls_ok_ask [OF calls ask] r have "?step\<^sup>*\<^sup>* (sleep s) (s1\<lparr>sys_jobs := reply # sys_jobs s1\<rparr>)" by simp
  moreover have "?step\<^sup>*\<^sup>* s (sleep s)" using calls by (simp add: calls_ok_def)
  ultimately have "?step\<^sup>*\<^sup>* (mr_start files nReduce fs0) (s1\<lparr>sys_jobs := reply # sys_jobs s1\<rparr>)" using reach by (meson rtranclp_trans)
  from run_job_total [OF srt job mr_run_inv [OF srt free job this], of reply]
  have "run_job srt mapf reducef reply (sys_fs s1) \<noteq> None" by simp
  with fatal ask r no show False by (auto simp: Worker_turn_def split: prod.splits rpc.splits list.splits) (metis snd_conv)
qed

lemma Worker_steps:
  assumes "calls_ok (mr_step srt mapf reducef) sleep ask fin"
  shows "(mr_step srt mapf reducef)\<^sup>*\<^sup>* s (run_state (Worker n srt mapf reducef sleep ask fin s))"
proof (induction n arbitrary: s)
  case (Suc n)
  have t: "(mr_step srt mapf reducef)\<^sup>*\<^sup>* s (run_state (Worker_turn srt mapf reducef sleep ask fin s))" by (rule Worker_turn_steps [OF assms])
  show ?case
  proof (cases "Worker_turn srt mapf reducef sleep ask fin s")
    case (Running s1)
    with rtranclp_trans [OF t] Suc.IH [of s1] show ?thesis by simp
  qed (use t in simp_all)
qed simp

section \<open>Properties\<close>


text \<open>Calls that go through at once.\<close>

definition ask_now :: "mr_sys \<Rightarrow> mr_sys \<times> CoordinatorReply rpc" where
  "ask_now s = (case HandleWorker (sys_coord s) of None \<Rightarrow> (s, Call_fails) | Some (c, reply) \<Rightarrow> (s\<lparr>sys_coord := c\<rparr>, Reply reply))"

definition fin_now :: "CoordinatorFinishArgs \<Rightarrow> mr_sys \<Rightarrow> mr_sys \<times> unit rpc" where
  "fin_now args s = (case HandleFinish args (sys_coord s) of None \<Rightarrow> (s, Call_fails) | Some c \<Rightarrow> (s\<lparr>sys_coord := c\<rparr>, Reply ()))"

lemma calls_now: "calls_ok (mr_step srt mapf reducef) id ask_now fin_now"
proof -
  have "(mr_step srt mapf reducef)\<^sup>*\<^sup>* s (s\<lparr>sys_coord := c, sys_jobs := reply # sys_jobs s\<rparr>)" if "HandleWorker (sys_coord s) = Some (c, reply)" for s c reply
    using mr_step.sys_ask [OF that] by blast
  moreover have "(mr_step srt mapf reducef)\<^sup>*\<^sup>* (s\<lparr>sys_msgs := args # sys_msgs s\<rparr>) (fst (fin_now args s))" for args s
  proof (cases "HandleFinish args (sys_coord s)")
    case None
    with mr_step.sys_drop [of "s\<lparr>sys_msgs := args # sys_msgs s\<rparr>" "[]" args "sys_msgs s"] show ?thesis by (auto simp: fin_now_def)
  next
    case (Some c)
    with mr_step.sys_finish [of "s\<lparr>sys_msgs := args # sys_msgs s\<rparr>" "[]" args "sys_msgs s" c] show ?thesis by (auto simp: fin_now_def)
  qed
  ultimately show ?thesis by (auto simp: calls_ok_def ask_now_def split: option.splits)
qed

lemma dials_now: "snd (ask_now s) \<noteq> Dial_fails" "snd (fin_now args s) \<noteq> Dial_fails"
  by (auto simp: ask_now_def fin_now_def split: option.splits)


lemma wait_done_returns:
  assumes "\<And>k. coord_Done (sys_coord ((sleep ^^ k) s)) \<noteq> None" and "coord_Done (sys_coord ((sleep ^^ n) s)) = Some True"
  shows "\<exists>s'. wait_done sleep s = Some (Returned s')"
  using assms
proof (induction n arbitrary: s)
  case 0
  then show ?case by (subst wait_done.simps) simp
next
  case (Suc n)
  from Suc.prems(1) [of 0] obtain d where d: "coord_Done (sys_coord s) = Some d" by auto
  have "coord_Done (sys_coord ((sleep ^^ k) (sleep s))) \<noteq> None" for k using Suc.prems(1) [of "Suc k"] by (simp only: funpow_Suc_right comp_apply not_False_eq_True)
  moreover have "coord_Done (sys_coord ((sleep ^^ n) (sleep s))) = Some True" using Suc.prems(2) by (simp only: funpow_Suc_right comp_apply)
  ultimately have "\<exists>s'. wait_done sleep (sleep s) = Some (Returned s')" by (rule Suc.IH)
  with d show ?case by (subst wait_done.simps) simp
qed

text \<open>The waiting ended when the coordinator looked for the time \<open>k + 1\<close>.\<close>

definition ended_at :: "nat \<Rightarrow> (mr_sys \<Rightarrow> mr_sys) \<Rightarrow> mr_sys \<Rightarrow> mr_sys run \<Rightarrow> bool" where
  "ended_at k sleep s r \<longleftrightarrow> (case coord_Done (sys_coord ((sleep ^^ k) s)) of
     None \<Rightarrow> r = Fatal ((sleep ^^ k) s) | Some d \<Rightarrow> d \<and> r = Returned ((sleep ^^ Suc k) s))"

lemma wait_done_sound:
  assumes a: "wait_done sleep s = Some r"
  shows "\<exists>k. ended_at k sleep s r"
proof (rule wait_done.raw_induct [where P = "\<lambda>sleep s r. \<exists>k. ended_at k sleep s r", OF _ a])
  fix wait sleep s r
  assume IH: "\<And>sleep s r. wait sleep s = Some r \<Longrightarrow> \<exists>k. ended_at k sleep s r"
    and r: "(case coord_Done (sys_coord s) of None \<Rightarrow> Some (Fatal s) | Some d \<Rightarrow> if d then Some (Returned (sleep s)) else wait sleep (sleep s)) = Some r"
  show "\<exists>k. ended_at k sleep s r"
  proof (cases "coord_Done (sys_coord s) = Some False")
    case True
    with r IH obtain k where "ended_at k sleep (sleep s) r" by force
    then show ?thesis by (intro exI [of _ "Suc k"]) (simp only: ended_at_def funpow_Suc_right comp_apply)
  next
    case False
    with r show ?thesis by (intro exI [of _ 0]) (auto simp: ended_at_def split: option.splits)
  qed
qed

lemma sleep_reach:
  assumes "\<And>s. (mr_step srt mapf reducef)\<^sup>*\<^sup>* s (sleep s)"
  shows "(mr_step srt mapf reducef)\<^sup>*\<^sup>* s ((sleep ^^ k) s)"
  by (induction k) (auto intro: rtranclp_trans assms)

lemma mr_step_coord: "mr_step srt mapf reducef s s' \<Longrightarrow> sys_coord s' = sys_coord s \<or> coord_step (sys_coord s) (sys_coord s')"
  by (cases rule: mr_step.cases) (auto intro: coord_step.intros)

lemma Done_run:
  assumes "(mr_step srt mapf reducef)\<^sup>*\<^sup>* s s'" and "coord_inv files nReduce (sys_coord s)" and "coord_Done (sys_coord s) = Some True"
  shows "coord_inv files nReduce (sys_coord s') \<and> coord_Done (sys_coord s') = Some True"
  using assms(1)
proof (induction rule: rtranclp_induct)
  case (step t u)
  from mr_step_coord [OF step(2)] show ?case
  proof
    assume c: "coord_step (sys_coord t) (sys_coord u)"
    from step.IH have inv: "coord_inv files nReduce (sys_coord t)" ..
    note inv' = coord_step_inv [OF c inv]
    from Done_shape [of files nReduce "sys_coord t"] Done_shape [of files nReduce "sys_coord u"] inv inv' step.IH finished_stable(2) [OF c inv]
    show ?thesis by (simp add: coord_inv_def)
  qed (use step.IH in simp)
qed (use assms in simp)


section \<open>One worker completes the job\<close>

text \<open>What a turn of a worker with such calls does to the coordinator.\<close>

definition coord_turn :: "Coordinator \<Rightarrow> Coordinator" where
  "coord_turn c = (case HandleWorker c of None \<Rightarrow> c | Some (c, reply) \<Rightarrow>
     if TaskType reply = ''MAP'' \<or> TaskType reply = ''REDUCE''
     then (case HandleFinish \<lparr>fin_Id = TaskId reply, fin_TaskType = TaskType reply\<rparr> c of None \<Rightarrow> c | Some c \<Rightarrow> c) else c)"

lemma Worker_turn_now:
  assumes srt: "go_sort ByKey_Less srt" and free: "order_free reducef" and job: "job_ok files nReduce fs0"
    and reach: "(mr_step srt mapf reducef)\<^sup>*\<^sup>* (mr_start files nReduce fs0) s"
  shows "\<exists>s'. Worker_turn srt mapf reducef id ask_now fin_now s = Running s' \<and> sys_coord s' = coord_turn (sys_coord s)"
proof -
  have "coord_shape files nReduce (sys_coord s)" using mr_run_inv [OF srt free job reach] by (simp add: sys_inv_def coord_inv_def)
  then obtain c reply where ask: "HandleWorker (sys_coord s) = Some (c, reply)" by (cases rule: HandleWorker_outcome) auto
  let ?s = "s\<lparr>sys_coord := c, sys_jobs := reply # sys_jobs s\<rparr>"
  have "(mr_step srt mapf reducef)\<^sup>*\<^sup>* (mr_start files nReduce fs0) ?s"
    using reach mr_step.sys_ask [OF ask] by (rule rtranclp.rtrancl_into_rtrancl)
  from run_job_total [OF srt job mr_run_inv [OF srt free job this], of reply]
  obtain fs msgs where "run_job srt mapf reducef reply (sys_fs s) = Some (fs, msgs)" by auto
  with ask show ?thesis
    by (auto simp: Worker_turn_def coord_turn_def ask_now_def fin_now_def run_job_def split: option.splits if_splits bind_splits)
qed

definition nothing_runs :: "string list \<Rightarrow> int \<Rightarrow> Coordinator \<Rightarrow> bool" where
  "nothing_runs files nReduce c \<longleftrightarrow> (\<forall>i<length files. map_status c i \<noteq> Some 1) \<and> (\<forall>i<nat nReduce. reduce_status c i \<noteq> Some 1)"

lemma coord_turn_advances:
  assumes inv: "coord_inv files nReduce c" and idle: "nothing_runs files nReduce c"
  shows "nothing_runs files nReduce (coord_turn c) \<and> unfinished files nReduce (coord_turn c) \<le> unfinished files nReduce c - 1"
proof -
  from inv have shape: "coord_shape files nReduce c" by (simp add: coord_inv_def)
  then show ?thesis
  proof (cases rule: HandleWorker_outcome)
    case (map p)
    from shape map(1) obtain t where t: "map_heap c p = Some t" "MapTaskMap c (int p + 1) = Some p" by (auto simp: coord_shape_def)
    have "map_status (coord_turn c) = (map_status c)(p \<mapsto> 2)" "reduce_status (coord_turn c) = reduce_status c"
      using map(3) t by (simp_all add: coord_turn_def HandleFinish_def map_status_def reduce_status_def fun_eq_iff)
    with idle map(1,2) card_upd_less [of p "length files" "map_status c" 0] show ?thesis by (auto simp: nothing_runs_def unfinished_def)
  next
    case (reduce p)
    from shape reduce(1) obtain t where t: "reduce_heap c p = Some t" "ReduceTaskMap c (int p + 1) = Some p" by (auto simp: coord_shape_def)
    have "reduce_status (coord_turn c) = (reduce_status c)(p \<mapsto> 2)" "map_status (coord_turn c) = map_status c"
      using reduce(4) t by (simp_all add: coord_turn_def HandleFinish_def map_status_def reduce_status_def fun_eq_iff)
    with idle reduce(1,2) card_upd_less [of p "nat nReduce" "reduce_status c" 0] show ?thesis by (auto simp: nothing_runs_def unfinished_def)
  next
    case idle': idle
    have "unfinished files nReduce c = 0"
      using inv idle idle'(2,3) by (fastforce simp: unfinished_def nothing_runs_def coord_inv_def coord_progress_def)
    then show ?thesis using idle idle'(1) by (simp add: coord_turn_def zero_reply_def)
  qed
qed

lemma Worker_now:
  assumes srt: "go_sort ByKey_Less srt" and free: "order_free reducef" and job: "job_ok files nReduce fs0"
    and reach: "(mr_step srt mapf reducef)\<^sup>*\<^sup>* (mr_start files nReduce fs0) s" and idle: "nothing_runs files nReduce (sys_coord s)"
  shows "\<exists>s'. Worker n srt mapf reducef id ask_now fin_now s = Running s' \<and> unfinished files nReduce (sys_coord s') \<le> unfinished files nReduce (sys_coord s) - n
    \<and> (mr_step srt mapf reducef)\<^sup>*\<^sup>* (mr_start files nReduce fs0) s'"
  using reach idle
proof (induction n arbitrary: s)
  case (Suc n)
  from Worker_turn_now [OF srt free job Suc.prems(1)] obtain s1 where
    s1: "Worker_turn srt mapf reducef id ask_now fin_now s = Running s1" "sys_coord s1 = coord_turn (sys_coord s)" by blast
  have "(mr_step srt mapf reducef)\<^sup>*\<^sup>* s s1" using Worker_turn_steps [OF calls_now, of srt mapf reducef s] s1(1) by simp
  with Suc.prems(1) have r1: "(mr_step srt mapf reducef)\<^sup>*\<^sup>* (mr_start files nReduce fs0) s1" by (rule rtranclp_trans)
  have "coord_inv files nReduce (sys_coord s)" using mr_run_inv [OF srt free job Suc.prems(1)] by (simp add: sys_inv_def)
  note adv = coord_turn_advances [OF this Suc.prems(2), folded s1(2)]
  from Suc.IH [OF r1 conjunct1 [OF adv]] obtain s' where s': "Worker n srt mapf reducef id ask_now fin_now s1 = Running s'"
    "unfinished files nReduce (sys_coord s') \<le> unfinished files nReduce (sys_coord s1) - n" "(mr_step srt mapf reducef)\<^sup>*\<^sup>* (mr_start files nReduce fs0) s'" by blast
  from s'(2) adv have "unfinished files nReduce (sys_coord s') \<le> unfinished files nReduce (sys_coord s) - Suc n" by linarith
  moreover have "Worker (Suc n) srt mapf reducef id ask_now fin_now s = Running s'" by (simp only: Worker.simps s1(1) s'(1) run.case)
  ultimately show ?case using s'(3) by blast
qed auto

lemma start_idle:
  "nothing_runs files nReduce (sys_coord (mr_start files nReduce fs0))" "unfinished files nReduce (sys_coord (mr_start files nReduce fs0)) \<le> length files + nat nReduce"
proof -
  show "nothing_runs files nReduce (sys_coord (mr_start files nReduce fs0))"
    by (auto simp: nothing_runs_def mr_start_def map_status_def reduce_status_def MakeCoordinator_def make_tasks)
  have "card {i. i < n \<and> Q i} \<le> n" for n :: nat and Q using card_mono [of "{..<n}" "{i. i < n \<and> Q i}"] by auto
  then show "unfinished files nReduce (sys_coord (mr_start files nReduce fs0)) \<le> length files + nat nReduce"
    unfolding unfinished_def by (intro add_mono)
qed



text \<open>The coordinator with a worker that takes eleven turns each time the coordinator sleeps.\<close>

definition turns :: "mr_sys \<Rightarrow> mr_sys" where
  "turns s = run_state (Worker 11 (insertionSort ByKey_Less) sample_map sample_reduce id ask_now fin_now s)"

lemma turns_steps: "(mr_step (insertionSort ByKey_Less) sample_map sample_reduce)\<^sup>*\<^sup>* s (turns s)"
  unfolding turns_def by (rule Worker_steps [OF calls_now])

lemma turns_done:
  assumes free: "order_free sample_reduce" and job: "job_ok [''f''] 10 fs0"
  shows "coord_Done (sys_coord ((turns ^^ 1) (mr_start [''f''] 10 fs0))) = Some True"
proof -
  from Worker_now [OF byKey.go_sort_axioms free job rtranclp.rtrancl_refl start_idle(1), of 11 sample_map] start_idle(2) [of "[''f'']" 10 fs0]
  obtain s where s: "turns (mr_start [''f''] 10 fs0) = s" "unfinished [''f''] 10 (sys_coord s) = 0"
    "(mr_step (insertionSort ByKey_Less) sample_map sample_reduce)\<^sup>*\<^sup>* (mr_start [''f''] 10 fs0) s" by (auto simp: turns_def)
  have "coord_shape [''f''] 10 (sys_coord s)" using mr_run_inv [OF byKey.go_sort_axioms free job s(3)] by (simp add: sys_inv_def coord_inv_def)
  from Done_shape [OF this] s(1,2) show ?thesis by (auto simp: unfinished_def)
qed


text \<open>
  The arguments of \<open>diskvd\<close>: the server is started only with an index of its own port, a group, a directory and the
  port of a master.
\<close>

lemma diskvd_starts:
  "diskvd_main start args w = Fatal w \<or> (\<exists>v. diskvd_main start args w = Fatal (start v w) \<and> 0 \<le> gid v \<and> masters v \<noteq> []
     \<and> 0 \<le> dv_me v \<and> dv_me v < int (length (replicas v)) \<and> dir v \<noteq> [])"
  by (force simp: diskvd_main_def not_less Suc_le_eq split: option.splits)

end
