(* ===== verification/Spec2Isabelle.thy ===== *)
theory Spec2Isabelle
  imports Kv_Model Mr_Apps Raft_Checks Lab_Gob Lab_Services Kv_Config Shard_Config Porcupine_Visual Main_Programs
begin

text \<open>
  A verification library for a Go implementation of the 6.824 labs (\<open>src/src/\<close>). File names below are
  relative to that directory.

  \<^bold>\<open>The program.\<close> The repository has five parts that use each other.

  \<^item> MapReduce: a coordinator hands out map and reduce tasks over RPC, workers run them on a shared file
    system, plugins give the functions \<open>Map\<close> and \<open>Reduce\<close>, and a sequential program is the reference
    (\<open>mr/\<close>, \<open>mrapps/\<close>, \<open>main/\<close>).
  \<^item> Raft: peers elect leaders and replicate a log (\<open>raft/\<close>).
  \<^item> The simulated network and its encoding, over which everything but MapReduce talks (\<open>labrpc/\<close>, \<open>labgob/\<close>).
  \<^item> Services on top of Raft: \<open>kvraft/\<close>, \<open>shardctrler/\<close>, \<open>shardkv/\<close>; their servers are skeletons, the
    clerks of the last two are complete.
  \<^item> The linearizability checker that tests the services: \<open>porcupine/\<close> with the model \<open>models/kv.go\<close>.

  Each of \<open>raft\<close>, \<open>kvraft\<close>, \<open>shardctrler\<close> and \<open>shardkv\<close> has a \<open>config.go\<close>: the object with which tests start,
  crash and partition the servers on the simulated network and judge what they do.

  \<^bold>\<open>Conventions\<close> (\<open>Go_Prelude\<close>). A panic, \<open>log.Fatal\<close> or \<open>t.Fatal\<close> is \<open>None\<close>, an error of the code is a value.
  Slices are lists with the bounds checks of Go written out (\<open>slice_get\<close>, \<open>slice_set\<close>, \<open>slice_from\<close>, \<open>slice_to\<close>),
  maps are partial functions (\<open>map_get0\<close> reads with the zero value), loops that may panic are \<open>foldo\<close>.
  Values used as bit patterns and counters that can overflow are words. Everything the code gets
  from outside (the clock, random numbers, names of fresh objects, the order of \<open>range\<close> over a map, libraries
  of other modules) is an argument; sorting functions satisfy the contract of the locale \<open>go_sort\<close>, which is
  interpreted by the insertion sort of the \<open>sort\<close> package.
\<close>

text \<open>
  \<^bold>\<open>The checker.\<close>

  \<^item> \<open>Porcupine_Bitset\<close> (\<open>porcupine/bitset.go\<close>): the operations on 64-bit chunks implement finite sets of numbers;
    the locale \<open>id_set\<close> is this contract, and the search is proved against it.
  \<^item> \<open>Porcupine_Model\<close> (\<open>porcupine/model.go\<close>, first part of \<open>checker.go\<close>): operations, events, models, entries, and
    the specification of linearizability on operations and on entries.
  \<^item> \<open>Porcupine_Links\<close>: the doubly linked list (\<open>makeLinkedEntries\<close>, \<open>insertBefore\<close>, \<open>lift\<close>, \<open>unlift\<close>) on a heap; \<open>unlift\<close> undoes \<open>lift\<close>.
  \<^item> \<open>Porcupine_Search\<close>: the reference search on sets, with its termination and correctness for a model
    with the contract \<open>seq_model\<close>.
  \<^item> \<open>Porcupine_Checker\<close>, \<open>Porcupine_Correct\<close>: \<open>checkSingle\<close> with list, bit set, hashed cache and stack, and the simulation
    of the reference search. It returns for every history, so no nil dereference happens and the loop ends.
  \<^item> \<open>Porcupine_Parallel\<close>: \<open>checkParallel\<close> for all schedules of its goroutines and its timeout, and the exported functions.
  \<^item> \<open>Kv_Model\<close> (\<open>models/kv.go\<close>): partition, step and description; linearizability of the store is decided key by
    key, and the exported functions give the right answers for the whole store.
  \<^item> \<open>Porcupine_Visual\<close> (\<open>porcupine/visualization.go\<close>): the data of the page; on what the checker reports its panic is unreachable.

  \<^bold>\<open>MapReduce.\<close>

  \<^item> \<open>Mr_Coordinator\<close> (\<open>mr/coordinator.go\<close>, \<open>mr/rpc.go\<close>): the record \<open>Coordinator\<close> is the struct with its task objects as a heap;
    \<open>coord_step\<close> interleaves handlers and crash timers. Lemmas: the invariant of the tables, reduce tasks only after
    all maps, no task is lost.
  \<^item> \<open>Mr_Worker\<close> (\<open>mr/worker.go\<close>, \<open>main/mrsequential.go\<close>): \<open>doMap\<close>, \<open>doReduce\<close> and the intermediate files on a file system; \<open>mr_step\<close> is
    the system of coordinator, workers, messages, crashes and timeouts. A finished job has written the lines of the
    sequential program.
  \<^item> \<open>Mr_Apps\<close> (\<open>mrapps/\<close>): the eight plugins; word count and indexing end to end.
  \<^item> \<open>Main_Programs\<close> (\<open>main/\<close>, \<open>Worker\<close>): the loops of the processes. The worker is a part of the system \<open>mr_step\<close>, one worker is
    enough to complete a job, and the coordinator returns exactly if it sees the job done.
\<close>

text \<open>
  \<^bold>\<open>Raft.\<close>

  \<^item> \<open>Raft_Node\<close> (\<open>raft/raft.go\<close>, \<open>raft/persister.go\<close>): the record of a peer, and one definition for each handler and each critical
    section of a goroutine. Lemmas: the effect of each on every branch, preservation of well-formedness, repair of a
    follower's log by heartbeats.
  \<^item> \<open>Raft_Cluster\<close>: \<open>cl_step\<close>, the goroutines and messages of a group of peers, with loss, delay and reordering. Well-formedness of all
    reachable states, monotone terms, the panics that can occur, what is true of elections and deliveries; and runs
    in which the implementation breaks what Raft promises (two leaders of a term, different commands at one
    index, an index out of range).
  \<^item> \<open>Lab_Ends\<close>, \<open>Raft_Config\<close>, \<open>Raft_Checks\<close> (\<open>raft/config.go\<close>): the wiring of peers on the network and that a request arrives
    exactly between connected peers; the appliers, \<open>checkOneLeader\<close> and \<open>one\<close>, composed with the peers and the group.

  \<^bold>\<open>Network, encoding, services.\<close>

  \<^item> \<open>Lab_Rpc\<close> (\<open>labrpc/labrpc.go\<close>): dispatch to services, tables of the network, and \<open>rpc_step\<close>, the life of every call.
    A handler runs at most once for a call; replies of deleted servers are not delivered; on a reliable
    network calls succeed.
  \<^item> \<open>Lab_Gob\<close> (\<open>labgob/labgob.go\<close>): the checks of types and default values; the encoder itself is an argument.
  \<^item> \<open>Lab_Services\<close> (\<open>kvraft/\<close>, \<open>shardctrler/\<close>, \<open>shardkv/\<close>): servers and clerks; when the retrying loops return, and with what.
  \<^item> \<open>Kv_Config\<close> (\<open>kvraft/config.go\<close>, \<open>shardctrler/config.go\<close>): one model of the code the two files share, for any type of
    server; partitions do what they should in every reachable configuration.
  \<^item> \<open>Shard_Config\<close> (\<open>shardkv/config.go\<close>): controllers, groups, joining and leaving; the sizes for which it works.

  \<^bold>\<open>Loops and fuel.\<close> Loops over slices are structural recursion or \<open>foldo\<close>. Other loops are functions with a measure, or
  \<open>partial_function (option)\<close> with theorems that say when they return (\<open>checkLoop\<close>, the loops of \<open>one\<close>
  under a clock that advances, the retry loops of the clerks, \<open>wait_done\<close>). Fuel appears in three places:
  \<open>itoa_loop\<close> and \<open>dec_loop\<close>, called with a turn for each unit of the number and each character of the text, of which
  every turn takes at least one away; \<open>checkType\<close>, which returns with any fuel above the number of types it can reach; and
  \<open>Worker\<close>, where it is the number of turns of an infinite loop and the theorems hold for every number.
\<close>

text \<open>
  \<^bold>\<open>Not modelled.\<close>

  \<^item> \<open>raft/raft_sleep.go\<close> and \<open>mr/coordinator_1.go\<close> are commented out completely. The constant \<open>html\<close> of
    \<open>porcupine/visualization.go\<close> is a page with JavaScript, data of the Go program. \<open>raft/util.go\<close> is logging.
  \<^item> Sockets, \<open>net/rpc\<close>, \<open>encoding/gob\<close>, \<open>encoding/json\<close> beyond the objects the worker writes, plugins, and the packages
    \<open>lockservice\<close>, \<open>pbservice\<close>, \<open>viewservice\<close> and \<open>diskv\<close>, which the programs of older labs import and the repository
    does not contain: they are arguments, and \<open>Main_Programs\<close> has what those programs do with their arguments.
  \<^item> Time: delays are choices of a schedule or of the argument that stands for what runs meanwhile. Durations are
    compared only where the code compares them.
  \<^item> Memory: operations under a mutex are atomic, and so are the few unprotected accesses; data races are not modelled.
    A task of a worker is executed in one step of the system.
  \<^item> \<open>Raft_Cluster\<close> has no restart of a peer: persistence is a stub in the code, so a restarted peer is a new one, which
    \<open>Raft_Config\<close> has.
  \<^item> Printing and logging, except where the code counts what it prints (\<open>labgob\<close>).
\<close>

end
